(* ===== verification/Wait_Prelude.thy ===== *)
theory Wait_Prelude
  imports Main "HOL-Library.Word"
begin

text \<open>
  Shared vocabulary of the development: the C types the sources use, the faults a C program
  can run into, the errno values the sources compare against, 32-bit signed increments that
  detect overflow, and the generic facts on words and lists that the component theories need.
  Collections: \<open>ht_simps\<close> (rewriting over hash table states) and \<open>res_simps\<close> (results that
  may fault).
\<close>

unbundle bit_operations_syntax

named_theorems res_simps \<open>rewriting of results that may fault\<close>
named_theorems ht_simps \<open>rewriting of hash table states\<close>

section \<open>C types\<close>

text \<open>\<open>unsigned\<close> and \<open>uint_least32_t\<close> are 32 bits wide, a pointer (\<open>uintptr_t\<close>) 64 bits.\<close>

type_synonym u8 = "8 word"
type_synonym u16 = "16 word"
type_synonym u32 = "32 word"
type_synonym u64 = "64 word"
type_synonym ptr = "64 word"

abbreviation NULL :: ptr where
  "NULL \<equiv> 0"

text \<open>
  What makes an execution of C code leave the defined behaviour, or stop: a dereference of a
  null or freed pointer, an index outside of an array, signed overflow, a division by zero, a
  failed \<open>assert\<close>, a call of \<open>abort\<close>, a wrong use of a mutex or condition
  variable. An operation that can do so returns a value of the sum type.
\<close>

datatype fault =
    Bad_Deref
  | Out_Of_Bounds
  | Signed_Overflow
  | Division_By_Zero
  | Assert_Failed
  | Abort_Called
  | Bad_Sync

type_synonym 'a res = "fault + 'a"

fun res_bind :: "'a res \<Rightarrow> ('a \<Rightarrow> 'b res) \<Rightarrow> 'b res" where
  "res_bind (Inl e) f = Inl e"
| "res_bind (Inr x) f = f x"

lemma res_bind_Inr_iff [res_simps]:
  "res_bind m f = Inr y \<longleftrightarrow> (\<exists>x. m = Inr x \<and> f x = Inr y)"
  by (cases m) auto

lemma res_bind_Inl_iff [res_simps]:
  "res_bind m f = Inl e \<longleftrightarrow> m = Inl e \<or> (\<exists>x. m = Inr x \<and> f x = Inl e)"
  by (cases m) auto

section \<open>Signed C integers\<close>

definition INT_MAX :: int where
  "INT_MAX = 2147483647"

definition INT_MIN :: int where
  "INT_MIN = - 2147483648"

text \<open>A result of \<open>int\<close> arithmetic: outside of the type's range the behaviour is undefined.\<close>

definition c_int :: "int \<Rightarrow> int res" where
  "c_int i = (if INT_MIN \<le> i \<and> i \<le> INT_MAX then Inr i else Inl Signed_Overflow)"

text \<open>The same for the 64-bit \<open>time_t\<close> and \<open>long\<close>.\<close>

definition c_long :: "int \<Rightarrow> int res" where
  "c_long i = (if - (2 ^ 63) \<le> i \<and> i < 2 ^ 63 then Inr i else Inl Signed_Overflow)"

lemma c_int_Inr [simp]: "c_int i = Inr j \<longleftrightarrow> j = i \<and> INT_MIN \<le> i \<and> i \<le> INT_MAX"
  by (auto simp: c_int_def)

lemma c_long_Inr [simp]: "c_long i = Inr j \<longleftrightarrow> j = i \<and> - (2 ^ 63) \<le> i \<and> i < 2 ^ 63"
  by (auto simp: c_long_def)

section \<open>Error numbers\<close>

text \<open>The values of \<open>errno.h\<close> on Linux.\<close>

definition ENOENT :: int where "ENOENT = 2"
definition EINTR :: int where "EINTR = 4"
definition EIO :: int where "EIO = 5"
definition EBADF :: int where "EBADF = 9"
definition EAGAIN :: int where "EAGAIN = 11"
definition ENOMEM :: int where "ENOMEM = 12"
definition EACCES :: int where "EACCES = 13"
definition EINVAL :: int where "EINVAL = 22"
definition ETIMEDOUT :: int where "ETIMEDOUT = 110"

lemmas errno_defs =
  ENOENT_def EINTR_def EIO_def EBADF_def EAGAIN_def ENOMEM_def EACCES_def EINVAL_def
  ETIMEDOUT_def

section \<open>Words\<close>

lemma unat_and_mask:
  fixes x :: u32
  assumes "k < 32"
  shows "unat (x AND (2 ^ k - 1)) = unat x mod 2 ^ k"
proof -
  have "x AND (2 ^ k - 1) = take_bit k x"
    by (simp add: take_bit_eq_mask mask_eq_exp_minus_1)
  moreover have "unat (take_bit k x) = take_bit k (unat x)"
    by (rule unsigned_take_bit_eq)
  ultimately show ?thesis
    by (simp only: take_bit_eq_mod)
qed

lemma unat_pow2:
  assumes "k < 32"
  shows "unat (2 ^ k :: u32) = 2 ^ k"
proof -
  have "unat (of_nat (2 ^ k) :: u32) = take_bit 32 (2 ^ k)"
    by (simp only: unsigned_of_nat) simp
  also have "\<dots> = 2 ^ k"
    using assms by (intro take_bit_nat_eq_self power_strict_increasing) simp_all
  finally show ?thesis by simp
qed

lemma unat_Suc_less:
  fixes s b :: u32
  assumes "unat s < unat b"
  shows "unat (s + 1) = Suc (unat s)"
proof -
  have "unat s + 1 < 2 ^ 32"
    using assms unsigned_less [of b, where 'a = nat] by simp
  then show ?thesis
    by (simp add: unat_word_ariths)
qed

section \<open>Lists\<close>

lemma filter_list_update:
  assumes "i < length xs" and "\<not> P (xs ! i)" and "P y"
  shows "length (filter P (xs[i := y])) = Suc (length (filter P xs))"
  using assms
proof (induction xs arbitrary: i)
  case (Cons x xs)
  then show ?case by (cases i) auto
qed simp

lemma filter_list_update_del:
  assumes "i < length xs" and "P (xs ! i)" and "\<not> P y"
  shows "Suc (length (filter P (xs[i := y]))) = length (filter P xs)"
  using assms
proof (induction xs arbitrary: i)
  case (Cons x xs)
  then show ?case by (cases i) auto
qed simp

lemma filter_update_same:
  assumes "P y \<longleftrightarrow> P (xs ! i)"
  shows "length (filter P (xs[i := y])) = length (filter P xs)"
  using assms
proof (induction xs arbitrary: i)
  case (Cons x xs)
  then show ?case by (cases i) auto
qed simp

lemma filter_length_lt:
  assumes "i < length xs" and "\<not> P (xs ! i)"
  shows "length (filter P xs) < length xs"
  using assms by (auto intro!: length_filter_less)

end
