(* ===== verification/Triangular_Probe.thy ===== *)
theory Triangular_Probe
  imports Wait_Prelude
begin

text \<open>
  The probe sequence of the open-addressing table in \<^verbatim>\<open>atomic_wait_common.ipp.ipp\<close>: the code starts at a
  slot \<open>h\<close> and advances \<open>idx = (idx + step) & (size - 1)\<close> with an incrementing \<open>step\<close>. The
  theory gives the closed form (triangular numbers modulo the size) and the fact the comment in
  \<open>hash_table_grow\<close> relies on: on a table whose size is a power of two the first \<open>size\<close> probes
  visit every slot exactly once.
\<close>

definition tri :: "nat \<Rightarrow> nat" where
  "tri n = n * (n + 1) div 2"

definition probe_at :: "nat \<Rightarrow> nat \<Rightarrow> nat \<Rightarrow> nat" where
  "probe_at sz h n = (h + tri n) mod sz"

definition next_idx :: "u32 \<Rightarrow> u32 \<Rightarrow> u32 \<Rightarrow> u32" where
  "next_idx bc idx step = (idx + step) AND (bc - 1)"

lemma tri_0 [simp]: "tri 0 = 0"
  by (simp add: tri_def)

lemma two_tri: "2 * tri n = n * (n + 1)"
  by (simp add: tri_def)

lemma tri_Suc: "tri (Suc n) = tri n + Suc n"
proof -
  have "2 * tri (Suc n) = 2 * (tri n + Suc n)"
    by (simp only: two_tri distrib_left) (simp add: algebra_simps)
  then show ?thesis by simp
qed

lemma tri_mono: "i \<le> j \<Longrightarrow> tri i \<le> tri j"
  unfolding tri_def by (intro div_le_mono mult_le_mono) simp_all

lemma probe_at_less [simp]: "0 < sz \<Longrightarrow> probe_at sz h n < sz"
  by (simp add: probe_at_def)

lemma probe_at_0: "h < sz \<Longrightarrow> probe_at sz h 0 = h"
  by (simp add: probe_at_def)

lemma probe_at_Suc: "probe_at sz h (Suc n) = (probe_at sz h n + Suc n) mod sz"
  unfolding probe_at_def tri_Suc by (simp only: mod_add_left_eq add.assoc)

lemma odd_dvd_cancel:
  fixes a b :: nat
  assumes "2 ^ k dvd a * b" and "odd a"
  shows "2 ^ k dvd b"
proof -
  have "coprime (2 ^ k) a"
    using assms(2) by simp
  then show ?thesis
    using assms(1) coprime_dvd_mult_right_iff by blast
qed

lemma tri_diff: "i \<le> j \<Longrightarrow> 2 * (tri j - tri i) = (j - i) * (i + j + 1)"
proof (induction rule: dec_induct)
  case base
  show ?case by simp
next
  case (step n)
  have "2 * (tri (Suc n) - tri i) = 2 * (tri n - tri i) + 2 * Suc n"
    using tri_mono [OF step.hyps(1)] by (simp add: tri_Suc)
  also have "\<dots> = (n - i) * (i + n + 1) + 2 * Suc n"
    by (simp add: step.IH)
  also have "\<dots> = (Suc n - i) * (i + Suc n + 1)"
  proof -
    obtain d where "n = i + d"
      using step.hyps(1) le_Suc_ex by blast
    then show ?thesis by (simp add: algebra_simps)
  qed
  finally show ?case .
qed

lemma tri_not_cong:
  assumes "i < j" and "j < 2 ^ k"
  shows "\<not> 2 ^ k dvd tri j - tri i"
proof
  assume "2 ^ k dvd tri j - tri i"
  then have d: "2 ^ Suc k dvd (j - i) * (i + j + 1)"
    using tri_diff [of i j] assms(1) by (metis less_imp_le mult_dvd_mono dvd_refl power_Suc)
  show False
  proof (cases "odd (j - i)")
    case True
    then have "2 ^ Suc k dvd i + j + 1"
      using d odd_dvd_cancel by blast
    then have "2 ^ Suc k \<le> i + j + 1"
      by (rule dvd_imp_le) simp
    then show False using assms by simp
  next
    case False
    then have "odd (i + j + 1)"
      using assms(1) by simp
    then have "2 ^ Suc k dvd j - i"
      using d odd_dvd_cancel by (metis mult.commute)
    then have "2 ^ Suc k \<le> j - i"
      by (rule dvd_imp_le) (use assms in simp)
    then show False using assms by simp
  qed
qed

lemma probe_at_inj:
  assumes "i < 2 ^ k" and "j < 2 ^ k" and "probe_at (2 ^ k) h i = probe_at (2 ^ k) h j"
  shows "i = j"
proof -
  have neq: "probe_at (2 ^ k) h i \<noteq> probe_at (2 ^ k) h j" if "i < j" "j < 2 ^ k" for i j
  proof
    assume "probe_at (2 ^ k) h i = probe_at (2 ^ k) h j"
    then have "2 ^ k dvd (h + tri j) - (h + tri i)"
      unfolding probe_at_def using mod_eq_dvd_iff_nat [of "h + tri i" "h + tri j" "2 ^ k"]
        tri_mono [of i j] that(1) by simp
    then show False using tri_not_cong [OF that] by simp
  qed
  show ?thesis
    using neq [of i j] neq [of j i] assms by (metis linorder_neqE_nat)
qed

lemma probe_at_surj:
  assumes "s < 2 ^ k"
  shows "\<exists>n<2 ^ k. probe_at (2 ^ k) h n = s"
proof -
  let ?f = "probe_at (2 ^ k) h"
  have "inj_on ?f {..<2 ^ k}"
    by (auto intro!: inj_onI dest: probe_at_inj)
  moreover have "?f ` {..<2 ^ k} \<subseteq> {..<2 ^ k}"
    by auto
  ultimately have "?f ` {..<2 ^ k} = {..<2 ^ k}"
    by (simp add: endo_inj_surj)
  then have "s \<in> ?f ` {..<2 ^ k}"
    using assms by simp
  then show ?thesis by blast
qed

text \<open>The word the code computes is the closed form.\<close>

lemma unat_next_idx:
  assumes "k < 32" and "unat idx = probe_at (2 ^ k) h n" and "unat step = Suc n"
  shows "unat (next_idx (2 ^ k) idx step) = probe_at (2 ^ k) h (Suc n)"
proof -
  have "(2::nat) ^ k dvd 2 ^ 32"
    using assms(1) by (intro le_imp_power_dvd) simp
  then have "unat (idx + step) mod 2 ^ k = (unat idx + unat step) mod 2 ^ k"
    by (simp add: unat_word_ariths mod_mod_cancel)
  then show ?thesis
    using assms by (simp add: next_idx_def unat_and_mask probe_at_Suc)
qed

text \<open>The index and step variables of the probe loops after \<open>n\<close> turns.\<close>

fun probe_turns :: "u32 \<Rightarrow> nat \<Rightarrow> u32 \<times> u32 \<Rightarrow> u32 \<times> u32" where
  "probe_turns bc 0 s = s"
| "probe_turns bc (Suc n) s =
     (case probe_turns bc n s of (idx, step) \<Rightarrow> (next_idx bc idx (step + 1), step + 1))"

lemma probe_turns_at:
  assumes "k < 32" and "unat idx < 2 ^ k" and "n < 2 ^ k"
  shows "unat (fst (probe_turns (2 ^ k) n (idx, 0))) = probe_at (2 ^ k) (unat idx) n
    \<and> unat (snd (probe_turns (2 ^ k) n (idx, 0))) = n"
  using assms(3)
proof (induction n)
  case 0
  then show ?case using assms(2) by (simp add: probe_at_0)
next
  case (Suc n)
  obtain i st where p: "probe_turns (2 ^ k) n (idx, 0) = (i, st)"
    by (metis surj_pair)
  then have at: "unat i = probe_at (2 ^ k) (unat idx) n" "unat st = n"
    using Suc by simp_all
  have "unat st < unat (2 ^ k :: u32)"
    using at(2) Suc.prems unat_pow2 [OF assms(1)] by simp
  then have "unat (st + 1) = Suc n"
    using unat_Suc_less at(2) by metis
  then show ?case
    using unat_next_idx [OF assms(1) at(1)] p by simp
qed

lemma probe_turns_bij:
  assumes "k < 32" and "unat idx < 2 ^ k"
  shows "bij_betw (\<lambda>n. unat (fst (probe_turns (2 ^ k) n (idx, 0)))) {..<2 ^ k} {..<2 ^ k}"
proof -
  have "bij_betw (probe_at (2 ^ k) (unat idx)) {..<2 ^ k} {..<2 ^ k}"
  proof (rule bij_betw_imageI)
    show "inj_on (probe_at (2 ^ k) (unat idx)) {..<2 ^ k}"
      by (rule inj_onI) (auto dest: probe_at_inj)
    have "i \<in> probe_at (2 ^ k) (unat idx) ` {..<2 ^ k}" if "i < 2 ^ k" for i
      using probe_at_surj [OF that, of "unat idx"] by blast
    then show "probe_at (2 ^ k) (unat idx) ` {..<2 ^ k} = {..<2 ^ k}"
      by auto
  qed
  then show ?thesis
    by (rule bij_betw_cong [THEN iffD1, rotated]) (use probe_turns_at [OF assms] in simp)
qed

end
