(* ===== verification/Hash_Table.thy ===== *)
theory Hash_Table
  imports Triangular_Probe
begin

text \<open>
  The process-wide proxy table of \<^verbatim>\<open>atomic_wait_common.ipp.ipp\<close>: \<open>proxy_waiter_t\<close>, \<open>hash_bucket_t\<close>,
  \<open>hash_table_t\<close> and the functions \<open>hash_table_lock\<close>, \<open>hash_table_unlock\<close>, \<open>hash_func\<close>,
  \<open>hash_table_grow\<close>, \<open>hash_table_find_or_create\<close>, \<open>hash_table_remove_item\<close>, on an explicit heap of
  proxies. The calls of the C library are resolved by scripts in the state: what the next
  \<open>calloc\<close> returns (an address or the null pointer) and which errno value a successful \<open>calloc\<close>
  or a \<open>free\<close> leaves behind, so a statement about all states is a statement about every
  behaviour of the allocator. A script entry that would hand out a live address counts as a
  failed allocation.
\<close>

section \<open>Data\<close>

record 'p proxy_waiter =
  use_count :: int
  atomic :: 'p

record hash_bucket =
  proxy :: ptr
  key :: ptr

record hash_table =
  buckets :: "hash_bucket list option"
  bucket_count :: u32
  count :: u32
  lock :: bool

text \<open>
  The answers of the operating system to the calls that initialise a proxy and to the calls that destroy
  one, each in the order of the calls.
\<close>

record os_answers =
  init_answers :: "int list"
  destroy_answers :: "int list"

record 'p world =
  table :: hash_table
  heap :: "ptr \<rightharpoonup> 'p proxy_waiter"
  alloc_script :: "(ptr \<times> int) list"
  free_script :: "int list"
  os_script :: os_answers
  errno :: int

definition HASH_BUCKETS_INITIAL :: u32 where
  "HASH_BUCKETS_INITIAL = 1024"

definition HASH_BUCKETS_MAX :: u32 where
  "HASH_BUCKETS_MAX = 1024 * 1024"

definition HASH_BUCKET_DELETED :: ptr where
  "HASH_BUCKET_DELETED = 1"

text \<open>The zero-initialised global \<open>shared_global_hash_table\<close>.\<close>

definition shared_global_hash_table :: hash_table where
  "shared_global_hash_table = \<lparr>buckets = None, bucket_count = 0, count = 0, lock = False\<rparr>"

definition zero_bucket :: hash_bucket where
  "zero_bucket = \<lparr>proxy = NULL, key = NULL\<rparr>"

text \<open>
  The macros a backend supplies for the proxy payload: its zeroed value, \<open>..._INIT\<close> and
  \<open>..._DESTROY\<close> (zero on success). They may call the operating system, whose results they take
  from the front of the script they are given.
\<close>

record 'p proxy_ops =
  px_zero :: 'p
  px_init :: "os_answers \<Rightarrow> 'p \<Rightarrow> int \<times> 'p \<times> os_answers"
  px_destroy :: "os_answers \<Rightarrow> 'p \<Rightarrow> int \<times> os_answers"

section \<open>The C library\<close>

definition c_calloc :: "'p world \<Rightarrow> ptr \<times> 'p world" where
  "c_calloc w =
     (case alloc_script w of
        [] \<Rightarrow> (NULL, w\<lparr>errno := ENOMEM\<rparr>)
      | (p, e) # r \<Rightarrow>
          if p \<noteq> NULL \<and> heap w p = None then (p, w\<lparr>alloc_script := r, errno := e\<rparr>)
          else (NULL, w\<lparr>alloc_script := r, errno := ENOMEM\<rparr>))"

definition c_free :: "'p world \<Rightarrow> 'p world" where
  "c_free w = (case free_script w of [] \<Rightarrow> w | e # r \<Rightarrow> w\<lparr>free_script := r, errno := e\<rparr>)"

section \<open>Operations\<close>

text \<open>
  \<open>hash_table_lock\<close> spins until its test-and-set finds the flag clear: one attempt returns the
  previous flag and leaves it set.
\<close>

definition hash_table_lock :: "hash_table \<Rightarrow> bool \<times> hash_table" where
  "hash_table_lock t = (lock t, t\<lparr>lock := True\<rparr>)"

definition hash_table_unlock :: "hash_table \<Rightarrow> hash_table" where
  "hash_table_unlock t = t\<lparr>lock := False\<rparr>"

definition hash_func :: "ptr \<Rightarrow> u32" where
  "hash_func k = ((ucast k :: u32) XOR 2166136261) * 16777619"

text \<open>The inner loop of \<open>hash_table_grow\<close>: the slot of one item in the new array.\<close>

function grow_place ::
  "u32 \<Rightarrow> hash_bucket \<Rightarrow> u32 \<Rightarrow> u32 \<Rightarrow> hash_bucket list \<Rightarrow> hash_bucket list option res" where
  "grow_place new_count old_bucket idx step new_buckets =
     (if length new_buckets \<le> unat idx then Inl Out_Of_Bounds
      else if key (new_buckets ! unat idx) = NULL
      then Inr (Some (new_buckets[unat idx := old_bucket]))
      else if new_count \<le> step + 1 then Inr None
      else grow_place new_count old_bucket (next_idx new_count idx (step + 1)) (step + 1)
             new_buckets)"
  by pat_completeness auto

lemma probe_measure:
  fixes bc step :: u32
  assumes "\<not> bc \<le> step + 1"
  shows "unat (bc - 1 - (step + 1)) < unat (bc - 1 - step)"
proof -
  have pos: "bc - (step + 1) \<noteq> 0"
    using assms by auto
  have "bc - 1 - (step + 1) = bc - (step + 1) - 1" and "bc - 1 - step = bc - (step + 1)"
    by simp_all
  then show ?thesis
    using pos by (metis measure_unat)
qed

termination grow_place
  by (relation "measure (\<lambda>(bc, b, idx, step, bs). unat (bc - 1 - step))")
    (simp_all add: probe_measure [simplified])

declare grow_place.simps [simp del]

text \<open>The outer loop of \<open>hash_table_grow\<close>: every live bucket of the old array.\<close>

function grow_loop ::
  "u32 \<Rightarrow> u32 \<Rightarrow> hash_bucket list \<Rightarrow> u32 \<Rightarrow> hash_bucket list \<Rightarrow> hash_bucket list option res" where
  "grow_loop old_count new_count bs i new_buckets =
     (if i < old_count then
        if length bs \<le> unat i then Inl Out_Of_Bounds
        else if key (bs ! unat i) = NULL \<or> key (bs ! unat i) = HASH_BUCKET_DELETED
        then grow_loop old_count new_count bs (i + 1) new_buckets
        else
          (case grow_place new_count (bs ! unat i)
                  (hash_func (key (bs ! unat i)) AND (new_count - 1)) 0 new_buckets of
             Inl e \<Rightarrow> Inl e
           | Inr None \<Rightarrow> Inr None
           | Inr (Some nb) \<Rightarrow> grow_loop old_count new_count bs (i + 1) nb)
      else Inr (Some new_buckets))"
  by pat_completeness auto

lemma loop_measure:
  fixes i n :: u32
  assumes "i < n"
  shows "unat n - unat (i + 1) < unat n - unat i"
  using assms unat_Suc_less [of i n] by (simp add: word_less_nat_alt)

termination grow_loop
  by (relation "measure (\<lambda>(n, m, bs, i, nb). unat n - unat i)") (simp_all add: loop_measure)

declare grow_loop.simps [simp del]

definition hash_table_grow :: "'p world \<Rightarrow> (int \<times> 'p world) res" where
  "hash_table_grow w =
     (let old_count = bucket_count (table w);
          new_count = (if old_count * 2 > HASH_BUCKETS_MAX then HASH_BUCKETS_MAX
                       else old_count * 2)
      in if new_count \<le> old_count then Inr (-1, w\<lparr>errno := ENOMEM\<rparr>)
         else
           (case c_calloc w of (new_buckets, w1) \<Rightarrow>
              if new_buckets = NULL then Inr (-1, w1)
              else
                (case buckets (table w1) of
                   None \<Rightarrow> Inl Bad_Deref
                 | Some bs \<Rightarrow>
                     (case grow_loop old_count new_count bs 0
                             (replicate (unat new_count) zero_bucket) of
                        Inl e \<Rightarrow> Inl e
                      | Inr None \<Rightarrow> Inr (-1, (c_free w1)\<lparr>errno := ENOMEM\<rparr>)
                      | Inr (Some nb) \<Rightarrow>
                          (let w2 = c_free w1
                           in Inr (0, w2\<lparr>table := (table w2)
                                \<lparr>buckets := Some nb, bucket_count := new_count\<rparr>\<rparr>))))))"

text \<open>
  The probe loop of \<open>hash_table_find_or_create\<close>: the slot that holds the key, or the slot a new
  item goes to (the earliest tombstone on the path, or the empty slot that ended it), or
  neither after \<open>bucket_count\<close> probes.
\<close>

datatype probe_result = Hit nat | Vacant nat | Full

function find_probe ::
  "hash_bucket list \<Rightarrow> u32 \<Rightarrow> ptr \<Rightarrow> u32 \<Rightarrow> u32 \<Rightarrow> nat option \<Rightarrow> probe_result res" where
  "find_probe bs bc k idx step deleted_bucket =
     (if length bs \<le> unat idx then Inl Out_Of_Bounds
      else if key (bs ! unat idx) = k then Inr (Hit (unat idx))
      else if key (bs ! unat idx) = NULL
      then Inr (Vacant (case deleted_bucket of None \<Rightarrow> unat idx | Some d \<Rightarrow> d))
      else if bc \<le> step + 1 then Inr Full
      else find_probe bs bc k (next_idx bc idx (step + 1)) (step + 1)
             (if key (bs ! unat idx) = HASH_BUCKET_DELETED \<and> deleted_bucket = None
              then Some (unat idx) else deleted_bucket))"
  by pat_completeness auto

termination find_probe
  by (relation "measure (\<lambda>(bs, bc, k, idx, step, d). unat (bc - 1 - step))")
    (simp_all add: probe_measure [simplified])

declare find_probe.simps [simp del]

definition set_bucket :: "nat \<Rightarrow> hash_bucket \<Rightarrow> 'p world \<Rightarrow> 'p world" where
  "set_bucket i b w =
     w\<lparr>table := (table w)\<lparr>buckets := map_option (\<lambda>bs. bs[i := b]) (buckets (table w))\<rparr>\<rparr>"

text \<open>The key was found: count one more user.\<close>

definition use_found :: "ptr \<Rightarrow> 'p world \<Rightarrow> (ptr \<times> 'p world) res" where
  "use_found p w =
     (case heap w p of
        None \<Rightarrow> Inl Bad_Deref
      | Some px \<Rightarrow>
          res_bind (c_int (use_count px + 1))
            (\<lambda>n. Inr (p, w\<lparr>heap := (heap w)(p \<mapsto> px\<lparr>use_count := n\<rparr>)\<rparr>)))"

text \<open>The key is absent: allocate, initialise and enter a proxy in slot \<open>i\<close>.\<close>

definition create_at ::
  "('p, 'o) proxy_ops_scheme \<Rightarrow> ptr \<Rightarrow> nat \<Rightarrow> hash_bucket \<Rightarrow> 'p world \<Rightarrow> ptr \<times> 'p world" where
  "create_at ops k i b w =
     (case c_calloc w of (p, w1) \<Rightarrow>
        if p = NULL then (NULL, set_bucket i (b\<lparr>proxy := NULL\<rparr>) w1)
        else
          (case px_init ops (os_script w1) (px_zero ops) of (ret, a, os) \<Rightarrow>
             if ret \<noteq> 0
             then (NULL, (c_free (set_bucket i (b\<lparr>proxy := NULL\<rparr>) (w1\<lparr>os_script := os\<rparr>)))
                           \<lparr>errno := - ret\<rparr>)
             else
               (let w2 = set_bucket i (b\<lparr>proxy := p, key := k\<rparr>)
                           (w1\<lparr>os_script := os,
                               heap := (heap w1)(p \<mapsto> \<lparr>use_count = 1, atomic = a\<rparr>)\<rparr>)
                in (p, w2\<lparr>table := (table w2)\<lparr>count := count (table w2) + 1\<rparr>\<rparr>))))"

text \<open>
  Growing makes the table strictly larger and never larger than the maximum, so the retry loop
  of \<open>hash_table_find_or_create\<close> terminates.
\<close>

lemma bucket_count_c_calloc: "c_calloc w = (p, w1) \<Longrightarrow> table w1 = table w"
  by (auto simp: c_calloc_def split: list.splits if_splits)

lemma hash_table_grow_measure:
  assumes "hash_table_grow w = Inr (r, w1)" and "\<not> r \<noteq> 0"
  shows "unat HASH_BUCKETS_MAX - unat (bucket_count (table w1))
       < unat HASH_BUCKETS_MAX - unat (bucket_count (table w))"
proof -
  define n where "n = (if bucket_count (table w) * 2 > HASH_BUCKETS_MAX then HASH_BUCKETS_MAX
                       else bucket_count (table w) * 2)"
  have "bucket_count (table w1) = n" and "\<not> n \<le> bucket_count (table w)"
    using assms unfolding hash_table_grow_def Let_def n_def [symmetric]
    by (auto simp: n_def c_free_def split: if_splits prod.splits option.splits sum.splits)
  moreover have "n \<le> HASH_BUCKETS_MAX"
    by (simp add: n_def not_less)
  ultimately show ?thesis
    by (simp add: word_le_nat_alt)
qed

function find_or_create_loop ::
  "('p, 'o) proxy_ops_scheme \<Rightarrow> ptr \<Rightarrow> bool \<Rightarrow> 'p world \<Rightarrow> (ptr \<times> 'p world) res" where
  "find_or_create_loop ops k increment_use_count w =
     (if increment_use_count \<and> count (table w) \<ge> drop_bit 2 (bucket_count (table w)) * 3
      then
        (case hash_table_grow w of
           Inl e \<Rightarrow> Inl e
         | Inr (r, w1) \<Rightarrow>
             if r \<noteq> 0 then Inr (NULL, w1)
             else find_or_create_loop ops k increment_use_count w1)
      else
        (case buckets (table w) of
           None \<Rightarrow> Inl Bad_Deref
         | Some bs \<Rightarrow>
             (case find_probe bs (bucket_count (table w)) k
                     (hash_func k AND (bucket_count (table w) - 1)) 0 None of
                Inl e \<Rightarrow> Inl e
              | Inr (Hit i) \<Rightarrow>
                  if increment_use_count then use_found (proxy (bs ! i)) w
                  else Inr (proxy (bs ! i), w)
              | Inr (Vacant i) \<Rightarrow>
                  if \<not> increment_use_count then Inr (NULL, w)
                  else Inr (create_at ops k i (bs ! i) w)
              | Inr Full \<Rightarrow>
                  (case hash_table_grow w of
                     Inl e \<Rightarrow> Inl e
                   | Inr (r, w1) \<Rightarrow>
                       if r \<noteq> 0 then Inr (NULL, w1)
                       else find_or_create_loop ops k increment_use_count w1))))"
  by pat_completeness auto

termination find_or_create_loop
  by (relation "measure (\<lambda>(ops, k, inc, w).
        unat HASH_BUCKETS_MAX - unat (bucket_count (table w)))")
    (auto intro: hash_table_grow_measure)

declare find_or_create_loop.simps [simp del]

definition hash_table_find_or_create ::
  "('p, 'o) proxy_ops_scheme \<Rightarrow> ptr \<Rightarrow> bool \<Rightarrow> 'p world \<Rightarrow> (ptr \<times> 'p world) res" where
  "hash_table_find_or_create ops k increment_use_count w =
     (case buckets (table w) of
        Some bs \<Rightarrow> find_or_create_loop ops k increment_use_count w
      | None \<Rightarrow>
          (case c_calloc w of (p, w1) \<Rightarrow>
             if p = NULL
             then Inr (NULL, w1\<lparr>table := (table w1)\<lparr>bucket_count := HASH_BUCKETS_INITIAL\<rparr>\<rparr>)
             else find_or_create_loop ops k increment_use_count
                    (w1\<lparr>table := (table w1)
                       \<lparr>buckets := Some (replicate (unat HASH_BUCKETS_INITIAL) zero_bucket),
                        bucket_count := HASH_BUCKETS_INITIAL\<rparr>\<rparr>)))"

text \<open>The probe loop of \<open>hash_table_remove_item\<close>: it does not stop at an empty slot.\<close>

function remove_probe ::
  "hash_bucket list \<Rightarrow> u32 \<Rightarrow> ptr \<Rightarrow> u32 \<Rightarrow> u32 \<Rightarrow> nat option res" where
  "remove_probe bs bc k idx step =
     (if length bs \<le> unat idx then Inl Out_Of_Bounds
      else if key (bs ! unat idx) = k then Inr (Some (unat idx))
      else if bc \<le> step + 1 then Inr None
      else remove_probe bs bc k (next_idx bc idx (step + 1)) (step + 1))"
  by pat_completeness auto

termination remove_probe
  by (relation "measure (\<lambda>(bs, bc, k, idx, step). unat (bc - 1 - step))")
    (simp_all add: probe_measure [simplified])

declare remove_probe.simps [simp del]

definition hash_table_remove_item ::
  "('p, 'o) proxy_ops_scheme \<Rightarrow> ptr \<Rightarrow> 'p world \<Rightarrow> 'p world res" where
  "hash_table_remove_item ops k w =
     (case buckets (table w) of
        None \<Rightarrow> Inr w
      | Some bs \<Rightarrow>
          (case remove_probe bs (bucket_count (table w)) k
                  (hash_func k AND (bucket_count (table w) - 1)) 0 of
             Inl e \<Rightarrow> Inl e
           | Inr None \<Rightarrow> Inr w
           | Inr (Some i) \<Rightarrow>
               (case heap w (proxy (bs ! i)) of
                  None \<Rightarrow> Inl Bad_Deref
                | Some px \<Rightarrow>
                    if use_count px \<noteq> 0 then Inl Assert_Failed
                    else
                      (case px_destroy ops (os_script w) (atomic px) of (ret, os) \<Rightarrow>
                         if ret \<noteq> 0 then Inl Abort_Called
                         else
                           (let w1 = c_free (w\<lparr>os_script := os,
                                              heap := (heap w)(proxy (bs ! i) := None)\<rparr>);
                                w2 = set_bucket i
                                       \<lparr>proxy = NULL, key = HASH_BUCKET_DELETED\<rparr> w1
                            in Inr (w2\<lparr>table := (table w2)
                                       \<lparr>count := count (table w2) - 1\<rparr>\<rparr>))))))"

end
