(* ===== verification/Hash_Table_Correct.thy ===== *)
theory Hash_Table_Correct
  imports Hash_Table
begin

text \<open>
  Correctness of the proxy table. \<open>slots_inv\<close> is the invariant of the bucket array (a power of
  two in size, every live key on its own probe path before the first empty slot, no key twice),
  \<open>world_inv\<close> adds the counters and the heap (each live bucket owns one allocated proxy and
  nothing else is allocated), \<open>lookup\<close> is the map the table stands for. The operations are shown
  to be free of faults and to act on that map as insertion, search and removal; the
  contract for its clients is the locale \<open>ref_table\<close> of \<open>Proxy_Refs\<close>.
\<close>

section \<open>Probe paths\<close>

definition home :: "nat \<Rightarrow> ptr \<Rightarrow> nat" where
  "home sz k = unat (hash_func k) mod sz"

abbreviation slot :: "'a list \<Rightarrow> ptr \<Rightarrow> nat \<Rightarrow> nat" where
  "slot bs k n \<equiv> probe_at (length bs) (home (length bs) k) n"

definition pow2_len :: "nat \<Rightarrow> 'a list \<Rightarrow> bool" where
  "pow2_len q bs \<longleftrightarrow> length bs = 2 ^ q \<and> q \<le> 20"

lemma slot_less: "pow2_len q bs \<Longrightarrow> slot bs k n < length bs"
  by (auto simp: pow2_len_def)

lemma slot_inj:
  assumes "pow2_len q bs" and "n < length bs" and "m < length bs" and "slot bs k n = slot bs k m"
  shows "n = m"
  using assms probe_at_inj unfolding pow2_len_def by metis

lemma slot_surj:
  assumes "pow2_len q bs" and "i < length bs"
  shows "\<exists>n<length bs. slot bs k n = i"
  using assms probe_at_surj [of i q "home (2 ^ q) k"] by (simp add: pow2_len_def)

lemma slot_start:
  assumes "pow2_len q bs"
  shows "unat (hash_func k AND (2 ^ q - 1)) = slot bs k 0"
  using assms unat_and_mask [of q "hash_func k"]
  by (simp add: pow2_len_def home_def probe_at_0)

lemma unat_bucket_count:
  assumes "pow2_len q bs"
  shows "unat (2 ^ q :: u32) = length bs"
  using assms unat_pow2 [of q] by (simp add: pow2_len_def)

text \<open>One turn of any of the three probe loops: counter, loop exit and next slot.\<close>

lemma probe_advance:
  assumes "pow2_len q bs" and "n < length bs" and "unat idx = slot bs k n"
    and "unat step = n"
  shows "(2 ^ q \<le> step + 1 \<longleftrightarrow> Suc n = length bs) \<and> unat (step + 1) = Suc n
       \<and> unat (next_idx (2 ^ q) idx (step + 1)) = slot bs k (Suc n)"
proof -
  have bc: "unat (2 ^ q :: u32) = length bs"
    by (rule unat_bucket_count [OF assms(1)])
  have st: "unat (step + 1) = Suc n"
    using unat_Suc_less [of step "2 ^ q"] assms(2,4) bc by simp
  then have "2 ^ q \<le> step + 1 \<longleftrightarrow> Suc n = length bs"
    using assms(2) bc by (auto simp: word_le_nat_alt)
  moreover have "unat (next_idx (2 ^ q) idx (step + 1)) = slot bs k (Suc n)"
    using unat_next_idx [of q idx "home (length bs) k" n "step + 1"] assms(1,3) st
    by (simp add: pow2_len_def)
  ultimately show ?thesis using st by simp
qed

definition path_clear :: "hash_bucket list \<Rightarrow> ptr \<Rightarrow> nat \<Rightarrow> bool" where
  "path_clear bs k n \<longleftrightarrow>
     (\<forall>m<n. key (bs ! slot bs k m) \<noteq> k \<and> key (bs ! slot bs k m) \<noteq> NULL)"

lemma path_clear_Suc:
  "path_clear bs k (Suc n) \<longleftrightarrow>
     path_clear bs k n \<and> key (bs ! slot bs k n) \<noteq> k \<and> key (bs ! slot bs k n) \<noteq> NULL"
  by (auto simp: path_clear_def less_Suc_eq)

section \<open>What the probe loops find\<close>

fun find_post :: "hash_bucket list \<Rightarrow> ptr \<Rightarrow> probe_result \<Rightarrow> bool" where
  "find_post bs k (Hit i) \<longleftrightarrow> (\<exists>n<length bs. i = slot bs k n \<and> key (bs ! i) = k)"
| "find_post bs k (Vacant i) \<longleftrightarrow>
     (\<exists>n<length bs. path_clear bs k n \<and> key (bs ! slot bs k n) = NULL \<and>
        (i = slot bs k n \<or>
         (\<exists>m<n. i = slot bs k m \<and> key (bs ! i) = HASH_BUCKET_DELETED)))"
| "find_post bs k Full \<longleftrightarrow> path_clear bs k (length bs)"

lemma find_probe_post_gen:
  assumes "pow2_len q bs" and "n < length bs" and "unat idx = slot bs k n"
    and "unat step = n" and "path_clear bs k n"
    and "\<And>d. del = Some d \<Longrightarrow> \<exists>m<n. d = slot bs k m \<and> key (bs ! d) = HASH_BUCKET_DELETED"
  shows "\<exists>r. find_probe bs (2 ^ q) k idx step del = Inr r \<and> find_post bs k r"
  using assms(2-)
proof (induction "length bs - n" arbitrary: n idx step del rule: less_induct)
  case less
  note adv = probe_advance [OF assms(1) less.prems(1-3)]
  let ?b = "bs ! slot bs k n"
  let ?del = "if key ?b = HASH_BUCKET_DELETED \<and> del = None then Some (slot bs k n) else del"
  note unfold = find_probe.simps [of bs "2 ^ q" k idx step del, unfolded less.prems(2)]
  consider "key ?b = k" | "key ?b \<noteq> k" "key ?b = NULL"
    | "key ?b \<noteq> k" "key ?b \<noteq> NULL" "Suc n = length bs"
    | "key ?b \<noteq> k" "key ?b \<noteq> NULL" "Suc n < length bs"
    using less.prems(1) by linarith
  then show ?case
  proof cases
    case 1
    then show ?thesis using less.prems(1) slot_less [OF assms(1), of k n]
      by (auto simp: unfold)
  next
    case 2
    then have "find_probe bs (2 ^ q) k idx step del =
        Inr (Vacant (case del of None \<Rightarrow> slot bs k n | Some d \<Rightarrow> d))"
      using slot_less [OF assms(1), of k n] by (simp add: unfold)
    moreover have "find_post bs k (Vacant (case del of None \<Rightarrow> slot bs k n | Some d \<Rightarrow> d))"
      using 2 less.prems(1,4,5) by (cases del) auto
    ultimately show ?thesis by blast
  next
    case 3
    then have "path_clear bs k (length bs)"
      using less.prems(4) path_clear_Suc [of bs k n] by simp
    then show ?thesis using 3 adv slot_less [OF assms(1), of k n]
      by (auto simp: unfold)
  next
    case 4
    have "\<exists>r. find_probe bs (2 ^ q) k (next_idx (2 ^ q) idx (step + 1)) (step + 1) ?del = Inr r
        \<and> find_post bs k r"
    proof (rule less.hyps [of "Suc n"])
      show "path_clear bs k (Suc n)"
        using less.prems(4) 4 by (simp add: path_clear_Suc)
      show "\<exists>m<Suc n. d = slot bs k m \<and> key (bs ! d) = HASH_BUCKET_DELETED"
        if "?del = Some d" for d
        using that less.prems(5) [of d] by (auto split: if_splits simp: less_Suc_eq)
    qed (use 4 adv in auto)
    then show ?thesis using 4 adv slot_less [OF assms(1), of k n]
      by (simp add: unfold)
  qed
qed

lemma find_probe_post:
  assumes "pow2_len q bs"
  shows "\<exists>r. find_probe bs (2 ^ q) k (hash_func k AND (2 ^ q - 1)) 0 None = Inr r
           \<and> find_post bs k r"
  by (rule find_probe_post_gen [OF assms, of 0])
    (use assms slot_start [OF assms] in \<open>auto simp: pow2_len_def path_clear_def\<close>)

lemma remove_probe_gen:
  assumes "pow2_len q bs" and "n < length bs" and "unat idx = slot bs k n" and "unat step = n"
    and "\<forall>m<n. key (bs ! slot bs k m) \<noteq> k"
  shows "\<exists>r. remove_probe bs (2 ^ q) k idx step = Inr r
       \<and> (\<forall>i. r = Some i \<longrightarrow> i < length bs \<and> key (bs ! i) = k)
       \<and> (r = None \<longrightarrow> (\<forall>m<length bs. key (bs ! slot bs k m) \<noteq> k))"
  using assms(2-)
proof (induction "length bs - n" arbitrary: n idx step rule: less_induct)
  case less
  note adv = probe_advance [OF assms(1) less.prems(1-3)]
  note unfold = remove_probe.simps [of bs "2 ^ q" k idx step, unfolded less.prems(2)]
  note sl = slot_less [OF assms(1), of k n]
  consider "key (bs ! slot bs k n) = k" | "key (bs ! slot bs k n) \<noteq> k" "Suc n = length bs"
    | "key (bs ! slot bs k n) \<noteq> k" "Suc n < length bs"
    using less.prems(1) by linarith
  then show ?case
  proof cases
    case 1
    then show ?thesis using sl by (simp add: unfold)
  next
    case 2
    then have "\<forall>m<length bs. key (bs ! slot bs k m) \<noteq> k"
      using less.prems(4) by (metis less_SucE)
    then show ?thesis using 2 sl adv by (simp add: unfold)
  next
    case 3
    have ih: "\<forall>m<Suc n. key (bs ! slot bs k m) \<noteq> k"
      using less.prems(4) 3 by (auto simp: less_Suc_eq)
    show ?thesis
      using less.hyps [of "Suc n" "next_idx (2 ^ q) idx (step + 1)" "step + 1"] 3 adv sl ih
      by (simp add: unfold)
  qed
qed

lemma remove_probe_post:
  assumes "pow2_len q bs"
  shows "\<exists>r. remove_probe bs (2 ^ q) k (hash_func k AND (2 ^ q - 1)) 0 = Inr r
       \<and> (\<forall>i. r = Some i \<longrightarrow> i < length bs \<and> key (bs ! i) = k)
       \<and> (r = None \<longrightarrow> (\<forall>i<length bs. key (bs ! i) \<noteq> k))"
proof -
  have pos: "0 < length bs"
    using assms by (simp add: pow2_len_def)
  obtain r where r: "remove_probe bs (2 ^ q) k (hash_func k AND (2 ^ q - 1)) 0 = Inr r"
      "\<forall>i. r = Some i \<longrightarrow> i < length bs \<and> key (bs ! i) = k"
      "r = None \<longrightarrow> (\<forall>m<length bs. key (bs ! slot bs k m) \<noteq> k)"
    using remove_probe_gen [OF assms pos slot_start [OF assms], of 0 k] by auto
  have "\<forall>i<length bs. key (bs ! i) \<noteq> k" if "r = None"
    using r(3) that slot_surj [OF assms] by metis
  then show ?thesis using r by auto
qed

lemma grow_place_gen:
  assumes "pow2_len q nb" and "n < length nb" and "unat idx = slot nb (key b) n"
    and "unat step = n" and "\<forall>m<n. key (nb ! slot nb (key b) m) \<noteq> NULL"
  shows "\<exists>r. grow_place (2 ^ q) b idx step nb = Inr r
       \<and> (\<forall>nb'. r = Some nb' \<longrightarrow>
            (\<exists>m<length nb. nb' = nb[slot nb (key b) m := b] \<and> key (nb ! slot nb (key b) m) = NULL
               \<and> (\<forall>l<m. key (nb ! slot nb (key b) l) \<noteq> NULL)))
       \<and> (r = None \<longrightarrow> (\<forall>m<length nb. key (nb ! slot nb (key b) m) \<noteq> NULL))"
  using assms(2-)
proof (induction "length nb - n" arbitrary: n idx step rule: less_induct)
  case less
  let ?s = "slot nb (key b)"
  note adv = probe_advance [OF assms(1) less.prems(1-3)]
  note unfold = grow_place.simps [of "2 ^ q" b idx step nb, unfolded less.prems(2)]
  note sl = slot_less [OF assms(1), of "key b" n]
  consider "key (nb ! ?s n) = NULL" | "key (nb ! ?s n) \<noteq> NULL" "Suc n = length nb"
    | "key (nb ! ?s n) \<noteq> NULL" "Suc n < length nb"
    using less.prems(1) by linarith
  then show ?case
  proof cases
    case 1
    then show ?thesis using sl less.prems(1,4) by (auto simp: unfold)
  next
    case 2
    then have "\<forall>m<length nb. key (nb ! ?s m) \<noteq> NULL"
      using less.prems(4) by (metis less_SucE)
    then show ?thesis using 2 sl adv by (simp add: unfold)
  next
    case 3
    have "\<forall>m<Suc n. key (nb ! ?s m) \<noteq> NULL"
      using less.prems(4) 3 by (auto simp: less_Suc_eq)
    then show ?thesis
      using less.hyps [of "Suc n" "next_idx (2 ^ q) idx (step + 1)" "step + 1"] 3 adv sl
      by (simp add: unfold)
  qed
qed

section \<open>The bucket array as a map\<close>

definition valid_key :: "ptr \<Rightarrow> bool" where
  "valid_key k \<longleftrightarrow> k \<noteq> NULL \<and> k \<noteq> HASH_BUCKET_DELETED"

definition live :: "hash_bucket \<Rightarrow> bool" where
  "live b \<longleftrightarrow> valid_key (key b)"

definition on_path :: "hash_bucket list \<Rightarrow> ptr \<Rightarrow> nat \<Rightarrow> bool" where
  "on_path bs k i \<longleftrightarrow>
     (\<exists>n<length bs. slot bs k n = i \<and> (\<forall>m<n. key (bs ! slot bs k m) \<noteq> NULL))"

definition keys_unique :: "hash_bucket list \<Rightarrow> bool" where
  "keys_unique bs \<longleftrightarrow>
     (\<forall>i<length bs. \<forall>j<length bs. live (bs ! i) \<and> key (bs ! i) = key (bs ! j) \<longrightarrow> i = j)"

definition slots_inv :: "hash_bucket list \<Rightarrow> bool" where
  "slots_inv bs \<longleftrightarrow>
     (\<exists>q. pow2_len q bs) \<and> (\<forall>i<length bs. live (bs ! i) \<longrightarrow> on_path bs (key (bs ! i)) i)
     \<and> keys_unique bs"

definition slot_map :: "hash_bucket list \<Rightarrow> ptr \<rightharpoonup> ptr" where
  "slot_map bs k = (if valid_key k then map_option proxy (find (\<lambda>b. key b = k) bs) else None)"

definition nlive :: "hash_bucket list \<Rightarrow> nat" where
  "nlive bs = length (filter live bs)"

lemma keys_uniqueD:
  "keys_unique bs \<Longrightarrow> i < length bs \<Longrightarrow> j < length bs \<Longrightarrow> valid_key (key (bs ! i)) \<Longrightarrow>
     key (bs ! i) = key (bs ! j) \<Longrightarrow> i = j"
  unfolding keys_unique_def live_def by blast

lemma valid_key_NULL [simp]: "\<not> valid_key NULL" "\<not> valid_key HASH_BUCKET_DELETED"
  by (simp_all add: valid_key_def)

lemma slot_map_None: "slot_map bs k = None \<longleftrightarrow> \<not> valid_key k \<or> (\<forall>i<length bs. key (bs ! i) \<noteq> k)"
  by (auto simp: slot_map_def find_None_iff in_set_conv_nth)

lemma slot_map_Some:
  assumes "keys_unique bs"
  shows "slot_map bs k = Some p \<longleftrightarrow>
           valid_key k \<and> (\<exists>i<length bs. key (bs ! i) = k \<and> proxy (bs ! i) = p)"
proof
  assume "slot_map bs k = Some p"
  then show "valid_key k \<and> (\<exists>i<length bs. key (bs ! i) = k \<and> proxy (bs ! i) = p)"
    by (auto simp: slot_map_def find_Some_iff split: if_splits)
next
  assume "valid_key k \<and> (\<exists>i<length bs. key (bs ! i) = k \<and> proxy (bs ! i) = p)"
  then obtain i where v: "valid_key k" and i: "i < length bs" "key (bs ! i) = k" "proxy (bs ! i) = p"
    by blast
  then have "find (\<lambda>b. key b = k) bs \<noteq> None"
    using nth_mem [OF i(1)] i(2) unfolding find_None_iff by blast
  then obtain b where b: "find (\<lambda>b. key b = k) bs = Some b"
    by auto
  then obtain j where j: "j < length bs" "key (bs ! j) = k" "b = bs ! j"
    by (auto simp: find_Some_iff)
  then have "i = j"
    using keys_uniqueD [OF assms i(1) j(1)] v i(2) by simp
  then show "slot_map bs k = Some p"
    using b v i(3) j(3) by (simp add: slot_map_def)
qed

lemma slot_map_hit:
  "keys_unique bs \<Longrightarrow> i < length bs \<Longrightarrow> valid_key (key (bs ! i)) \<Longrightarrow>
     slot_map bs (key (bs ! i)) = Some (proxy (bs ! i))"
  by (auto simp: slot_map_Some)

text \<open>Updating one slot, seen on the map.\<close>

lemma slot_map_insert:
  assumes "keys_unique bs" and "i < length bs" and "\<not> live (bs ! i)"
    and "slot_map bs k = None" and "valid_key k" and "key b = k"
  shows "keys_unique (bs[i := b]) \<and> slot_map (bs[i := b]) = (slot_map bs)(k \<mapsto> proxy b)"
proof -
  have nokey: "\<forall>j<length bs. key (bs ! j) \<noteq> k"
    using assms(4,5) by (simp add: slot_map_None)
  have u: "keys_unique (bs[i := b])"
    using assms(1,2,3,6) nokey unfolding keys_unique_def live_def
    by (auto simp: nth_list_update)
  have "slot_map (bs[i := b]) k' = ((slot_map bs)(k \<mapsto> proxy b)) k'" for k'
  proof (cases "slot_map bs k'")
    case None
    have "\<forall>j<length bs. key (bs[i := b] ! j) \<noteq> k'" if "k' \<noteq> k" "valid_key k'"
      using None that assms(2,6) by (auto simp: slot_map_None nth_list_update)
    then have "k' \<noteq> k \<Longrightarrow> slot_map (bs[i := b]) k' = None"
      by (auto simp: slot_map_None)
    moreover have "slot_map (bs[i := b]) k = Some (proxy b)"
      using slot_map_hit [OF u, of i] assms(2,5,6) by simp
    ultimately show ?thesis using None by simp
  next
    case (Some p)
    then obtain j where j: "valid_key k'" "j < length bs" "key (bs ! j) = k'" "proxy (bs ! j) = p"
      using assms(1) by (auto simp: slot_map_Some)
    then have "j \<noteq> i"
      using assms(3) by (auto simp: live_def)
    then have "slot_map (bs[i := b]) k' = Some p"
      using slot_map_hit [OF u, of j] j by simp
    then show ?thesis using j nokey by (auto simp: fun_upd_def Some)
  qed
  then show ?thesis using u by (auto simp: fun_eq_iff)
qed

lemma slot_map_erase:
  assumes "keys_unique bs" and "i < length bs" and "\<not> live b"
  shows "keys_unique (bs[i := b]) \<and>
         slot_map (bs[i := b]) = (slot_map bs)(key (bs ! i) := None)"
proof -
  have u: "keys_unique (bs[i := b])"
    using assms unfolding keys_unique_def live_def by (auto simp: nth_list_update)
  have "slot_map (bs[i := b]) k = ((slot_map bs)(key (bs ! i) := None)) k" for k
  proof (cases "slot_map (bs[i := b]) k")
    case None
    have "slot_map bs k = None" if "valid_key k" "key (bs ! i) \<noteq> k"
      unfolding slot_map_None
    proof (intro disjI2 allI impI)
      fix j assume "j < length bs"
      then show "key (bs ! j) \<noteq> k"
        using None that assms(2) by (cases "j = i") (auto simp: slot_map_None nth_list_update)
    qed
    moreover have "slot_map bs k = None" if "\<not> valid_key k"
      using that by (simp add: slot_map_def)
    ultimately show ?thesis using None by (cases "valid_key k") auto
  next
    case (Some p)
    then obtain j where j: "valid_key k" "j < length bs" "key (bs[i := b] ! j) = k"
        "proxy (bs[i := b] ! j) = p"
      using u by (auto simp: slot_map_Some)
    then have "j \<noteq> i"
      using assms(2,3) by (auto simp: live_def)
    then have "key (bs ! i) \<noteq> k"
      using j keys_uniqueD [OF assms(1), of j i] assms(2) by auto
    moreover have "slot_map bs k = Some p"
      using j \<open>j \<noteq> i\<close> slot_map_hit [OF assms(1), of j] by simp
    ultimately show ?thesis using Some by simp
  qed
  then show ?thesis using u by (auto simp: fun_eq_iff)
qed

lemma on_path_update:
  assumes "on_path bs k j" and "key b = NULL \<Longrightarrow> key (bs ! i) = NULL"
  shows "on_path (bs[i := b]) k j"
proof -
  obtain n where n: "n < length bs" "slot bs k n = j" "\<forall>m<n. key (bs ! slot bs k m) \<noteq> NULL"
    using assms(1) by (auto simp: on_path_def)
  have "\<forall>m<n. key (bs[i := b] ! slot bs k m) \<noteq> NULL"
    using n(3) assms(2) by (metis nth_list_update nth_list_update_neq linorder_le_less_linear list_update_beyond)
  then show ?thesis using n by (auto simp: on_path_def)
qed

lemma slots_insert:
  assumes "slots_inv bs" and "i < length bs" and "\<not> live (bs ! i)" and "on_path bs k i"
    and "slot_map bs k = None" and "valid_key k" and "key b = k"
  shows "slots_inv (bs[i := b]) \<and> slot_map (bs[i := b]) = (slot_map bs)(k \<mapsto> proxy b)"
proof -
  have nn: "key b \<noteq> NULL"
    using assms(6,7) by (auto simp: valid_key_def)
  have "on_path (bs[i := b]) (key (bs[i := b] ! j)) j"
    if "j < length bs" "live (bs[i := b] ! j)" for j
  proof (cases "j = i")
    case True
    then show ?thesis using assms(2,4,7) nn by (auto intro: on_path_update)
  next
    case False
    then have "on_path bs (key (bs ! j)) j"
      using assms(1) that by (simp add: slots_inv_def)
    then show ?thesis using False nn by (auto intro: on_path_update)
  qed
  then show ?thesis
    using assms(1) slot_map_insert [of bs i k b] assms(2-7)
    by (auto simp: slots_inv_def pow2_len_def)
qed

lemma slots_erase:
  assumes "slots_inv bs" and "i < length bs" and "\<not> live b"
    and "key b = NULL \<Longrightarrow> key (bs ! i) = NULL"
  shows "slots_inv (bs[i := b]) \<and> slot_map (bs[i := b]) = (slot_map bs)(key (bs ! i) := None)"
proof -
  have "on_path (bs[i := b]) (key (bs[i := b] ! j)) j"
    if "j < length bs" "live (bs[i := b] ! j)" for j
  proof -
    have "j \<noteq> i"
      using that assms(2,3) by auto
    then have "on_path bs (key (bs ! j)) j"
      using assms(1) that by (simp add: slots_inv_def)
    then show ?thesis using \<open>j \<noteq> i\<close> assms(4) by (auto intro: on_path_update)
  qed
  then show ?thesis
    using assms(1) slot_map_erase [OF _ assms(2,3)] by (auto simp: slots_inv_def pow2_len_def)
qed

lemma slot_map_invalid [simp]: "slot_map bs NULL = None" "slot_map bs HASH_BUCKET_DELETED = None"
  by (simp_all add: slot_map_def)

text \<open>Rewriting the proxy field of a slot without a live key leaves the map alone.\<close>

lemma slots_touch:
  assumes "slots_inv bs" and "i < length bs" and "\<not> live (bs ! i)" and "key b = key (bs ! i)"
  shows "slots_inv (bs[i := b]) \<and> slot_map (bs[i := b]) = slot_map bs"
proof -
  have "slot_map bs (key (bs ! i)) = None"
    using assms(3) by (simp add: slot_map_def live_def)
  then show ?thesis
    using slots_erase [OF assms(1,2), of b] assms(3,4) by (auto simp: live_def fun_upd_idem)
qed

section \<open>What a probe says about the map\<close>

lemma find_post_Hit:
  assumes "slots_inv bs" and "find_post bs k (Hit i)" and "valid_key k"
  shows "i < length bs \<and> slot_map bs k = Some (proxy (bs ! i))"
proof -
  obtain q where q: "pow2_len q bs"
    using assms(1) by (auto simp: slots_inv_def)
  have "i < length bs" and "key (bs ! i) = k" and "keys_unique bs"
    using assms slot_less [OF q] by (auto simp: slots_inv_def)
  then show ?thesis
    using slot_map_hit [of bs i] assms(3) by simp
qed

lemma find_post_Full:
  assumes "slots_inv bs" and "find_post bs k Full"
  shows "slot_map bs k = None \<and> (\<forall>i<length bs. key (bs ! i) \<noteq> NULL)"
proof -
  obtain q where q: "pow2_len q bs"
    using assms(1) by (auto simp: slots_inv_def)
  have "key (bs ! i) \<noteq> k \<and> key (bs ! i) \<noteq> NULL" if "i < length bs" for i
    using slot_surj [OF q that] assms(2) unfolding find_post.simps path_clear_def by metis
  then show ?thesis by (auto simp: slot_map_None)
qed

lemma find_post_Vacant:
  assumes "slots_inv bs" and "find_post bs k (Vacant i)" and "valid_key k"
  shows "i < length bs \<and> \<not> live (bs ! i) \<and> on_path bs k i \<and> slot_map bs k = None"
proof -
  obtain q where q: "pow2_len q bs"
    using assms(1) by (auto simp: slots_inv_def)
  obtain n where n: "n < length bs" "path_clear bs k n" "key (bs ! slot bs k n) = NULL"
      "i = slot bs k n \<or> (\<exists>m<n. i = slot bs k m \<and> key (bs ! i) = HASH_BUCKET_DELETED)"
    using assms(2) by auto
  have nohit: "key (bs ! j) \<noteq> k" if "j < length bs" for j
  proof
    assume kj: "key (bs ! j) = k"
    then have "on_path bs k j"
      using assms(1,3) that by (auto simp: slots_inv_def live_def)
    then obtain m where m: "m < length bs" "slot bs k m = j"
        "\<forall>l<m. key (bs ! slot bs k l) \<noteq> NULL"
      by (auto simp: on_path_def)
    consider "m < n" | "m = n" | "n < m" by linarith
    then show False
      using n(2,3) m kj assms(3) by cases (auto simp: path_clear_def)
  qed
  have prefix: "on_path bs k (slot bs k m)" if "m \<le> n" for m
    using that n(1,2) unfolding on_path_def path_clear_def
    by (intro exI [of _ m]) auto
  have "on_path bs k i"
    using n(4) prefix by auto
  then show ?thesis
    using n nohit slot_less [OF q] by (auto simp: slot_map_None live_def)
qed

section \<open>Rehashing\<close>

definition no_tomb :: "hash_bucket list \<Rightarrow> bool" where
  "no_tomb nb \<longleftrightarrow> (\<forall>b\<in>set nb. key b \<noteq> HASH_BUCKET_DELETED)"

lemma find_snoc:
  "find P (xs @ [x]) = (case find P xs of None \<Rightarrow> if P x then Some x else None | Some y \<Rightarrow> Some y)"
  by (induction xs) auto

lemma slot_map_snoc:
  assumes "live b \<Longrightarrow> slot_map xs (key b) = None"
  shows "slot_map (xs @ [b]) = (if live b then (slot_map xs)(key b \<mapsto> proxy b) else slot_map xs)"
proof
  fix k
  show "slot_map (xs @ [b]) k =
      (if live b then (slot_map xs)(key b \<mapsto> proxy b) else slot_map xs) k"
    using assms by (auto simp: slot_map_def find_snoc live_def split: option.splits)
qed

lemma slot_map_take_None:
  assumes "keys_unique bs" and "n < length bs" and "live (bs ! n)"
  shows "slot_map (take n bs) (key (bs ! n)) = None"
  unfolding slot_map_None
proof (intro disjI2 allI impI)
  fix i assume "i < length (take n bs)"
  then have i: "i < n" "i < length bs" by simp_all
  have "key (bs ! n) \<noteq> key (bs ! i)"
    using keys_uniqueD [OF assms(1,2) i(2)] assms(3) i(1) unfolding live_def by blast
  then show "key (take n bs ! i) \<noteq> key (bs ! n)"
    using i(1) by simp
qed

lemma nlive_full:
  assumes "nlive nb < length nb"
  shows "\<exists>i<length nb. \<not> live (nb ! i)"
proof (rule ccontr)
  assume "\<not> ?thesis"
  then have "filter live nb = nb"
    by (auto simp: filter_id_conv in_set_conv_nth)
  then show False using assms by (simp add: nlive_def)
qed

lemma grow_place_ok:
  assumes q: "pow2_len q nb" and inv: "slots_inv nb" and nt: "no_tomb nb" and b: "live b"
    and new: "slot_map nb (key b) = None" and room: "nlive nb < length nb"
  shows "\<exists>nb'. grow_place (2 ^ q) b (hash_func (key b) AND (2 ^ q - 1)) 0 nb = Inr (Some nb')
       \<and> pow2_len q nb' \<and> slots_inv nb' \<and> no_tomb nb'
       \<and> slot_map nb' = (slot_map nb)(key b \<mapsto> proxy b) \<and> nlive nb' = Suc (nlive nb)"
proof -
  have pos: "0 < length nb"
    using q by (simp add: pow2_len_def)
  obtain r where r: "grow_place (2 ^ q) b (hash_func (key b) AND (2 ^ q - 1)) 0 nb = Inr r"
      "\<forall>nb'. r = Some nb' \<longrightarrow> (\<exists>m<length nb. nb' = nb[slot nb (key b) m := b]
          \<and> key (nb ! slot nb (key b) m) = NULL
          \<and> (\<forall>l<m. key (nb ! slot nb (key b) l) \<noteq> NULL))"
      "r = None \<longrightarrow> (\<forall>m<length nb. key (nb ! slot nb (key b) m) \<noteq> NULL)"
    using grow_place_gen [where step = 0 and b = b, OF q pos slot_start [OF q]] by auto
  have "r \<noteq> None"
  proof
    assume "r = None"
    then have "key (nb ! i) \<noteq> NULL" if "i < length nb" for i
      using r(3) slot_surj [OF q that] by metis
    then have "live (nb ! i)" if "i < length nb" for i
      using nt that by (auto simp: live_def valid_key_def no_tomb_def)
    then show False using nlive_full [OF room] by blast
  qed
  then obtain m where m: "m < length nb" "r = Some (nb[slot nb (key b) m := b])"
      "key (nb ! slot nb (key b) m) = NULL" "\<forall>l<m. key (nb ! slot nb (key b) l) \<noteq> NULL"
    using r(2) by auto
  have sl: "slot nb (key b) m < length nb"
    by (rule slot_less [OF q])
  have "on_path nb (key b) (slot nb (key b) m)"
    using m by (auto simp: on_path_def)
  moreover have "\<not> live (nb ! slot nb (key b) m)"
    using m by (simp add: live_def)
  ultimately show ?thesis
    using slots_insert [OF inv sl, of "key b" b] new b m r(1) q nt
      filter_list_update [OF sl, of live b] set_update_subset_insert [of nb _ b]
    by (fastforce simp: live_def nlive_def pow2_len_def no_tomb_def)
qed

lemma nlive_take_Suc:
  "n < length bs \<Longrightarrow> nlive (take (Suc n) bs) = nlive (take n bs) + (if live (bs ! n) then 1 else 0)"
  by (simp add: nlive_def take_Suc_conv_app_nth)

lemma nlive_le: "nlive bs \<le> length bs"
  by (simp add: nlive_def)

lemma grow_loop_ok:
  assumes bs: "pow2_len q bs" "keys_unique bs" and q: "Suc q \<le> 20"
    and "pow2_len (Suc q) nb" and "slots_inv nb" and "no_tomb nb"
    and "unat i = n" and "n \<le> length bs"
    and "slot_map nb = slot_map (take n bs)" and "nlive nb = nlive (take n bs)"
  shows "\<exists>nb'. grow_loop (2 ^ q) (2 ^ Suc q) bs i nb = Inr (Some nb')
       \<and> pow2_len (Suc q) nb' \<and> slots_inv nb' \<and> no_tomb nb'
       \<and> slot_map nb' = slot_map bs \<and> nlive nb' = nlive bs"
  using assms(4-)
proof (induction "length bs - n" arbitrary: n i nb rule: less_induct)
  case less
  have lt: "i < 2 ^ q \<longleftrightarrow> n < length bs"
    using less.prems(4) unat_bucket_count [OF bs(1)] by (simp add: word_less_nat_alt)
  note unfold = grow_loop.simps [of "2 ^ q" "2 ^ Suc q" bs i nb]
  show ?case
  proof (cases "n < length bs")
    case False
    then show ?thesis using less.prems lt by (simp add: unfold del: power_Suc)
  next
    case True
    have i1: "unat (i + 1) = Suc n"
      using unat_Suc_less [of i "2 ^ q"] True less.prems(4) unat_bucket_count [OF bs(1)] by simp
    have tk: "take (Suc n) bs = take n bs @ [bs ! n]"
      using True by (rule take_Suc_conv_app_nth)
    have new: "live (bs ! n) \<Longrightarrow> slot_map (take n bs) (key (bs ! n)) = None"
      by (rule slot_map_take_None [OF bs(2) True])
    show ?thesis
    proof (cases "live (bs ! n)")
      case False
      have "slot_map nb = slot_map (take (Suc n) bs)" "nlive nb = nlive (take (Suc n) bs)"
        using False less.prems(6,7) True slot_map_snoc [OF new] by (simp_all add: tk nlive_take_Suc nlive_def)
      then show ?thesis
        using less.hyps [of "Suc n" nb "i + 1"] less.prems True False i1 lt
        by (auto simp: unfold live_def valid_key_def simp del: power_Suc)
    next
      case live: True
      have "nlive nb < length nb"
        using less.prems(1,7) nlive_le [of "take n bs"] True bs(1) by (simp add: pow2_len_def)
      then obtain nb' where nb': "grow_place (2 ^ Suc q) (bs ! n)
            (hash_func (key (bs ! n)) AND (2 ^ Suc q - 1)) 0 nb = Inr (Some nb')"
          "pow2_len (Suc q) nb'" "slots_inv nb'" "no_tomb nb'"
          "slot_map nb' = (slot_map nb)(key (bs ! n) \<mapsto> proxy (bs ! n))"
          "nlive nb' = Suc (nlive nb)"
        using grow_place_ok [OF less.prems(1,2,3) live] new [OF live] less.prems(6) by auto
      have "slot_map nb' = slot_map (take (Suc n) bs)" "nlive nb' = nlive (take (Suc n) bs)"
        using nb'(5,6) live less.prems(6,7) True slot_map_snoc [OF new]
        by (simp_all add: tk nlive_def)
      then have "\<exists>nb''. grow_loop (2 ^ q) (2 ^ Suc q) bs (i + 1) nb' = Inr (Some nb'')
          \<and> pow2_len (Suc q) nb'' \<and> slots_inv nb'' \<and> no_tomb nb''
          \<and> slot_map nb'' = slot_map bs \<and> nlive nb'' = nlive bs"
        using less.hyps [of "Suc n" nb' "i + 1"] nb'(2-4) i1 True by (simp del: power_Suc)
      then show ?thesis
        using nb'(1) live True lt less.prems(4)
        by (auto simp: unfold live_def valid_key_def simp del: power_Suc)
    qed
  qed
qed

lemma slots_inv_empty:
  assumes "q \<le> 20" and "length nb = 2 ^ q" and "set nb \<subseteq> {zero_bucket}"
  shows "pow2_len q nb \<and> slots_inv nb \<and> no_tomb nb \<and> slot_map nb = Map.empty \<and> nlive nb = 0"
proof -
  have z: "nb ! i = zero_bucket" if "i < length nb" for i
    using assms(3) nth_mem [OF that] by auto
  have "\<not> live zero_bucket" "key zero_bucket = NULL"
    by (simp_all add: live_def zero_bucket_def)
  moreover have "slot_map nb k = None" for k
    using z by (auto simp: slot_map_None zero_bucket_def)
  ultimately show ?thesis
    using assms z
    by (auto simp: pow2_len_def slots_inv_def keys_unique_def no_tomb_def nlive_def
        filter_empty_conv HASH_BUCKET_DELETED_def fun_eq_iff)
qed

section \<open>The table, its heap, and the map they stand for\<close>

definition lookup :: "'p world \<Rightarrow> ptr \<rightharpoonup> ptr" where
  "lookup w = (case buckets (table w) of None \<Rightarrow> Map.empty | Some bs \<Rightarrow> slot_map bs)"

definition table_inv :: "hash_table \<Rightarrow> bool" where
  "table_inv t \<longleftrightarrow>
     (case buckets t of
        None \<Rightarrow> count t = 0
      | Some bs \<Rightarrow> slots_inv bs \<and> bucket_count t = of_nat (length bs) \<and> count t = of_nat (nlive bs))"

definition heap_inv :: "(ptr \<rightharpoonup> ptr) \<Rightarrow> (ptr \<rightharpoonup> 'a) \<Rightarrow> bool" where
  "heap_inv m h \<longleftrightarrow>
     (\<forall>k p. m k = Some p \<longrightarrow> p \<noteq> NULL \<and> h p \<noteq> None) \<and> inj_on m (dom m)
     \<and> (\<forall>p. h p \<noteq> None \<longrightarrow> p \<in> ran m)"

definition world_inv :: "'p world \<Rightarrow> bool" where
  "world_inv w \<longleftrightarrow> table_inv (table w) \<and> heap_inv (lookup w) (heap w)"

text \<open>A step that may reorganise the array but leaves the map, the heap and the lock alone.\<close>

definition quiet :: "'p world \<Rightarrow> 'p world \<Rightarrow> bool" where
  "quiet w w' \<longleftrightarrow> world_inv w' \<and> lookup w' = lookup w \<and> heap w' = heap w
     \<and> lock (table w') = lock (table w) \<and> os_script w' = os_script w"

lemma quiet_refl: "world_inv w \<Longrightarrow> quiet w w"
  by (simp add: quiet_def)

lemma quiet_trans: "quiet w w1 \<Longrightarrow> quiet w1 w2 \<Longrightarrow> quiet w w2"
  by (simp add: quiet_def)

text \<open>Changes that cannot touch the table or the heap are quiet.\<close>

lemma quiet_frame:
  "world_inv w \<Longrightarrow> table w' = table w \<Longrightarrow> heap w' = heap w \<Longrightarrow>
     os_script w' = os_script w \<Longrightarrow> quiet w w'"
  by (simp add: quiet_def world_inv_def lookup_def)

lemma c_calloc_frame:
  assumes "c_calloc w = (p, w1)"
  shows "table w1 = table w \<and> heap w1 = heap w \<and> os_script w1 = os_script w
       \<and> (p \<noteq> NULL \<longrightarrow> heap w p = None)"
  using assms by (auto simp: c_calloc_def split: list.splits if_splits)

lemma c_free_frame [simp]:
  "table (c_free w) = table w" "heap (c_free w) = heap w" "os_script (c_free w) = os_script w"
  "alloc_script (c_free w) = alloc_script w"
  by (simp_all add: c_free_def split: list.splits)

lemma table_inv_Some:
  assumes "table_inv t" and "buckets t = Some bs"
  shows "\<exists>q. pow2_len q bs \<and> slots_inv bs \<and> bucket_count t = 2 ^ q \<and> count t = of_nat (nlive bs)"
proof -
  obtain q where "pow2_len q bs"
    using assms by (auto simp: table_inv_def slots_inv_def)
  then show ?thesis
    using assms by (auto simp: table_inv_def pow2_len_def)
qed

lemma lookup_Some: "buckets (table w) = Some bs \<Longrightarrow> lookup w = slot_map bs"
  by (simp add: lookup_def)

subsection \<open>Growing\<close>

lemma HASH_BUCKETS_MAX_pow2: "HASH_BUCKETS_MAX = 2 ^ 20"
  by (simp add: HASH_BUCKETS_MAX_def)

lemma grow_count:
  assumes "pow2_len q bs"
  shows "(if (2 ^ q :: u32) * 2 > HASH_BUCKETS_MAX then HASH_BUCKETS_MAX else 2 ^ q * 2) =
           (if q = 20 then HASH_BUCKETS_MAX else 2 ^ Suc q)"
proof -
  have q: "q \<le> 20"
    using assms by (simp add: pow2_len_def)
  show "(if (2 ^ q :: u32) * 2 > HASH_BUCKETS_MAX then HASH_BUCKETS_MAX else 2 ^ q * 2) =
           (if q = 20 then HASH_BUCKETS_MAX else 2 ^ Suc q)"
  proof (cases "q = 20")
    case True
    then show ?thesis by (simp add: HASH_BUCKETS_MAX_def)
  next
    case False
    then have "Suc q \<le> 20"
      using q by simp
    then have "unat (2 ^ Suc q :: u32) \<le> unat (2 ^ 20 :: u32)"
      using unat_pow2 [of "Suc q"] unat_pow2 [of 20] power_increasing [of "Suc q" 20 "2 :: nat"]
      by (simp del: power_Suc)
    then have "\<not> (2 ^ q :: u32) * 2 > HASH_BUCKETS_MAX"
      by (simp add: word_less_nat_alt HASH_BUCKETS_MAX_pow2 mult.commute)
    then show ?thesis using False by (simp add: mult.commute)
  qed
qed

lemma grow_bigger:
  assumes "pow2_len q bs" and "q \<noteq> 20"
  shows "\<not> (2 ^ Suc q :: u32) \<le> 2 ^ q"
  using assms unat_pow2 [of "Suc q"] unat_pow2 [of q]
  by (simp add: word_le_nat_alt pow2_len_def)

lemma hash_table_grow_full:
  assumes "pow2_len 20 bs" and "buckets (table w) = Some bs" and "bucket_count (table w) = 2 ^ 20"
  shows "hash_table_grow w = Inr (-1, w\<lparr>errno := ENOMEM\<rparr>)"
  using assms by (simp add: hash_table_grow_def HASH_BUCKETS_MAX_def)

lemma hash_table_grow_ok:
  assumes inv: "world_inv w" and bs: "buckets (table w) = Some bs"
  shows "\<exists>r w'. hash_table_grow w = Inr (r, w') \<and> quiet w w' \<and>
           (r = -1 \<and> table w' = table w
              \<and> (bucket_count (table w) = HASH_BUCKETS_MAX \<or> fst (c_calloc w) = NULL) \<or>
            r = 0 \<and> alloc_script w' = alloc_script (snd (c_calloc w)) \<and>
              (\<exists>bs'. buckets (table w') = Some bs' \<and> no_tomb bs' \<and> nlive bs' = nlive bs
                      \<and> length bs' = 2 * length bs))"
proof -
  obtain q where q: "pow2_len q bs" "slots_inv bs" "bucket_count (table w) = 2 ^ q"
      "count (table w) = of_nat (nlive bs)"
    using inv bs table_inv_Some by (auto simp: world_inv_def)
  show ?thesis
  proof (cases "q = 20")
    case True
    then show ?thesis
      using hash_table_grow_full [of bs w] q bs quiet_frame [OF inv]
      by (auto simp: HASH_BUCKETS_MAX_pow2)
  next
    case False
    then have Sq: "Suc q \<le> 20"
      using q(1) by (simp add: pow2_len_def)
    obtain p w1 where al: "c_calloc w = (p, w1)"
      by (cases "c_calloc w")
    note fr = c_calloc_frame [OF al]
    let ?e = "replicate (unat (2 ^ Suc q :: u32)) zero_bucket"
    have e: "pow2_len (Suc q) ?e \<and> slots_inv ?e \<and> no_tomb ?e \<and> slot_map ?e = Map.empty \<and> nlive ?e = 0"
      by (rule slots_inv_empty) (use Sq unat_pow2 [of "Suc q"] in \<open>auto simp del: power_Suc\<close>)
    moreover have "slot_map [] = Map.empty"
      by (simp add: slot_map_def fun_eq_iff)
    ultimately obtain nb where nb: "grow_loop (2 ^ q) (2 ^ Suc q) bs 0 ?e = Inr (Some nb)"
        "pow2_len (Suc q) nb" "slots_inv nb" "no_tomb nb" "slot_map nb = slot_map bs"
        "nlive nb = nlive bs"
      using grow_loop_ok [of q bs ?e 0 0] q(1,2) Sq by (auto simp: nlive_def slots_inv_def)
    note step = hash_table_grow_def [of w, unfolded q(3) grow_count [OF q(1)] Let_def al]
    show ?thesis
    proof (cases "p = NULL")
      case True
      then have "hash_table_grow w = Inr (-1, w1)"
        using step False grow_bigger [OF q(1) False] by (simp del: power_Suc)
      then show ?thesis using fr quiet_frame [OF inv, of w1] al True by auto
    next
      case ok: False
      let ?w = "(c_free w1)\<lparr>table := (table w1)\<lparr>buckets := Some nb, bucket_count := 2 ^ Suc q\<rparr>\<rparr>"
      have "hash_table_grow w = Inr (0, ?w)"
        using step False ok grow_bigger [OF q(1) False] nb(1) fr bs by (simp del: power_Suc)
      moreover have "quiet w ?w"
      proof -
        have "table_inv (table ?w)"
          using nb(2,3,6) q(4) fr by (simp add: table_inv_def pow2_len_def)
        moreover have "lookup ?w = lookup w"
          using bs nb(5) by (simp add: lookup_def)
        ultimately show ?thesis
          using inv fr by (simp add: quiet_def world_inv_def)
      qed
      moreover have "length nb = 2 * length bs"
        using nb(2) q(1) by (simp add: pow2_len_def)
      ultimately show ?thesis using nb al by auto
    qed
  qed
qed

lemma hash_table_grow_cases:
  assumes "world_inv w" and "buckets (table w) = Some bs"
  obtains r w' where "hash_table_grow w = Inr (r, w')" "quiet w w'"
    "r = 0 \<Longrightarrow> buckets (table w') \<noteq> None"
  using hash_table_grow_ok [OF assms] by auto

subsection \<open>Searching\<close>

lemma find_or_create_loop_search:
  assumes "world_inv w" and "buckets (table w) \<noteq> None" and "valid_key k"
  shows "\<exists>w'. find_or_create_loop ops k False w =
             Inr (case lookup w k of None \<Rightarrow> NULL | Some p \<Rightarrow> p, w') \<and> quiet w w'"
  using assms
proof (induction ops k False w rule: find_or_create_loop.induct)
  case (1 ops k w)
  obtain bs where bs: "buckets (table w) = Some bs"
    using "1.prems"(2) by auto
  obtain q where q: "pow2_len q bs" "slots_inv bs" "bucket_count (table w) = 2 ^ q"
    using "1.prems"(1) bs table_inv_Some by (auto simp: world_inv_def)
  obtain r where r: "find_probe bs (2 ^ q) k (hash_func k AND (2 ^ q - 1)) 0 None = Inr r"
      "find_post bs k r"
    using find_probe_post [OF q(1)] by blast
  note unfold = find_or_create_loop.simps [of ops k False w]
  show ?case
  proof (cases r)
    case (Hit i)
    then show ?thesis
      using find_post_Hit [OF q(2), of k i] r "1.prems"(1,3) bs q(3) quiet_refl [OF "1.prems"(1)]
      by (simp add: unfold lookup_Some)
  next
    case (Vacant i)
    then show ?thesis
      using find_post_Vacant [OF q(2), of k i] r "1.prems"(1,3) bs q(3) quiet_refl [OF "1.prems"(1)]
      by (simp add: unfold lookup_Some)
  next
    case Full
    then have none: "lookup w k = None"
      using find_post_Full [OF q(2), of k] r by (simp add: lookup_Some [OF bs])
    obtain g w1 where g: "hash_table_grow w = Inr (g, w1)" "quiet w w1"
        "g = 0 \<Longrightarrow> buckets (table w1) \<noteq> None"
      using hash_table_grow_cases [OF "1.prems"(1) bs] by metis
    show ?thesis
    proof (cases "g = 0")
      case True
      have "\<exists>w'. find_or_create_loop ops k False w1 =
              Inr (case lookup w1 k of None \<Rightarrow> NULL | Some p \<Rightarrow> p, w') \<and> quiet w1 w'"
        by (rule "1.hyps"(2) [of bs r])
          (use bs r q(3) Full g True "1.prems"(3) in \<open>auto simp: quiet_def\<close>)
      then show ?thesis
        using g none quiet_trans [OF g(2)] r bs q(3) Full True
        by (auto simp: unfold quiet_def)
    next
      case False
      then show ?thesis
        using g none r bs q(3) Full by (auto simp: unfold)
    qed
  qed
qed

lemma world_inv_first_array:
  assumes inv: "world_inv w" and none: "buckets (table w) = None"
    and fr: "table w1 = table w" "heap w1 = heap w" "os_script w1 = os_script w"
  shows "quiet w (w1\<lparr>table := (table w1)
           \<lparr>buckets := Some (replicate (unat HASH_BUCKETS_INITIAL) zero_bucket),
            bucket_count := HASH_BUCKETS_INITIAL\<rparr>\<rparr>)"
proof -
  let ?e = "replicate (unat HASH_BUCKETS_INITIAL) zero_bucket"
  have "slots_inv ?e \<and> slot_map ?e = Map.empty \<and> nlive ?e = 0"
    using slots_inv_empty [of 10 ?e] by (auto simp: HASH_BUCKETS_INITIAL_def)
  then show ?thesis
    using inv none fr
    by (simp add: quiet_def world_inv_def lookup_def table_inv_def HASH_BUCKETS_INITIAL_def)
qed

theorem find_or_create_search:
  assumes inv: "world_inv w" and k: "valid_key k"
  shows "\<exists>w'. hash_table_find_or_create ops k False w =
             Inr (case lookup w k of None \<Rightarrow> NULL | Some p \<Rightarrow> p, w') \<and> quiet w w'"
proof (cases "buckets (table w)")
  case (Some bs)
  then show ?thesis
    using find_or_create_loop_search [OF inv _ k, of ops] by (simp add: hash_table_find_or_create_def)
next
  case None
  obtain p w1 where al: "c_calloc w = (p, w1)"
    by (cases "c_calloc w")
  note fr = c_calloc_frame [OF al]
  have lk: "lookup w k = None"
    by (simp add: lookup_def None)
  show ?thesis
  proof (cases "p = NULL")
    case True
    have "quiet w (w1\<lparr>table := (table w1)\<lparr>bucket_count := HASH_BUCKETS_INITIAL\<rparr>\<rparr>)"
      using inv fr None by (simp add: quiet_def world_inv_def lookup_def table_inv_def)
    then show ?thesis
      using True lk None al by (simp add: hash_table_find_or_create_def)
  next
    case False
    let ?w = "w1\<lparr>table := (table w1)
                  \<lparr>buckets := Some (replicate (unat HASH_BUCKETS_INITIAL) zero_bucket),
                   bucket_count := HASH_BUCKETS_INITIAL\<rparr>\<rparr>"
    have q: "quiet w ?w"
      using world_inv_first_array [OF inv None] fr by blast
    then obtain w' where "find_or_create_loop ops k False ?w =
        Inr (case lookup ?w k of None \<Rightarrow> NULL | Some p \<Rightarrow> p, w')" "quiet ?w w'"
      using find_or_create_loop_search [of ?w k ops] k by (auto simp: quiet_def)
    moreover have "lookup ?w k = None"
      using q lk by (simp add: quiet_def)
    ultimately show ?thesis
      using False lk None al quiet_trans [OF q] by (simp add: hash_table_find_or_create_def)
  qed
qed

subsection \<open>Acquiring a proxy\<close>

definition init_value :: "('p, 'o) proxy_ops_scheme \<Rightarrow> 'p \<Rightarrow> bool" where
  "init_value ops a \<longleftrightarrow> (\<exists>s s'. px_init ops s (px_zero ops) = (0, a, s'))"

definition counts_ok :: "'p world \<Rightarrow> bool" where
  "counts_ok w \<longleftrightarrow> (\<forall>p px. heap w p = Some px \<longrightarrow> 0 \<le> use_count px \<and> use_count px < INT_MAX)"

text \<open>
  What \<open>hash_table_find_or_create\<close> with \<open>increment_use_count\<close> may do: fail and leave everything as
  it was, count one more user of the proxy of the key, or enter a fresh proxy with one user.
\<close>

definition acquire_fails :: "'p world \<Rightarrow> ptr \<Rightarrow> 'p world \<Rightarrow> bool" where
  "acquire_fails w p w' \<longleftrightarrow> p = NULL \<and> lookup w' = lookup w \<and> heap w' = heap w"

definition acquire_shares :: "'p world \<Rightarrow> ptr \<Rightarrow> ptr \<Rightarrow> 'p world \<Rightarrow> bool" where
  "acquire_shares w k p w' \<longleftrightarrow>
     lookup w k = Some p \<and> lookup w' = lookup w \<and>
     (\<exists>px. heap w p = Some px \<and> heap w' = (heap w)(p \<mapsto> px\<lparr>use_count := use_count px + 1\<rparr>))"

definition acquire_creates ::
  "('p, 'o) proxy_ops_scheme \<Rightarrow> 'p world \<Rightarrow> ptr \<Rightarrow> ptr \<Rightarrow> 'p world \<Rightarrow> bool" where
  "acquire_creates ops w k p w' \<longleftrightarrow>
     lookup w k = None \<and> p \<noteq> NULL \<and> heap w p = None \<and> lookup w' = (lookup w)(k \<mapsto> p) \<and>
     (\<exists>a. init_value ops a \<and> heap w' = (heap w)(p \<mapsto> \<lparr>use_count = 1, atomic = a\<rparr>))"

definition acquire_post ::
  "('p, 'o) proxy_ops_scheme \<Rightarrow> 'p world \<Rightarrow> ptr \<Rightarrow> ptr \<Rightarrow> 'p world \<Rightarrow> bool" where
  "acquire_post ops w k p w' \<longleftrightarrow>
     world_inv w' \<and> lock (table w') = lock (table w) \<and>
     (os_script w' = os_script w \<or>
      os_script w' = snd (snd (px_init ops (os_script w) (px_zero ops)))) \<and>
     (acquire_fails w p w' \<or> acquire_shares w k p w' \<or> acquire_creates ops w k p w')"

lemmas acquire_defs =
  acquire_post_def acquire_fails_def acquire_shares_def acquire_creates_def

lemma acquire_quiet: "quiet w w1 \<Longrightarrow> acquire_post ops w1 k p w' \<Longrightarrow> acquire_post ops w k p w'"
  by (simp add: quiet_def acquire_defs)

lemma acquire_NULL: "quiet w w1 \<Longrightarrow> acquire_post ops w k NULL w1"
  by (simp add: quiet_def acquire_defs)

lemma heap_inv_lookup: "heap_inv m h \<Longrightarrow> m k = Some p \<Longrightarrow> p \<noteq> NULL \<and> (\<exists>x. h p = Some x)"
  unfolding heap_inv_def by blast

lemma heap_inv_update: "heap_inv m h \<Longrightarrow> h p \<noteq> None \<Longrightarrow> heap_inv m (h(p \<mapsto> x))"
  by (auto simp: heap_inv_def)

lemma heap_inv_insert:
  assumes "heap_inv m h" and "m k = None" and "h p = None" and "p \<noteq> NULL"
  shows "heap_inv (m(k \<mapsto> p)) (h(p \<mapsto> x))"
proof -
  have "inj_on (m(k \<mapsto> p)) (dom (m(k \<mapsto> p)))"
    using assms by (fastforce simp: heap_inv_def inj_on_def)
  then show ?thesis
    using assms by (auto simp: heap_inv_def)
qed

lemma heap_inv_delete:
  assumes "heap_inv m h" and "m k = Some p"
  shows "heap_inv (m(k := None)) (h(p := None))"
proof -
  have other: "m k' \<noteq> Some p" if "k' \<noteq> k" for k'
    using assms that unfolding heap_inv_def inj_on_def by (metis domI)
  have "inj_on (m(k := None)) (dom (m(k := None)))"
    using assms by (auto simp: heap_inv_def inj_on_def dom_def)
  moreover have "q \<in> ran (m(k := None))" if hq: "h q \<noteq> None" "q \<noteq> p" for q
  proof -
    obtain k' where "m k' = Some q"
      using assms(1) hq(1) unfolding heap_inv_def ran_def by blast
    then show ?thesis
      using assms(2) hq(2) by (auto simp: ran_def intro!: exI [of _ k'])
  qed
  ultimately show ?thesis
    using assms other by (auto simp: heap_inv_def)
qed

text \<open>A failed creation leaves a null proxy pointer in the vacant slot, which nobody reads.\<close>

lemma vacant_touched:
  fixes w w2 :: "'p world"
  assumes inv: "world_inv w" and bs: "buckets (table w) = Some bs" and k: "valid_key k"
    and vac: "find_post bs k (Vacant i)"
    and w2: "table w2 = (table w)\<lparr>buckets := Some (bs[i := (bs ! i)\<lparr>proxy := NULL\<rparr>])\<rparr>" "heap w2 = heap w"
      "os_script w2 = os_script w \<or> os_script w2 = snd (snd (px_init ops (os_script w) (px_zero ops)))"
  shows "acquire_post ops w k NULL w2"
proof -
  let ?b = "(bs ! i)\<lparr>proxy := NULL\<rparr>"
  have s: "slots_inv bs" and cnt: "bucket_count (table w) = of_nat (length bs)"
      "count (table w) = of_nat (nlive bs)"
    using inv bs by (auto simp: world_inv_def table_inv_def)
  note v = find_post_Vacant [OF s vac k]
  have "slots_inv (bs[i := ?b]) \<and> slot_map (bs[i := ?b]) = slot_map bs"
    using slots_touch [OF s, of i ?b] v by simp
  moreover have "nlive (bs[i := ?b]) = nlive bs"
    using v by (simp add: nlive_def live_def filter_update_same)
  ultimately show ?thesis
    using w2 inv bs cnt
    by (simp add: acquire_post_def acquire_fails_def world_inv_def table_inv_def lookup_def)
qed

lemma create_at_post:
  assumes inv: "world_inv w" and bs: "buckets (table w) = Some bs" and k: "valid_key k"
    and vac: "find_post bs k (Vacant i)" and res: "create_at ops k i (bs ! i) w = (p, w')"
  shows "acquire_post ops w k p w'"
proof -
  have s: "slots_inv bs" and cnt: "bucket_count (table w) = of_nat (length bs)"
      "count (table w) = of_nat (nlive bs)"
    using inv bs by (auto simp: world_inv_def table_inv_def)
  note v = find_post_Vacant [OF s vac k]
  obtain p1 w1 where al: "c_calloc w = (p1, w1)"
    by (cases "c_calloc w")
  note fr = c_calloc_frame [OF al]
  have bs1: "buckets (table w1) = Some bs"
    using fr bs by simp
  obtain ret a os where ini: "px_init ops (os_script w1) (px_zero ops) = (ret, a, os)"
    by (metis prod_cases3)
  note touch = vacant_touched [OF inv bs k vac, of w' ops]
  consider "p1 = NULL" | "p1 \<noteq> NULL" "ret \<noteq> 0" | "p1 \<noteq> NULL" "ret = 0"
    by blast
  then show ?thesis
  proof cases
    case 1
    then show ?thesis
      using res al touch fr by (auto simp: create_at_def set_bucket_def bs)
  next
    case 2
    then show ?thesis
      using res al ini touch fr by (auto simp: create_at_def set_bucket_def bs)
  next
    case 3
    let ?b = "(bs ! i)\<lparr>proxy := p1, key := k\<rparr>"
    have ins: "slots_inv (bs[i := ?b]) \<and> slot_map (bs[i := ?b]) = (slot_map bs)(k \<mapsto> p1)"
      using slots_insert [OF s, of i k ?b] v k by simp
    have nl: "nlive (bs[i := ?b]) = Suc (nlive bs)"
      using filter_list_update [of i bs live ?b] v k by (simp add: nlive_def live_def)
    have w': "p = p1" "table w' = (table w)\<lparr>buckets := Some (bs[i := ?b]), count := count (table w) + 1\<rparr>"
        "heap w' = (heap w)(p1 \<mapsto> \<lparr>use_count = 1, atomic = a\<rparr>)"
        "os_script w' = snd (snd (px_init ops (os_script w) (px_zero ops)))"
      using res al ini 3 fr bs by (auto simp: create_at_def set_bucket_def Let_def)
    have "lookup w' = (lookup w)(k \<mapsto> p1)"
      using ins w' bs by (simp add: lookup_def)
    moreover have "table_inv (table w')"
      using ins nl w' cnt bs by (simp add: table_inv_def)
    moreover have "lookup w k = None"
      using v by (simp add: lookup_def bs)
    moreover have "heap_inv ((lookup w)(k \<mapsto> p1)) (heap w')"
      using inv 3(1) fr \<open>lookup w k = None\<close> unfolding w'
      by (intro heap_inv_insert) (auto simp: world_inv_def)
    moreover have "init_value ops a"
      using ini 3(2) by (auto simp: init_value_def)
    ultimately show ?thesis
      using w' 3 fr by (auto simp: acquire_post_def acquire_creates_def world_inv_def)
  qed
qed

lemma use_found_post:
  assumes inv: "world_inv w" and k: "lookup w k = Some p" and ok: "counts_ok w"
  shows "\<exists>w'. use_found p w = Inr (p, w') \<and> acquire_post ops w k p w'"
proof -
  obtain px where px: "heap w p = Some px"
    using inv k heap_inv_lookup by (metis world_inv_def)
  let ?w = "w\<lparr>heap := (heap w)(p \<mapsto> px\<lparr>use_count := use_count px + 1\<rparr>)\<rparr>"
  have "0 \<le> use_count px" and "use_count px < INT_MAX"
    using ok px unfolding counts_ok_def by blast+
  then have "use_found p w = Inr (p, ?w)"
    using px by (simp add: use_found_def c_int_def INT_MIN_def)
  moreover have "heap_inv (lookup w) (heap ?w)"
    using inv px by (simp add: world_inv_def heap_inv_update)
  moreover have "lookup ?w = lookup w"
    by (simp add: lookup_def)
  ultimately show ?thesis
    using inv px k by (auto simp: acquire_post_def acquire_shares_def world_inv_def)
qed

lemma counts_ok_quiet: "quiet w w1 \<Longrightarrow> counts_ok w1 = counts_ok w"
  by (simp add: quiet_def counts_ok_def)

lemma find_or_create_loop_acquire:
  assumes "world_inv w" and "buckets (table w) \<noteq> None" and "valid_key k" and "counts_ok w"
  shows "\<exists>p w'. find_or_create_loop ops k True w = Inr (p, w') \<and> acquire_post ops w k p w'"
  using assms
proof (induction ops k True w rule: find_or_create_loop.induct)
  case (1 ops k w)
  obtain bs where bs: "buckets (table w) = Some bs"
    using "1.prems"(2) by auto
  obtain q where q: "pow2_len q bs" "slots_inv bs" "bucket_count (table w) = 2 ^ q"
    using "1.prems"(1) bs table_inv_Some by (auto simp: world_inv_def)
  obtain g w1 where g: "hash_table_grow w = Inr (g, w1)" "quiet w w1"
      "g = 0 \<Longrightarrow> buckets (table w1) \<noteq> None"
    using hash_table_grow_cases [OF "1.prems"(1) bs] by metis
  have inv1: "world_inv w1" "counts_ok w1"
    using g(2) "1.prems"(4) counts_ok_quiet [OF g(2)] by (simp_all add: quiet_def)
  note unfold = find_or_create_loop.simps [of ops k True w]
  have failed: "\<exists>p w'. Inr (NULL, w1) = (Inr (p, w') :: (ptr \<times> 'a world) res) \<and> acquire_post ops w k p w'"
    using acquire_NULL [OF g(2)] by auto
  show ?case
  proof (cases "count (table w) \<ge> drop_bit 2 (bucket_count (table w)) * 3")
    case True
    then show ?thesis
      using "1.hyps"(1) [OF _ g(1)] g(1,3) inv1 "1.prems"(3) failed acquire_quiet [OF g(2)]
      by (cases "g = 0") (auto simp: unfold)
  next
    case low: False
    obtain r where r: "find_probe bs (2 ^ q) k (hash_func k AND (2 ^ q - 1)) 0 None = Inr r"
        "find_post bs k r"
      using find_probe_post [OF q(1)] by blast
    show ?thesis
    proof (cases r)
      case (Hit i)
      then have "lookup w k = Some (proxy (bs ! i))"
        using find_post_Hit [OF q(2), of k i] r "1.prems"(3) by (simp add: lookup_Some [OF bs])
      then show ?thesis
        using use_found_post [OF "1.prems"(1) _ "1.prems"(4), of k _ ops] r bs q(3) low Hit
        by (auto simp: unfold)
    next
      case (Vacant i)
      obtain p w' where c: "create_at ops k i (bs ! i) w = (p, w')"
        by (cases "create_at ops k i (bs ! i) w")
      have "acquire_post ops w k p w'"
        using create_at_post [OF "1.prems"(1) bs "1.prems"(3) _ c] r Vacant by simp
      then show ?thesis
        using c r bs q(3) low Vacant by (auto simp: unfold)
    next
      case Full
      then show ?thesis
        using "1.hyps"(2) [OF _ bs _ _ g(1), of Full 0] g(1,3) inv1 "1.prems"(3) failed
          acquire_quiet [OF g(2)] r bs q(3) low
        by (cases "g = 0") (auto simp: unfold)
    qed
  qed
qed

theorem find_or_create_acquire:
  assumes inv: "world_inv w" and k: "valid_key k" and ok: "counts_ok w"
  shows "\<exists>p w'. hash_table_find_or_create ops k True w = Inr (p, w') \<and> acquire_post ops w k p w'"
proof (cases "buckets (table w)")
  case (Some bs)
  then show ?thesis
    using find_or_create_loop_acquire [OF inv _ k ok, of ops]
    by (simp add: hash_table_find_or_create_def)
next
  case None
  obtain p w1 where al: "c_calloc w = (p, w1)"
    by (cases "c_calloc w")
  note fr = c_calloc_frame [OF al]
  show ?thesis
  proof (cases "p = NULL")
    case True
    have "quiet w (w1\<lparr>table := (table w1)\<lparr>bucket_count := HASH_BUCKETS_INITIAL\<rparr>\<rparr>)"
      using inv fr None by (simp add: quiet_def world_inv_def lookup_def table_inv_def)
    then show ?thesis
      using True None al acquire_NULL by (auto simp: hash_table_find_or_create_def)
  next
    case False
    let ?w = "w1\<lparr>table := (table w1)
                  \<lparr>buckets := Some (replicate (unat HASH_BUCKETS_INITIAL) zero_bucket),
                   bucket_count := HASH_BUCKETS_INITIAL\<rparr>\<rparr>"
    have q: "quiet w ?w"
      using world_inv_first_array [OF inv None] fr by blast
    then obtain p' w' where "find_or_create_loop ops k True ?w = Inr (p', w')"
        "acquire_post ops ?w k p' w'"
      using find_or_create_loop_acquire [of ?w k ops] k counts_ok_quiet [OF q] ok
      by (auto simp: quiet_def)
    then show ?thesis
      using False None al acquire_quiet [OF q] by (auto simp: hash_table_find_or_create_def)
  qed
qed

subsection \<open>Removing a proxy\<close>

definition release_post ::
  "('p, 'o) proxy_ops_scheme \<Rightarrow> 'p world \<Rightarrow> ptr \<Rightarrow> ptr \<Rightarrow> 'p world \<Rightarrow> bool" where
  "release_post ops w k p w' \<longleftrightarrow>
     (\<exists>a. os_script w' = snd (px_destroy ops (os_script w) a)) \<and>
     world_inv w' \<and> lock (table w') = lock (table w) \<and>
     lookup w' = (lookup w)(k := None) \<and> heap w' = (heap w)(p := None)"

lemma slot_of_lookup:
  assumes "world_inv w" and "lookup w k = Some p"
  obtains bs q i where "buckets (table w) = Some bs" "pow2_len q bs" "slots_inv bs"
    "bucket_count (table w) = 2 ^ q" "valid_key k" "i < length bs" "key (bs ! i) = k"
    "proxy (bs ! i) = p"
    "remove_probe bs (2 ^ q) k (hash_func k AND (2 ^ q - 1)) 0 = Inr (Some i)"
proof -
  obtain bs where bs: "buckets (table w) = Some bs"
    using assms(2) by (auto simp: lookup_def split: option.splits)
  obtain q where q: "pow2_len q bs" "slots_inv bs" "bucket_count (table w) = 2 ^ q"
    using assms(1) bs table_inv_Some by (auto simp: world_inv_def)
  have ku: "keys_unique bs"
    using q(2) by (simp add: slots_inv_def)
  then obtain j where j: "valid_key k" "j < length bs" "key (bs ! j) = k" "proxy (bs ! j) = p"
    using assms(2) by (auto simp: lookup_Some [OF bs] slot_map_Some)
  obtain r where r: "remove_probe bs (2 ^ q) k (hash_func k AND (2 ^ q - 1)) 0 = Inr r"
      "\<forall>i. r = Some i \<longrightarrow> i < length bs \<and> key (bs ! i) = k"
      "r = None \<longrightarrow> (\<forall>i<length bs. key (bs ! i) \<noteq> k)"
    using remove_probe_post [OF q(1)] by blast
  then obtain i where "r = Some i"
    using j by (cases r) auto
  moreover from this have "i = j"
    using r(2) j keys_uniqueD [OF ku j(2), of i] by simp
  ultimately show thesis
    using that [OF bs q(1,2,3) j] r(1) by simp
qed

theorem remove_item_removes:
  assumes inv: "world_inv w" and k: "lookup w k = Some p" and px: "heap w p = Some px"
    and uc: "use_count px = 0" and des: "fst (px_destroy ops (os_script w) (atomic px)) = 0"
  shows "\<exists>w'. hash_table_remove_item ops k w = Inr w' \<and> release_post ops w k p w'"
proof -
  obtain bs q i where s: "buckets (table w) = Some bs" "pow2_len q bs" "slots_inv bs"
      "bucket_count (table w) = 2 ^ q" "valid_key k" "i < length bs" "key (bs ! i) = k"
      "proxy (bs ! i) = p"
      "remove_probe bs (2 ^ q) k (hash_func k AND (2 ^ q - 1)) 0 = Inr (Some i)"
    using slot_of_lookup [OF inv k] by metis
  obtain os where os: "px_destroy ops (os_script w) (atomic px) = (0, os)"
    using des by (metis prod.collapse)
  let ?b = "\<lparr>proxy = NULL, key = HASH_BUCKET_DELETED\<rparr>"
  let ?w1 = "c_free (w\<lparr>os_script := os, heap := (heap w)(p := None)\<rparr>)"
  let ?t = "(table w)\<lparr>buckets := Some (bs[i := ?b]), count := count (table w) - 1\<rparr>"
  obtain w' where w': "hash_table_remove_item ops k w = Inr w'" "table w' = ?t"
      "heap w' = (heap w)(p := None)" "os_script w' = os"
    using s px uc os by (simp add: hash_table_remove_item_def set_bucket_def Let_def)
  have er: "slots_inv (bs[i := ?b])" "slot_map (bs[i := ?b]) = (slot_map bs)(k := None)"
    using slots_erase [OF s(3,6), of ?b] s(7) by (auto simp: live_def HASH_BUCKET_DELETED_def valid_key_def)
  have nl: "nlive bs = Suc (nlive (bs[i := ?b]))"
    using filter_list_update_del [OF s(6), of live ?b] s(5,7) by (simp add: nlive_def live_def)
  have "table_inv (table w')"
    using inv s(1) w'(2) er(1) nl by (simp add: world_inv_def table_inv_def)
  moreover have lk: "lookup w' = (lookup w)(k := None)"
    using er(2) w'(2) s(1) by (simp add: lookup_def)
  moreover have "heap_inv (lookup w') (heap w')"
    using inv k unfolding lk w'(3) world_inv_def by (intro heap_inv_delete) auto
  ultimately show ?thesis
    using w' os by (auto simp: release_post_def world_inv_def intro!: exI [of _ "atomic px"])
qed

theorem remove_item_absent:
  assumes inv: "world_inv w" and k: "lookup w k = None" and v: "valid_key k"
  shows "hash_table_remove_item ops k w = Inr w"
proof (cases "buckets (table w)")
  case None
  then show ?thesis by (simp add: hash_table_remove_item_def)
next
  case (Some bs)
  obtain q where q: "pow2_len q bs" "slots_inv bs" "bucket_count (table w) = 2 ^ q"
    using inv Some table_inv_Some by (auto simp: world_inv_def)
  have "\<forall>i<length bs. key (bs ! i) \<noteq> k"
    using k v by (simp add: lookup_Some [OF Some] slot_map_None)
  then have "remove_probe bs (2 ^ q) k (hash_func k AND (2 ^ q - 1)) 0 = Inr None"
    using remove_probe_post [OF q(1), of k] by (metis not_None_eq)
  then show ?thesis
    using Some q(3) by (simp add: hash_table_remove_item_def)
qed

subsection \<open>A table of tombstones\<close>

text \<open>
  At the maximal size nothing clears a tombstone: \<open>hash_table_grow\<close> refuses, and a probe path without
  an empty slot ends in \<open>hash_table_grow\<close> even where it met a reusable tombstone.
\<close>

lemma full_table_refuses:
  assumes inv: "world_inv w" and bs: "buckets (table w) = Some bs" and len: "length bs = 2 ^ 20"
    and full: "\<forall>i<length bs. key (bs ! i) \<noteq> NULL" and few: "count (table w) < 3 * 2 ^ 18"
    and k: "lookup w k = None" "valid_key k"
  shows "hash_table_find_or_create ops k True w = Inr (NULL, w\<lparr>errno := ENOMEM\<rparr>)"
proof -
  have si: "slots_inv bs" and q: "pow2_len 20 bs"
    using inv bs len by (auto simp: world_inv_def table_inv_def pow2_len_def)
  have bc: "bucket_count (table w) = 2 ^ 20"
    using inv bs len by (simp add: world_inv_def table_inv_def)
  obtain r where r: "find_probe bs (2 ^ 20) k (hash_func k AND (2 ^ 20 - 1)) 0 None = Inr r"
      "find_post bs k r"
    using find_probe_post [OF q] by blast
  have "r = Full"
  proof (cases r)
    case (Hit i)
    then show ?thesis
      using find_post_Hit [OF si] r(2) k by (simp add: lookup_Some [OF bs])
  next
    case (Vacant i)
    then show ?thesis
      using r(2) full slot_less [OF q] by auto
  qed
  moreover have "\<not> (count (table w) \<ge> drop_bit 2 (bucket_count (table w)) * 3)"
    using few by (simp add: bc not_le)
  ultimately show ?thesis
    using bs bc r hash_table_grow_full [OF q bs bc]
    by (simp add: hash_table_find_or_create_def find_or_create_loop.simps)
qed

lemma all_tombstones:
  assumes "q \<le> 20"
  defines "bs \<equiv> replicate (2 ^ q) \<lparr>proxy = NULL, key = HASH_BUCKET_DELETED\<rparr>"
  shows "slots_inv bs \<and> slot_map bs = Map.empty \<and> nlive bs = 0"
proof -
  have "\<not> live (bs ! i)" "key (bs ! i) = HASH_BUCKET_DELETED" if "i < length bs" for i
    using that by (simp_all add: bs_def live_def)
  moreover have "slot_map bs k = None" for k
    using calculation by (auto simp: slot_map_None valid_key_def)
  moreover have "filter live bs = []"
    by (simp add: bs_def live_def)
  ultimately show ?thesis
    using assms(1) by (auto simp: slots_inv_def keys_unique_def nlive_def pow2_len_def bs_def)
qed

end
