(* ===== verification/Proxy_Refs.thy ===== *)
theory Proxy_Refs
  imports Hash_Table_Correct
begin

text \<open>
  The contract between the proxy table and its clients \<open>atomic_wait_generic\<close> and
  \<open>atomic_notify_generic\<close>: seen from outside, the table is a finite map from object addresses to
  a proxy address, the number of registered waiters and the proxy payload (\<open>view\<close>). The locale
  \<open>ref_table\<close> states the laws a client relies on and derives what follows from them alone; the
  locale \<open>proxy_backend\<close> (a payload whose destruction succeeds) is shown to give them for the
  functions of \<^verbatim>\<open>atomic_wait_common.ipp.ipp\<close>.
\<close>

section \<open>Releasing and changing a proxy\<close>

text \<open>
  The tail of \<open>atomic_wait_generic\<close>: \<open>if(0 == --item->use_count) hash_table_remove_item(...)\<close>.
\<close>

definition release_item ::
  "('p, 'o) proxy_ops_scheme \<Rightarrow> ptr \<Rightarrow> ptr \<Rightarrow> 'p world \<Rightarrow> 'p world res" where
  "release_item ops k item w =
     (case heap w item of
        None \<Rightarrow> Inl Bad_Deref
      | Some px \<Rightarrow>
          res_bind (c_int (use_count px - 1))
            (\<lambda>n. let w1 = w\<lparr>heap := (heap w)(item \<mapsto> px\<lparr>use_count := n\<rparr>)\<rparr>
                 in if n = 0 then hash_table_remove_item ops k w1 else Inr w1))"

text \<open>An update of the payload behind a proxy pointer.\<close>

definition poke :: "ptr \<Rightarrow> 'p \<Rightarrow> 'p world \<Rightarrow> 'p world" where
  "poke item a w =
     (case heap w item of
        None \<Rightarrow> w
      | Some px \<Rightarrow> w\<lparr>heap := (heap w)(item \<mapsto> px\<lparr>atomic := a\<rparr>)\<rparr>)"

section \<open>The abstract view\<close>

definition view :: "'p world \<Rightarrow> ptr \<Rightarrow> (ptr \<times> nat \<times> 'p) option" where
  "view w k =
     (case lookup w k of
        None \<Rightarrow> None
      | Some p \<Rightarrow> map_option (\<lambda>px. (p, nat (use_count px), atomic px)) (heap w p))"

definition refs_inv :: "'p world \<Rightarrow> bool" where
  "refs_inv w \<longleftrightarrow> world_inv w \<and> (\<forall>p px. heap w p = Some px \<longrightarrow> 0 < use_count px)"

abbreviation held :: "'p world \<Rightarrow> bool" where
  "held w \<equiv> lock (table w)"

lemma view_None: "refs_inv w \<Longrightarrow> view w k = None \<longleftrightarrow> lookup w k = None"
  using heap_inv_lookup
  by (fastforce simp: view_def refs_inv_def world_inv_def split: option.splits)

lemma view_Some:
  "view w k = Some (p, n, a) \<longleftrightarrow>
     (\<exists>px. lookup w k = Some p \<and> heap w p = Some px \<and> nat (use_count px) = n \<and> atomic px = a)"
  by (auto simp: view_def split: option.splits)

lemma view_lookup:
  assumes "refs_inv w" and "lookup w k = Some p" and "heap w p = Some px"
  shows "view w k = Some (p, nat (use_count px), atomic px)"
  using assms by (simp add: view_def)

lemma view_cell:
  assumes "refs_inv w" and "heap w p = Some px"
  shows "\<exists>k. view w k = Some (p, nat (use_count px), atomic px)"
proof -
  have "p \<in> ran (lookup w)"
    using assms by (auto simp: refs_inv_def world_inv_def heap_inv_def)
  then obtain k where "lookup w k = Some p"
    by (auto simp: ran_def)
  then show ?thesis
    using view_lookup [OF assms(1) _ assms(2)] by blast
qed

lemma view_inj:
  assumes "refs_inv w" and "view w k = Some (p, n, a)" and "view w k' = Some (p, n', a')"
  shows "k = k'"
  using assms unfolding refs_inv_def world_inv_def heap_inv_def inj_on_def
  by (metis domI view_Some)

lemma view_cong: "lookup w' = lookup w \<Longrightarrow> heap w' = heap w \<Longrightarrow> view w' = view w"
  by (rule ext) (simp add: view_def split: option.splits)

lemma view_quiet: "quiet w w' \<Longrightarrow> view w' = view w"
  unfolding quiet_def by (blast intro: view_cong)

lemma refs_inv_pos: "refs_inv w \<Longrightarrow> heap w p = Some px \<Longrightarrow> 0 < use_count px"
  unfolding refs_inv_def by blast

lemma refs_inv_quiet: "refs_inv w \<Longrightarrow> quiet w w' \<Longrightarrow> refs_inv w'"
  by (simp add: refs_inv_def quiet_def)

lemma refs_inv_counts:
  assumes "refs_inv w" and "\<forall>k p n a. view w k = Some (p, n, a) \<longrightarrow> int n < INT_MAX"
  shows "counts_ok w"
  unfolding counts_ok_def
proof (intro allI impI)
  fix p px assume px: "heap w p = Some px"
  then obtain k where "view w k = Some (p, nat (use_count px), atomic px)"
    using view_cell [OF assms(1)] by blast
  then have "int (nat (use_count px)) < INT_MAX"
    using assms(2) by blast
  then show "0 \<le> use_count px \<and> use_count px < INT_MAX"
    using refs_inv_pos [OF assms(1) px] by simp
qed

lemma refs_inv_upd:
  assumes "refs_inv w" and "world_inv w'" and "heap w' = (heap w)(p \<mapsto> px)" and "0 < use_count px"
  shows "refs_inv w'"
proof -
  have "0 < use_count c" if "heap w' q = Some c" for q c
    using that assms(3,4) refs_inv_pos [OF assms(1), of q c] by (cases "q = p") auto
  then show ?thesis
    using assms(2) by (simp add: refs_inv_def)
qed

text \<open>A change of one heap cell, seen through the view.\<close>

lemma view_heap_upd:
  assumes inv: "refs_inv w" and lk: "lookup w' = lookup w" and k: "lookup w k = Some p"
    and h: "heap w' = (heap w)(p \<mapsto> px)"
  shows "view w' = (view w)(k \<mapsto> (p, nat (use_count px), atomic px))"
proof
  fix k'
  have "lookup w k' \<noteq> Some p" if "k' \<noteq> k"
    using inv k that unfolding refs_inv_def world_inv_def heap_inv_def inj_on_def
    by (metis domI)
  then show "view w' k' = ((view w)(k \<mapsto> (p, nat (use_count px), atomic px))) k'"
    using k by (auto simp: view_def lk h split: option.splits)
qed

section \<open>The interface\<close>

locale ref_table =
  fixes inv :: "'w \<Rightarrow> bool"
    and view :: "'w \<Rightarrow> ptr \<Rightarrow> (ptr \<times> nat \<times> 'p) option"
    and locked :: "'w \<Rightarrow> bool"
    and init :: "'p \<Rightarrow> bool"
    and search :: "ptr \<Rightarrow> 'w \<Rightarrow> (ptr \<times> 'w) res"
    and acquire :: "ptr \<Rightarrow> 'w \<Rightarrow> (ptr \<times> 'w) res"
    and release :: "ptr \<Rightarrow> ptr \<Rightarrow> 'w \<Rightarrow> 'w res"
    and set_payload :: "ptr \<Rightarrow> 'p \<Rightarrow> 'w \<Rightarrow> 'w"
  assumes view_unique:
      "inv w \<Longrightarrow> view w k = Some (p, n, a) \<Longrightarrow> view w k' = Some (p, n', a') \<Longrightarrow> k = k'"
    and view_proper: "inv w \<Longrightarrow> view w k = Some (p, n, a) \<Longrightarrow> p \<noteq> NULL \<and> 0 < n"
    and search_law:
      "inv w \<Longrightarrow> valid_key k \<Longrightarrow>
         \<exists>w'. search k w = Inr (case view w k of None \<Rightarrow> NULL | Some (p, _) \<Rightarrow> p, w')
            \<and> inv w' \<and> view w' = view w \<and> locked w' = locked w"
    and acquire_law:
      "inv w \<Longrightarrow> valid_key k \<Longrightarrow> \<forall>k p n a. view w k = Some (p, n, a) \<longrightarrow> int n < INT_MAX \<Longrightarrow>
         \<exists>p w'. acquire k w = Inr (p, w') \<and> inv w' \<and> locked w' = locked w \<and>
           (p = NULL \<and> view w' = view w \<or>
            p \<noteq> NULL \<and> (\<exists>n a. view w k = Some (p, n, a) \<and> view w' = (view w)(k \<mapsto> (p, Suc n, a))) \<or>
            p \<noteq> NULL \<and> view w k = None \<and> (\<exists>a. init a \<and> view w' = (view w)(k \<mapsto> (p, 1, a))))"
    and release_law:
      "inv w \<Longrightarrow> view w k = Some (p, Suc n, a) \<Longrightarrow> int n < INT_MAX \<Longrightarrow>
         \<exists>w'. release k p w = Inr w' \<and> inv w' \<and> locked w' = locked w \<and>
           view w' = (view w)(k := if n = 0 then None else Some (p, n, a))"
    and payload_law:
      "inv w \<Longrightarrow> view w k = Some (p, n, a) \<Longrightarrow>
         inv (set_payload p b w) \<and> locked (set_payload p b w) = locked w \<and>
         view (set_payload p b w) = (view w)(k \<mapsto> (p, n, b))"
begin

text \<open>
  A successful acquisition: the object is in the map afterwards at the address returned, with
  one user more than before, and every other object is untouched. In particular the proxy of an
  object already waited on does not move.
\<close>

definition users :: "'w \<Rightarrow> ptr \<Rightarrow> nat" where
  "users w k = (case view w k of None \<Rightarrow> 0 | Some (p, n, a) \<Rightarrow> n)"

lemma acquire_users:
  assumes "inv w" and "valid_key k"
    and "\<forall>k p n a. view w k = Some (p, n, a) \<longrightarrow> int n < INT_MAX"
    and "acquire k w = Inr (p, w')" and "p \<noteq> NULL"
  shows "users w' = (users w)(k := users w k + 1) \<and> (\<exists>n a. view w' k = Some (p, n, a))
       \<and> (\<forall>k'. k' \<noteq> k \<longrightarrow> view w' k' = view w k')"
  using acquire_law [OF assms(1-3)] assms(4,5) by (auto simp: users_def fun_eq_iff)

lemma acquire_stable:
  assumes "inv w" and "valid_key k"
    and "\<forall>k p n a. view w k = Some (p, n, a) \<longrightarrow> int n < INT_MAX"
    and "acquire k w = Inr (p, w')" and "view w k' = Some (p', n, a)"
  shows "\<exists>n'. view w' k' = Some (p', n', a) \<and> n \<le> n'"
  using acquire_law [OF assms(1-3)] assms(4,5) by auto

lemma release_users:
  assumes "inv w" and "view w k = Some (p, n, a)" and "int n < INT_MAX"
  shows "\<exists>w'. release k p w = Inr w' \<and> inv w' \<and> users w' = (users w)(k := users w k - 1)"
proof -
  obtain m where "n = Suc m"
    using view_proper [OF assms(1,2)] gr0_conv_Suc by auto
  then obtain w' where "release k p w = Inr w'" "inv w'"
      "view w' = (view w)(k := if m = 0 then None else Some (p, m, a))"
    using release_law [of w k p m a] assms by auto
  then show ?thesis
    using assms(2) \<open>n = Suc m\<close> by (auto simp: users_def fun_eq_iff)
qed

text \<open>Acquiring and releasing in turn gives back the map one started from.\<close>

lemma acquire_release:
  assumes "inv w" and "valid_key k"
    and "\<forall>k p n a. view w k = Some (p, n, a) \<longrightarrow> int n < INT_MAX"
    and "acquire k w = Inr (p, w1)" and "p \<noteq> NULL"
  shows "\<exists>w2. release k p w1 = Inr w2 \<and> inv w2 \<and> locked w2 = locked w \<and> view w2 = view w"
proof -
  obtain n a where v: "inv w1" "locked w1 = locked w" "view w1 k = Some (p, Suc n, a)"
      "view w1 = (view w)(k \<mapsto> (p, Suc n, a))"
      "n = 0 \<longrightarrow> view w k = None" "0 < n \<longrightarrow> view w k = Some (p, n, a)"
    using acquire_law [OF assms(1-3)] assms(4,5) view_proper [OF assms(1), of k]
    by auto
  have "int n < INT_MAX"
    using v(6) assms(3) by (cases "n = 0") (auto simp: INT_MAX_def)
  then obtain w2 where "release k p w1 = Inr w2" "inv w2" "locked w2 = locked w1"
      "view w2 = (view w1)(k := if n = 0 then None else Some (p, n, a))"
    using release_law [OF v(1,3)] by auto
  moreover have "(view w1)(k := if n = 0 then None else Some (p, n, a)) = view w"
    using v(4-6) by (auto simp: fun_eq_iff)
  ultimately show ?thesis using v(2) by auto
qed

end

section \<open>The code provides it\<close>

text \<open>
  A backend: as long as the operating system answers in the way \<open>calm\<close> describes, destroying a
  proxy succeeds.
\<close>

definition good_world :: "(os_answers \<Rightarrow> bool) \<Rightarrow> 'p world \<Rightarrow> bool" where
  "good_world calm w \<longleftrightarrow> refs_inv w \<and> calm (os_script w)"

locale proxy_backend =
  fixes ops :: "('p, 'o) proxy_ops_scheme"
    and calm :: "os_answers \<Rightarrow> bool"
  assumes destroy_ok: "calm s \<Longrightarrow> fst (px_destroy ops s a) = 0"
    and destroy_calm: "calm s \<Longrightarrow> calm (snd (px_destroy ops s a))"
    and init_calm: "calm s \<Longrightarrow> calm (snd (snd (px_init ops s (px_zero ops))))"

lemma acquire_post_view:
  assumes inv: "refs_inv w" and post: "acquire_post ops w k p w'"
  shows "refs_inv w' \<and> held w' = held w \<and>
     (p = NULL \<and> view w' = view w \<or>
      p \<noteq> NULL \<and> (\<exists>n a. view w k = Some (p, n, a) \<and> view w' = (view w)(k \<mapsto> (p, Suc n, a))) \<or>
      p \<noteq> NULL \<and> view w k = None \<and> (\<exists>a. init_value ops a \<and> view w' = (view w)(k \<mapsto> (p, 1, a))))"
proof -
  have base: "world_inv w'" "held w' = held w"
    using post by (simp_all add: acquire_post_def)
  consider (f) "acquire_fails w p w'" | (s) "acquire_shares w k p w'" | (c) "acquire_creates ops w k p w'"
    using post by (auto simp: acquire_post_def)
  then show ?thesis
  proof cases
    case f
    then show ?thesis
      using inv base view_cong [of w' w] by (auto simp: acquire_fails_def refs_inv_def)
  next
    case s
    then obtain px where px: "lookup w k = Some p" "lookup w' = lookup w" "heap w p = Some px"
        "heap w' = (heap w)(p \<mapsto> px\<lparr>use_count := use_count px + 1\<rparr>)"
      by (auto simp: acquire_shares_def)
    have pos: "0 < use_count px" "p \<noteq> NULL"
      using refs_inv_pos [OF inv px(3)] inv px(1) heap_inv_lookup
      by (auto simp: refs_inv_def world_inv_def)
    have "view w' = (view w)(k \<mapsto> (p, Suc (nat (use_count px)), atomic px))"
      using view_heap_upd [OF inv px(2,1,4)] pos by (simp add: nat_add_distrib)
    moreover have "refs_inv w'"
      by (rule refs_inv_upd [OF inv base(1) px(4)]) (use pos in simp)
    ultimately show ?thesis
      using base pos view_lookup [OF inv px(1,3)] by auto
  next
    case c
    then obtain a where a: "lookup w k = None" "p \<noteq> NULL" "heap w p = None" "init_value ops a"
        "lookup w' = (lookup w)(k \<mapsto> p)" "heap w' = (heap w)(p \<mapsto> \<lparr>use_count = 1, atomic = a\<rparr>)"
      by (auto simp: acquire_creates_def)
    have "lookup w k' \<noteq> Some p" for k'
      using inv a(3) heap_inv_lookup by (fastforce simp: refs_inv_def world_inv_def)
    then have "view w' = (view w)(k \<mapsto> (p, 1, a))"
      using a(5,6) by (auto simp: view_def fun_eq_iff split: option.splits)
    moreover have "refs_inv w'"
      by (rule refs_inv_upd [OF inv base(1) a(6)]) simp
    ultimately show ?thesis
      using base a view_None [OF inv] by auto
  qed
qed

lemma poke_view:
  assumes inv: "refs_inv w" and v: "view w k = Some (p, n, a)"
  shows "refs_inv (poke p b w) \<and> held (poke p b w) = held w \<and>
         view (poke p b w) = (view w)(k \<mapsto> (p, n, b))"
proof -
  obtain px where px: "lookup w k = Some p" "heap w p = Some px" "nat (use_count px) = n"
      "atomic px = a"
    using v by (auto simp: view_Some)
  let ?w = "w\<lparr>heap := (heap w)(p \<mapsto> px\<lparr>atomic := b\<rparr>)\<rparr>"
  have w: "poke p b w = ?w"
    using px by (simp add: poke_def)
  have "lookup ?w = lookup w"
    by (simp add: lookup_def)
  then have "world_inv ?w"
    using inv px heap_inv_update [of "lookup w" "heap w" p] by (simp add: refs_inv_def world_inv_def)
  then have "refs_inv ?w"
    by (rule refs_inv_upd [OF inv, where p = p and px = "px\<lparr>atomic := b\<rparr>"])
      (use refs_inv_pos [OF inv px(2)] in simp_all)
  moreover have "view ?w = (view w)(k \<mapsto> (p, n, b))"
    using view_heap_upd [OF inv \<open>lookup ?w = lookup w\<close> px(1)] px(3) by simp
  ultimately show ?thesis
    by (simp add: w)
qed

context proxy_backend
begin

lemma release_item_view:
  assumes good: "good_world calm w" and v: "view w k = Some (p, Suc n, a)" and n: "int n < INT_MAX"
  shows "\<exists>w'. release_item ops k p w = Inr w' \<and> good_world calm w' \<and> held w' = held w \<and>
           view w' = (view w)(k := if n = 0 then None else Some (p, n, a))"
proof -
  have inv: "refs_inv w" and calm: "calm (os_script w)"
    using good by (simp_all add: good_world_def)
  obtain px where px: "lookup w k = Some p" "heap w p = Some px" "nat (use_count px) = Suc n"
      "atomic px = a"
    using v by (auto simp: view_Some)
  let ?c = "px\<lparr>use_count := int n\<rparr>"
  let ?w = "w\<lparr>heap := (heap w)(p \<mapsto> ?c)\<rparr>"
  have uc: "use_count px - 1 = int n"
    using px(3) by simp
  have step: "release_item ops k p w = (if n = 0 then hash_table_remove_item ops k ?w else Inr ?w)"
    using px(2) n uc by (simp add: release_item_def c_int_def INT_MIN_def Let_def)
  have lk: "lookup ?w = lookup w"
    by (simp add: lookup_def)
  have wi: "world_inv ?w"
    using inv px heap_inv_update [of "lookup w" "heap w" p] lk
    by (simp add: refs_inv_def world_inv_def)
  show ?thesis
  proof (cases "n = 0")
    case False
    have "view ?w = (view w)(k \<mapsto> (p, n, a))"
      using view_heap_upd [OF inv lk px(1)] px(4) by simp
    moreover have "refs_inv ?w"
      by (rule refs_inv_upd [OF inv wi, where p = p and px = ?c]) (use False in simp_all)
    ultimately show ?thesis
      using step False calm by (simp add: good_world_def)
  next
    case True
    have "lookup ?w k = Some p" "heap ?w p = Some ?c"
      using px(1) lk by simp_all
    then obtain w' where w': "hash_table_remove_item ops k ?w = Inr w'" "release_post ops ?w k p w'"
      using remove_item_removes [OF wi, of k p ?c ops] True destroy_ok [OF calm] by auto
    have h: "lookup w' = (lookup w)(k := None)" "heap w' = (heap w)(p := None)" "world_inv w'"
        "held w' = held w"
      using w'(2) lk by (simp_all add: release_post_def)
    have os: "calm (os_script w')"
      using w'(2) destroy_calm [OF calm] by (auto simp: release_post_def)
    have "lookup w k' \<noteq> Some p" if "k' \<noteq> k" for k'
      using inv px(1) that unfolding refs_inv_def world_inv_def heap_inv_def inj_on_def
      by (metis domI)
    then have "view w' = (view w)(k := None)"
      using h(1,2) by (auto simp: view_def fun_eq_iff split: option.splits)
    moreover have "refs_inv w'"
      using inv h(2,3) by (auto simp: refs_inv_def)
    ultimately show ?thesis
      using step True w'(1) h(4) os by (simp add: good_world_def)
  qed
qed

lemma poke_good:
  "good_world calm w \<Longrightarrow> view w k = Some (p, n, a) \<Longrightarrow>
     good_world calm (poke p b w) \<and> held (poke p b w) = held w \<and>
     view (poke p b w) = (view w)(k \<mapsto> (p, n, b))"
  using poke_view [of w k p n a b] by (auto simp: good_world_def poke_def split: option.splits)

end

sublocale proxy_backend \<subseteq> ref_table "good_world calm" view held "init_value ops"
  "\<lambda>k. hash_table_find_or_create ops k False" "\<lambda>k. hash_table_find_or_create ops k True"
  "release_item ops" poke
proof unfold_locales
  show "k = k'" if "good_world calm w" "view w k = Some (p, n, a)" "view w k' = Some (p, n', a')"
    for w :: "'p world" and k k' p n n' a a'
    using that by (auto simp: good_world_def dest: view_inj)
  show "p \<noteq> NULL \<and> 0 < n" if "good_world calm w" "view w k = Some (p, n, a)"
    for w :: "'p world" and k p n a
    using that heap_inv_lookup refs_inv_pos [of w]
    by (fastforce simp: view_Some refs_inv_def world_inv_def good_world_def)
  show "\<exists>w'. hash_table_find_or_create ops k False w =
          Inr (case view w k of None \<Rightarrow> NULL | Some (p, _) \<Rightarrow> p, w')
          \<and> good_world calm w' \<and> view w' = view w \<and> held w' = held w"
    if good: "good_world calm w" and k: "valid_key k" for w :: "'p world" and k
  proof -
    have inv: "refs_inv w"
      using good by (simp add: good_world_def)
    obtain w' where w': "hash_table_find_or_create ops k False w =
        Inr (case lookup w k of None \<Rightarrow> NULL | Some p \<Rightarrow> p, w')" "quiet w w'"
      using find_or_create_search [of w k ops] inv k by (auto simp: refs_inv_def)
    have "(case view w k of None \<Rightarrow> NULL | Some (p, _) \<Rightarrow> p) =
        (case lookup w k of None \<Rightarrow> NULL | Some p \<Rightarrow> p)"
      using view_None [OF inv, of k] by (auto simp: view_def split: option.splits)
    then show ?thesis
      using w' refs_inv_quiet [OF inv w'(2)] view_quiet [OF w'(2)] good
      by (simp add: quiet_def good_world_def)
  qed
  show "\<exists>p w'. hash_table_find_or_create ops k True w = Inr (p, w') \<and> good_world calm w'
      \<and> held w' = held w \<and>
       (p = NULL \<and> view w' = view w \<or>
        p \<noteq> NULL \<and> (\<exists>n a. view w k = Some (p, n, a) \<and> view w' = (view w)(k \<mapsto> (p, Suc n, a))) \<or>
        p \<noteq> NULL \<and> view w k = None \<and>
          (\<exists>a. init_value ops a \<and> view w' = (view w)(k \<mapsto> (p, 1, a))))"
    if good: "good_world calm w" and k: "valid_key k"
      and small: "\<forall>k p n a. view w k = Some (p, n, a) \<longrightarrow> int n < INT_MAX"
    for w :: "'p world" and k
  proof -
    have inv: "refs_inv w" "world_inv w"
      using good by (simp_all add: good_world_def refs_inv_def)
    obtain p w' where f: "hash_table_find_or_create ops k True w = Inr (p, w')"
        and post: "acquire_post ops w k p w'"
      using find_or_create_acquire [OF inv(2) k refs_inv_counts [OF inv(1) small], of ops] by blast
    have "calm (os_script w')"
      using post good init_calm by (auto simp: acquire_post_def good_world_def)
    then show ?thesis
      using f acquire_post_view [OF inv(1) post] unfolding good_world_def by blast
  qed
qed (rule release_item_view poke_good; assumption)+

text \<open>The laws and the round trip, for the clients of \<open>proxy_backend\<close>.\<close>

context proxy_backend
begin

lemmas acquire_contract = acquire_law
lemmas release_contract = release_law
lemmas acquire_release_contract = acquire_release
lemmas users_acquire_contract = acquire_users
lemmas users_release_contract = release_users

end

end
