(* ===== verification/Proxy_Kinds.thy ===== *)
theory Proxy_Kinds
  imports Proxy_Refs
begin

text \<open>
  The two payloads a proxy can carry and the macros over them: the 32-bit generation counter of
  the native backends (the default \<open>HASH_TABLE_ITEM_PROXY_TYPE\<close> of \<^verbatim>\<open>atomic_wait_common.ipp.ipp\<close>) and the
  mutex, condition variable and token count of \<^verbatim>\<open>atomic_wait_pthreads.c.ipp\<close>. The counter comes in
  four variants, one for each kernel it is put to sleep on: what the kernel says of a value that
  has changed, how many threads a wake unblocks and which count it reports. A wait is cut in two at the
  point where the thread blocks: \<open>px_park\<close> runs up to that point and either returns a result or
  blocks, \<open>px_resume\<close> runs from it, with the result of the blocking call, and either returns or
  blocks again. The regions a pthread mutex protects are single steps.
\<close>

section \<open>The macros of a backend\<close>

record 'p wait_ops = "'p proxy_ops" +
  px_counter :: "'p \<Rightarrow> u32"
  px_park :: "int \<Rightarrow> u32 \<Rightarrow> 'p \<Rightarrow> int option \<times> 'p"
  px_resume :: "int \<Rightarrow> 'p \<Rightarrow> int option \<times> 'p"
  px_wake :: "int list \<Rightarrow> u32 \<Rightarrow> int \<Rightarrow> nat \<Rightarrow> 'p \<Rightarrow> int \<times> nat \<times> 'p"

text \<open>The next result of an operating system call; success where the script is silent.\<close>

definition os_next :: "int list \<Rightarrow> int \<times> int list" where
  "os_next s = (case s of [] \<Rightarrow> (0, []) | r # s' \<Rightarrow> (r, s'))"

definition init_next :: "os_answers \<Rightarrow> int \<times> os_answers" where
  "init_next s = (case os_next (init_answers s) of (r, l) \<Rightarrow> (r, s\<lparr>init_answers := l\<rparr>))"

definition destroy_next :: "os_answers \<Rightarrow> int \<times> os_answers" where
  "destroy_next s = (case os_next (destroy_answers s) of (r, l) \<Rightarrow> (r, s\<lparr>destroy_answers := l\<rparr>))"

text \<open>Every call succeeds.\<close>

abbreviation all_succeed :: os_answers where
  "all_succeed \<equiv> \<lparr>init_answers = [], destroy_answers = []\<rparr>"

abbreviation WAKE_ALL :: u32 where
  "WAKE_ALL \<equiv> - 1"

section \<open>The generation counter\<close>

text \<open>\<open>FUTEX_WAKE\<close> takes a signed count: \<open>wake_by_address32\<close> of the Linux backend clamps.\<close>

definition nr_wake :: "u32 \<Rightarrow> int" where
  "nr_wake max_threads_to_wake =
     (if uint max_threads_to_wake > INT_MAX then INT_MAX else uint max_threads_to_wake)"

definition futex_init :: "os_answers \<Rightarrow> u32 \<Rightarrow> int \<times> u32 \<times> os_answers" where
  "futex_init s a = (0, 0, s)"

definition futex_destroy :: "os_answers \<Rightarrow> u32 \<Rightarrow> int \<times> os_answers" where
  "futex_destroy s a = (0, s)"

definition futex_counter :: "u32 \<Rightarrow> u32" where
  "futex_counter a = a"

text \<open>
  \<open>wait_on_address32(&x->atomic, counter, timeout)\<close>: the kernel fails with an error, or compares
  and fails with \<open>EAGAIN\<close>, or blocks.
\<close>

definition futex_park :: "int \<Rightarrow> u32 \<Rightarrow> u32 \<Rightarrow> int option \<times> u32" where
  "futex_park e cnt a =
     (if e \<noteq> 0 then (Some (- e), a)
      else if a \<noteq> cnt then (Some (- EAGAIN), a)
      else (None, a))"

definition futex_resume :: "int \<Rightarrow> u32 \<Rightarrow> int option \<times> u32" where
  "futex_resume e a = (Some (- e), a)"

text \<open>\<open>fetch_add(1)\<close>, then \<open>wake_by_address32\<close>; \<open>parked\<close> threads block on the address.\<close>

definition futex_wake :: "int list \<Rightarrow> u32 \<Rightarrow> int \<Rightarrow> nat \<Rightarrow> u32 \<Rightarrow> int \<times> nat \<times> u32" where
  "futex_wake s max_threads_to_wake registered parked a =
     (let e = fst (os_next s); n = nat (min (nr_wake max_threads_to_wake) (int parked))
      in if e \<noteq> 0 then (- e, 0, a + 1) else (int n, n, a + 1))"

definition futex_ops :: "u32 wait_ops" where
  "futex_ops =
     \<lparr>px_zero = 0, px_init = futex_init, px_destroy = futex_destroy, px_counter = futex_counter,
      px_park = futex_park, px_resume = futex_resume, px_wake = futex_wake\<rparr>"

section \<open>The same counter on the other kernels\<close>

text \<open>
  \<open>_umtx_op\<close>, \<open>__ulock_wait\<close> and \<open>WaitOnAddress\<close> report a value that differs as a success.
\<close>

definition address_park :: "int \<Rightarrow> u32 \<Rightarrow> u32 \<Rightarrow> int option \<times> u32" where
  "address_park e cnt a =
     (if e \<noteq> 0 then (Some (- e), a)
      else if a \<noteq> cnt then (Some 0, a)
      else (None, a))"

text \<open>The count a backend reports when its kernel does not.\<close>

definition nominal_woken :: "u32 \<Rightarrow> int" where
  "nominal_woken max_threads_to_wake = (if max_threads_to_wake = 1 then 1 else INT_MAX - 1)"

text \<open>How many of the blocked threads a call that wakes one or all unblocks.\<close>

definition one_or_all :: "u32 \<Rightarrow> nat \<Rightarrow> nat" where
  "one_or_all max_threads_to_wake parked = (if max_threads_to_wake = 1 then min 1 parked else parked)"

definition umtx_wake :: "int list \<Rightarrow> u32 \<Rightarrow> int \<Rightarrow> nat \<Rightarrow> u32 \<Rightarrow> int \<times> nat \<times> u32" where
  "umtx_wake s max_threads_to_wake registered parked a =
     (let e = fst (os_next s)
      in if e \<noteq> 0 then (- e, 0, a + 1)
         else (nominal_woken max_threads_to_wake,
               nat (min (nr_wake max_threads_to_wake) (int parked)), a + 1))"

text \<open>\<open>ENOENT\<close>, the answer of \<open>__ulock_wake\<close> when no thread is blocked, is not an error.\<close>

definition ulock_wake :: "int list \<Rightarrow> u32 \<Rightarrow> int \<Rightarrow> nat \<Rightarrow> u32 \<Rightarrow> int \<times> nat \<times> u32" where
  "ulock_wake s max_threads_to_wake registered parked a =
     (let e = fst (os_next s)
      in if e \<noteq> 0 \<and> e \<noteq> ENOENT then (- e, 0, a + 1)
         else (nominal_woken max_threads_to_wake, one_or_all max_threads_to_wake parked, a + 1))"

text \<open>\<open>WakeByAddressSingle\<close> and \<open>WakeByAddressAll\<close> cannot fail.\<close>

definition waitaddr_wake :: "int list \<Rightarrow> u32 \<Rightarrow> int \<Rightarrow> nat \<Rightarrow> u32 \<Rightarrow> int \<times> nat \<times> u32" where
  "waitaddr_wake s max_threads_to_wake registered parked a =
     (nominal_woken max_threads_to_wake, one_or_all max_threads_to_wake parked, a + 1)"

definition umtx_ops :: "u32 wait_ops" where
  "umtx_ops = futex_ops\<lparr>px_park := address_park, px_wake := umtx_wake\<rparr>"

definition ulock_ops :: "u32 wait_ops" where
  "ulock_ops = futex_ops\<lparr>px_park := address_park, px_wake := ulock_wake\<rparr>"

definition waitaddr_ops :: "u32 wait_ops" where
  "waitaddr_ops = futex_ops\<lparr>px_park := address_park, px_wake := waitaddr_wake\<rparr>"

text \<open>The proxies of Linux, FreeBSD, macOS and Windows.\<close>

definition native_proxies :: "u32 wait_ops set" where
  "native_proxies = {futex_ops, umtx_ops, ulock_ops, waitaddr_ops}"

lemmas native_ops_defs = futex_ops_def umtx_ops_def ulock_ops_def waitaddr_ops_def

section \<open>The pthreads proxy\<close>

record pthreads_proxy =
  pending :: int
  waiting :: int

definition pthread_proxy_init ::
  "os_answers \<Rightarrow> pthreads_proxy \<Rightarrow> int \<times> pthreads_proxy \<times> os_answers" where
  "pthread_proxy_init s p =
     (case init_next s of (r_mutex, s1) \<Rightarrow>
        if r_mutex \<noteq> 0 then (- r_mutex, p, s1)
        else
          (case init_next s1 of (r_attr, s2) \<Rightarrow>
             (case (if r_attr = 0 then init_next s2 else (r_attr, s2)) of (r, s3) \<Rightarrow>
                if r \<noteq> 0 then (- r, p, s3)
                else (0, p\<lparr>pending := 0, waiting := 0\<rparr>, s3))))"

definition pthread_proxy_destroy :: "os_answers \<Rightarrow> pthreads_proxy \<Rightarrow> int \<times> os_answers" where
  "pthread_proxy_destroy s p =
     (case destroy_next s of (ret1, s1) \<Rightarrow>
        (case destroy_next s1 of (ret2, s2) \<Rightarrow> (if ret1 \<noteq> 0 then ret1 else ret2, s2)))"

text \<open>\<open>pthread_proxy_wait\<close> up to the first \<open>pthread_cond_wait\<close> or \<open>pthread_cond_timedwait\<close>.\<close>

definition pthread_proxy_park ::
  "int \<Rightarrow> u32 \<Rightarrow> pthreads_proxy \<Rightarrow> int option \<times> pthreads_proxy" where
  "pthread_proxy_park r_lock cnt p =
     (if r_lock \<noteq> 0 then (Some (- r_lock), p)
      else if pending p > 0 then (Some 0, p\<lparr>pending := pending p - 1\<rparr>)
      else (None, p\<lparr>waiting := waiting p + 1\<rparr>))"

text \<open>One turn of its loop, with the result of the blocking call.\<close>

definition pthread_proxy_resume ::
  "int \<Rightarrow> pthreads_proxy \<Rightarrow> int option \<times> pthreads_proxy" where
  "pthread_proxy_resume r p =
     (if r = 0 then
        if pending p > 0
        then (Some 0, p\<lparr>pending := pending p - 1, waiting := waiting p - 1\<rparr>)
        else (None, p)
      else if r = ETIMEDOUT then (Some (- ETIMEDOUT), p\<lparr>waiting := waiting p - 1\<rparr>)
      else (Some (- r), p\<lparr>waiting := waiting p - 1\<rparr>))"

text \<open>The token count \<open>pthread_proxy_wake\<close> leaves, and the count it reports.\<close>

definition pthread_cap :: "int \<Rightarrow> int" where
  "pthread_cap registered = (if registered > 0 then registered else 1)"

definition pthread_tokens :: "u32 \<Rightarrow> int \<Rightarrow> pthreads_proxy \<Rightarrow> int" where
  "pthread_tokens max_threads_to_wake registered p =
     (let cap = pthread_cap registered in
      if max_threads_to_wake = WAKE_ALL then cap
      else
        (let np = pending p + uint max_threads_to_wake in if np > cap then cap else np))"

definition pthread_woken :: "u32 \<Rightarrow> pthreads_proxy \<Rightarrow> int" where
  "pthread_woken max_threads_to_wake p =
     (let woken =
        (if max_threads_to_wake = WAKE_ALL then waiting p
         else if waiting p < sint max_threads_to_wake then waiting p
         else sint max_threads_to_wake)
      in if woken < 1 then 1 else woken)"

definition pthread_proxy_wake ::
  "int list \<Rightarrow> u32 \<Rightarrow> int \<Rightarrow> nat \<Rightarrow> pthreads_proxy \<Rightarrow> int \<times> nat \<times> pthreads_proxy" where
  "pthread_proxy_wake s max_threads_to_wake registered parked p =
     (case os_next s of (r_lock, s1) \<Rightarrow>
        if r_lock \<noteq> 0 then (- r_lock, 0, p)
        else
          (let p1 = p\<lparr>pending := pthread_tokens max_threads_to_wake registered p\<rparr>;
               ret = fst (os_next s1);
               woken = pthread_woken max_threads_to_wake p1
           in if ret \<noteq> 0 then (- ret, 0, p1)
              else (woken, if max_threads_to_wake = 1 then min 1 parked else parked, p1)))"

definition pthread_ops :: "pthreads_proxy wait_ops" where
  "pthread_ops =
     \<lparr>px_zero = \<lparr>pending = 0, waiting = 0\<rparr>, px_init = pthread_proxy_init,
      px_destroy = pthread_proxy_destroy, px_counter = (\<lambda>_. 0), px_park = pthread_proxy_park,
      px_resume = pthread_proxy_resume, px_wake = pthread_proxy_wake\<rparr>"

section \<open>The proxies are backends of the table\<close>

interpretation futex: proxy_backend futex_ops "\<lambda>_. True"
  by unfold_locales (simp_all add: futex_ops_def futex_destroy_def)

interpretation umtx: proxy_backend umtx_ops "\<lambda>_. True"
  by unfold_locales (simp_all add: native_ops_defs futex_destroy_def)

interpretation ulock: proxy_backend ulock_ops "\<lambda>_. True"
  by unfold_locales (simp_all add: native_ops_defs futex_destroy_def)

interpretation waitaddr: proxy_backend waitaddr_ops "\<lambda>_. True"
  by unfold_locales (simp_all add: native_ops_defs futex_destroy_def)

text \<open>
  The pthreads proxy is one while the destruction of unused mutexes and condition variables succeeds;
  initialising them may fail in any way.
\<close>

definition os_calm :: "os_answers \<Rightarrow> bool" where
  "os_calm s \<longleftrightarrow> set (destroy_answers s) \<subseteq> {0}"

text \<open>All of these calls succeed.\<close>

definition os_succeeds :: "os_answers \<Rightarrow> bool" where
  "os_succeeds s \<longleftrightarrow> set (init_answers s) \<subseteq> {0} \<and> os_calm s"

lemma destroy_next_calm: "os_calm s \<Longrightarrow> destroy_next s = (r, s') \<Longrightarrow> r = 0 \<and> os_calm s'"
  by (auto simp: os_calm_def destroy_next_def os_next_def split: list.splits)

lemma init_next_destroys: "init_next s = (r, s') \<Longrightarrow> destroy_answers s' = destroy_answers s"
  by (auto simp: init_next_def split: prod.splits)

lemma pthread_init_destroys:
  "pthread_proxy_init s p = (r, p', s') \<Longrightarrow> destroy_answers s' = destroy_answers s"
  by (auto simp: pthread_proxy_init_def dest!: init_next_destroys split: prod.splits if_splits)

lemma pthread_destroy_calm:
  assumes "os_calm s"
  shows "fst (pthread_proxy_destroy s a) = 0 \<and> os_calm (snd (pthread_proxy_destroy s a))"
  using assms by (fastforce simp: pthread_proxy_destroy_def dest: destroy_next_calm split: prod.splits)

interpretation pthread: proxy_backend pthread_ops os_calm
proof unfold_locales
  fix s :: os_answers and a :: pthreads_proxy
  assume s: "os_calm s"
  show "fst (px_destroy pthread_ops s a) = 0" "os_calm (snd (px_destroy pthread_ops s a))"
    using pthread_destroy_calm [OF s] by (simp_all add: pthread_ops_def)
  obtain r p' s' where "pthread_proxy_init s (px_zero pthread_ops) = (r, p', s')"
    by (metis prod_cases3)
  then show "os_calm (snd (snd (px_init pthread_ops s (px_zero pthread_ops))))"
    using s pthread_init_destroys by (simp add: pthread_ops_def os_calm_def)
qed

lemma init_next_succeeds: "os_succeeds s \<Longrightarrow> init_next s = (r, s') \<Longrightarrow> r = 0 \<and> os_succeeds s'"
  by (auto simp: os_succeeds_def os_calm_def init_next_def os_next_def split: list.splits)

lemma pthread_init_succeeds:
  assumes "os_succeeds s"
  shows "fst (pthread_proxy_init s p) = 0 \<and> os_succeeds (snd (snd (pthread_proxy_init s p)))"
  using assms by (fastforce simp: pthread_proxy_init_def dest: init_next_succeeds split: prod.splits if_splits)

lemma destroy_next_inits: "destroy_next s = (r, s') \<Longrightarrow> init_answers s' = init_answers s"
  by (auto simp: destroy_next_def split: prod.splits)

lemma pthread_destroy_succeeds:
  assumes "os_succeeds s"
  shows "fst (pthread_proxy_destroy s a) = 0 \<and> os_succeeds (snd (pthread_proxy_destroy s a))"
proof -
  have "init_answers (snd (pthread_proxy_destroy s a)) = init_answers s"
    by (auto simp: pthread_proxy_destroy_def dest!: destroy_next_inits split: prod.splits)
  then show ?thesis
    using assms pthread_destroy_calm [of s a] by (simp add: os_succeeds_def)
qed

interpretation pthread_quiet: proxy_backend pthread_ops os_succeeds
  by unfold_locales
    (use pthread_init_succeeds pthread_destroy_succeeds in \<open>simp_all add: pthread_ops_def\<close>)

lemma futex_ops_simps [simp]:
  "px_zero futex_ops = 0" "px_init futex_ops = futex_init" "px_destroy futex_ops = futex_destroy"
  "px_counter futex_ops = futex_counter" "px_park futex_ops = futex_park"
  "px_resume futex_ops = futex_resume" "px_wake futex_ops = futex_wake"
  by (simp_all add: futex_ops_def)

lemma pthread_ops_simps [simp]:
  "px_zero pthread_ops = \<lparr>pending = 0, waiting = 0\<rparr>" "px_init pthread_ops = pthread_proxy_init"
  "px_destroy pthread_ops = pthread_proxy_destroy" "px_counter pthread_ops = (\<lambda>_. 0)"
  "px_park pthread_ops = pthread_proxy_park" "px_resume pthread_ops = pthread_proxy_resume"
  "px_wake pthread_ops = pthread_proxy_wake"
  by (simp_all add: pthread_ops_def)

lemma futex_init_value: "init_value futex_ops a \<longleftrightarrow> a = 0"
  by (auto simp: init_value_def futex_init_def)

lemma nr_wake_bounds: "0 \<le> nr_wake m \<and> nr_wake m \<le> INT_MAX"
  by (simp add: nr_wake_def INT_MAX_def)

lemma nr_wake_all: "nr_wake WAKE_ALL = INT_MAX"
  by (simp add: nr_wake_def INT_MAX_def unsigned_minus_1_eq_mask mask_eq_exp_minus_1)

lemma nominal_woken_nonneg: "0 \<le> nominal_woken m"
  by (simp add: nominal_woken_def INT_MAX_def)

lemmas wake_defs = futex_wake_def umtx_wake_def ulock_wake_def waitaddr_wake_def

section \<open>Tokens\<close>

lemma pthread_tokens_bound:
  assumes "0 \<le> pending p"
  shows "0 \<le> pthread_tokens m registered p \<and> pthread_tokens m registered p \<le> pthread_cap registered"
  using assms by (auto simp: pthread_tokens_def pthread_cap_def Let_def)

lemma pthread_tokens_all: "0 < registered \<Longrightarrow> pthread_tokens WAKE_ALL registered p = registered"
  by (simp add: pthread_tokens_def pthread_cap_def)

end
