(* ===== verification/Table_Availability.thy ===== *)
theory Table_Availability
  imports Proxy_Kinds
begin

text \<open>
  When the proxy table serves a request. The contract of \<open>hash_table_find_or_create\<close> allows it to refuse
  any acquisition; here it is shown when it does not: the table is not at its limit, the next two
  allocations succeed and the payload can be initialised. One growth is always enough, because it
  doubles the array and drops the tombstones.
\<close>

section \<open>Supply\<close>

text \<open>The next \<open>n\<close> calls of \<open>calloc\<close> succeed.\<close>

definition ample :: "nat \<Rightarrow> 'p world \<Rightarrow> bool" where
  "ample n w \<longleftrightarrow>
     n \<le> length (alloc_script w) \<and>
     (\<forall>(p, e)\<in>set (take n (alloc_script w)). p \<noteq> NULL \<and> heap w p = None)"

text \<open>
  The array is absent, or can still double, or has its largest size and is below the load limit with an
  empty slot left. Arrays are never smaller than the first one.
\<close>

definition below_limit :: "'p world \<Rightarrow> bool" where
  "below_limit w \<longleftrightarrow>
     (case buckets (table w) of
        None \<Rightarrow> True
      | Some bs \<Rightarrow>
          HASH_BUCKETS_INITIAL \<le> bucket_count (table w) \<and>
          (bucket_count (table w) < HASH_BUCKETS_MAX \<or>
           count (table w) < drop_bit 2 HASH_BUCKETS_MAX * 3 \<and> (\<exists>b\<in>set bs. key b = NULL)))"

definition init_succeeds :: "('p, 'o) proxy_ops_scheme \<Rightarrow> 'p world \<Rightarrow> bool" where
  "init_succeeds ops w \<longleftrightarrow> fst (px_init ops (os_script w) (px_zero ops)) = 0"

lemma ample_calloc:
  assumes "ample (Suc n) w"
  shows "\<exists>p w1. c_calloc w = (p, w1) \<and> p \<noteq> NULL \<and> ample n w1 \<and> table w1 = table w
    \<and> heap w1 = heap w \<and> os_script w1 = os_script w"
proof -
  obtain p e r where s: "alloc_script w = (p, e) # r"
    using assms by (cases "alloc_script w") (auto simp: ample_def)
  then show ?thesis
    using assms by (auto simp: ample_def c_calloc_def)
qed

lemma ample_mono: "ample n w \<Longrightarrow> m \<le> n \<Longrightarrow> ample m w"
  using set_take_subset_set_take [of m n "alloc_script w"] by (fastforce simp: ample_def)

lemma ample_frame:
  "ample n w \<Longrightarrow> alloc_script w' = alloc_script w \<Longrightarrow> heap w' = heap w \<Longrightarrow> ample n w'"
  by (simp add: ample_def)

section \<open>Creating and growing\<close>

lemma create_at_ample:
  assumes "ample 1 w" and "init_succeeds ops w"
  shows "fst (create_at ops k i b w) \<noteq> NULL"
proof -
  obtain p w1 where "c_calloc w = (p, w1)" "p \<noteq> NULL" "os_script w1 = os_script w"
    using ample_calloc [of 0 w] assms(1) by auto
  then show ?thesis
    using assms(2)
    by (cases "px_init ops (os_script w) (px_zero ops)")
      (simp add: create_at_def init_succeeds_def Let_def)
qed

lemma grow_ample:
  assumes inv: "world_inv w" and bs: "buckets (table w) = Some bs" and sup: "ample (Suc n) w"
    and lt: "bucket_count (table w) < HASH_BUCKETS_MAX"
  obtains w' bs' where "hash_table_grow w = Inr (0, w')" "quiet w w'" "buckets (table w') = Some bs'"
    "no_tomb bs'" "nlive bs' = nlive bs" "length bs' = 2 * length bs" "ample n w'"
proof -
  obtain p w1 where al: "c_calloc w = (p, w1)" "p \<noteq> NULL" "ample n w1" "heap w1 = heap w"
    using ample_calloc [OF sup] by blast
  show ?thesis
    using hash_table_grow_ok [OF inv bs] that al lt ample_frame [of n w1] by (auto simp: quiet_def)
qed

section \<open>The load limit\<close>

lemma power_quarter: "2 \<le> q \<Longrightarrow> (2 :: nat) ^ q = 4 * 2 ^ (q - 2)"
  by (metis le_add_diff_inverse power2_eq_square power_add mult_2 numeral_Bit0)

lemma load_limit:
  assumes "2 \<le> q" and "q \<le> 20"
  shows "unat (drop_bit 2 (2 ^ q :: u32) * 3) = 3 * 2 ^ (q - 2)"
proof -
  have "unat (drop_bit 2 (2 ^ q :: u32)) = 2 ^ q div 4"
    using unat_pow2 [of q] assms(2) unat_drop_bit_eq [of 2 "2 ^ q :: u32"]
    by (simp only: drop_bit_eq_div) simp
  also have "\<dots> = 2 ^ (q - 2)"
    by (simp add: power_quarter [OF assms(1)])
  finally have d: "unat (drop_bit 2 (2 ^ q :: u32)) = 2 ^ (q - 2)" .
  have "(2 :: nat) ^ (q - 2) \<le> 2 ^ 18"
    using assms(2) by (intro power_increasing) simp_all
  then show ?thesis
    by (simp add: unat_word_ariths d)
qed

lemma unat_nlive:
  assumes "pow2_len q bs"
  shows "unat (of_nat (nlive bs) :: u32) = nlive bs"
proof -
  have "nlive bs \<le> 2 ^ 20"
    using assms nlive_le [of bs] power_increasing [of q 20 "2 :: nat"] by (simp add: pow2_len_def)
  then show ?thesis
    by (simp add: unsigned_of_nat take_bit_nat_eq_self)
qed

lemma grown_below_load:
  assumes "pow2_len q bs'" and "11 \<le> q" and "2 * nlive bs' \<le> length bs'"
  shows "of_nat (nlive bs') < drop_bit 2 (2 ^ q :: u32) * 3"
proof -
  have "(2 :: nat) ^ q = 4 * 2 ^ (q - 2)"
    using assms(2) by (intro power_quarter) simp
  moreover have "(0 :: nat) < 2 ^ (q - 2)"
    by simp
  ultimately have "nlive bs' < 3 * 2 ^ (q - 2)"
    using assms(1,3) unfolding pow2_len_def by linarith
  then show ?thesis
    using load_limit [of q] assms(1,2) unat_nlive [OF assms(1)]
    by (simp add: word_less_nat_alt pow2_len_def)
qed

lemma no_tomb_empty_slot:
  assumes "no_tomb bs" and "nlive bs < length bs"
  shows "\<exists>b\<in>set bs. key b = NULL"
proof -
  obtain i where i: "i < length bs" "\<not> live (bs ! i)"
    using nlive_full [OF assms(2)] by blast
  then have "key (bs ! i) = NULL"
    using assms(1) by (simp add: no_tomb_def live_def valid_key_def)
  then show ?thesis
    using i(1) by (auto intro: nth_mem)
qed

section \<open>Service\<close>

lemma use_found_same: "use_found p w = Inr (r, w') \<Longrightarrow> r = p"
  by (auto simp: use_found_def res_simps split: option.splits)

lemma serves_in_place:
  assumes inv: "world_inv w" and bs: "buckets (table w) = Some bs" and k: "valid_key k"
    and al: "ample 1 w" "init_succeeds ops w"
    and low: "\<not> drop_bit 2 (bucket_count (table w)) * 3 \<le> count (table w)"
    and r: "find_probe bs (bucket_count (table w)) k (hash_func k AND (bucket_count (table w) - 1)) 0 None = Inr r"
      "find_post bs k r" "r \<noteq> Full"
    and res: "find_or_create_loop ops k True w = Inr (p, w')"
  shows "p \<noteq> NULL"
proof -
  note unfold = find_or_create_loop.simps [of ops k True w]
  have s: "slots_inv bs"
    using inv bs table_inv_Some by (auto simp: world_inv_def)
  show ?thesis
  proof (cases r)
    case (Hit i)
    then have "lookup w k = Some (proxy (bs ! i))"
      using find_post_Hit [OF s, of k i] r(2) k by (simp add: lookup_Some [OF bs])
    then have "proxy (bs ! i) \<noteq> NULL"
      using inv heap_inv_lookup by (metis world_inv_def)
    then show ?thesis
      using unfold res Hit low r(1) bs use_found_same [of _ w p w'] by auto
  next
    case (Vacant i)
    then have "create_at ops k i (bs ! i) w = (p, w')"
      using unfold res low r(1) bs by simp
    then show ?thesis
      using create_at_ample [OF al, of k i "bs ! i"] by simp
  qed (use r(3) in simp)
qed

lemma serves_with_slot:
  assumes inv: "world_inv w" and bs: "buckets (table w) = Some bs" and k: "valid_key k"
    and al: "ample 1 w" "init_succeeds ops w"
    and low: "count (table w) < drop_bit 2 (bucket_count (table w)) * 3"
    and slot: "\<exists>b\<in>set bs. key b = NULL"
    and res: "find_or_create_loop ops k True w = Inr (p, w')"
  shows "p \<noteq> NULL"
proof -
  obtain q where q: "pow2_len q bs" "slots_inv bs" "bucket_count (table w) = 2 ^ q"
    using inv bs table_inv_Some by (auto simp: world_inv_def)
  obtain r where r: "find_probe bs (2 ^ q) k (hash_func k AND (2 ^ q - 1)) 0 None = Inr r" "find_post bs k r"
    using find_probe_post [OF q(1)] by blast
  have "r \<noteq> Full"
    using find_post_Full [OF q(2), of k] r(2) slot by (auto simp: in_set_conv_nth)
  then show ?thesis
    using serves_in_place [OF inv bs k al _ _ r(2) _ res] r(1) low q(3) by (simp add: not_le)
qed

lemma serves_after_growth:
  assumes inv: "world_inv w" and bs: "buckets (table w) = Some bs" and k: "valid_key k"
    and ok: "counts_ok w" and al: "ample 2 w" "init_succeeds ops w"
    and size: "HASH_BUCKETS_INITIAL \<le> bucket_count (table w)" "bucket_count (table w) < HASH_BUCKETS_MAX"
    and g: "hash_table_grow w = Inr (g, w1)"
  shows "g = 0 \<and> (\<forall>p w'. find_or_create_loop ops k True w1 = Inr (p, w') \<longrightarrow> p \<noteq> NULL)"
proof -
  obtain bs' where w1: "g = 0" "quiet w w1" "buckets (table w1) = Some bs'" "no_tomb bs'"
      "nlive bs' = nlive bs" "length bs' = 2 * length bs" "ample 1 w1"
    using grow_ample [OF inv bs, of 1] al(1) size(2) g by (auto simp: numeral_2_eq_2)
  have inv1: "world_inv w1" "counts_ok w1" "init_succeeds ops w1"
    using w1(2) ok al(2) counts_ok_quiet [OF w1(2)] by (simp_all add: quiet_def init_succeeds_def)
  obtain q where q: "pow2_len q bs" "bucket_count (table w) = 2 ^ q"
    using inv bs table_inv_Some by (auto simp: world_inv_def)
  obtain q1 where q1: "pow2_len q1 bs'" "bucket_count (table w1) = 2 ^ q1" "count (table w1) = of_nat (nlive bs')"
    using inv1(1) w1(3) table_inv_Some by (auto simp: world_inv_def)
  have "2 ^ 10 \<le> length bs"
    using size(1) q unat_bucket_count [OF q(1)] by (simp add: word_le_nat_alt HASH_BUCKETS_INITIAL_def)
  then have "(2 :: nat) ^ 11 \<le> 2 ^ q1"
    using q1(1) w1(6) by (simp add: pow2_len_def)
  then have big: "11 \<le> q1"
    using power_le_imp_le_exp [of "2 :: nat" 11 q1] by simp
  have half: "2 * nlive bs' \<le> length bs'"
    using w1(5,6) nlive_le [of bs] by simp
  have "nlive bs' < length bs'"
    using half q1(1) by (cases "nlive bs' = 0") (simp_all add: pow2_len_def)
  then have "\<exists>b\<in>set bs'. key b = NULL"
    using no_tomb_empty_slot [OF w1(4)] by blast
  moreover have "count (table w1) < drop_bit 2 (bucket_count (table w1)) * 3"
    using grown_below_load [OF q1(1) big half] by (simp add: q1)
  ultimately show ?thesis
    using serves_with_slot [OF inv1(1) w1(3) k w1(7) inv1(3)] w1(1) by blast
qed

lemma loop_serves:
  assumes inv: "world_inv w" and bs: "buckets (table w) = Some bs" and k: "valid_key k"
    and ok: "counts_ok w" and al: "ample 2 w" "init_succeeds ops w" and room: "below_limit w"
    and res: "find_or_create_loop ops k True w = Inr (p, w')"
  shows "p \<noteq> NULL"
proof (cases "count (table w) < drop_bit 2 (bucket_count (table w)) * 3 \<and> (\<exists>b\<in>set bs. key b = NULL)")
  case True
  then show ?thesis
    using serves_with_slot [OF inv bs k ample_mono [OF al(1)] al(2) _ _ res] by simp
next
  case False
  have size: "HASH_BUCKETS_INITIAL \<le> bucket_count (table w)"
    using room bs by (simp add: below_limit_def)
  obtain q where q: "pow2_len q bs" "slots_inv bs" "bucket_count (table w) = 2 ^ q"
    using inv bs table_inv_Some by (auto simp: world_inv_def)
  have "bucket_count (table w) \<le> HASH_BUCKETS_MAX"
    using q unat_pow2 [of q] power_increasing [of q 20 "2 :: nat"]
    by (simp add: HASH_BUCKETS_MAX_def pow2_len_def word_le_nat_alt)
  then have lt: "bucket_count (table w) < HASH_BUCKETS_MAX"
    using room bs False by (cases "bucket_count (table w) = HASH_BUCKETS_MAX") (auto simp: below_limit_def)
  obtain w1 where g: "hash_table_grow w = Inr (0, w1)"
    using grow_ample [OF inv bs _ lt, of 1] al(1) by (auto simp: numeral_2_eq_2)
  obtain r where r: "find_probe bs (2 ^ q) k (hash_func k AND (2 ^ q - 1)) 0 None = Inr r" "find_post bs k r"
    using find_probe_post [OF q(1)] by blast
  show ?thesis
  proof (cases "drop_bit 2 (bucket_count (table w)) * 3 \<le> count (table w) \<or> r = Full")
    case True
    then have "find_or_create_loop ops k True w = find_or_create_loop ops k True w1"
      using find_or_create_loop.simps [of ops k True w] g bs r(1) q(3) by auto
    then show ?thesis
      using serves_after_growth [OF inv bs k ok al size lt g] res by metis
  next
    case False
    then show ?thesis
      using serves_in_place [OF inv bs k ample_mono [OF al(1)] al(2) _ _ r(2) _ res] r(1) q(3) by simp
  qed
qed

text \<open>The whole function: the first array counts as one of the two allocations.\<close>

theorem acquire_served:
  assumes inv: "world_inv w" and k: "valid_key k" and ok: "counts_ok w" and al: "ample 2 w" "init_succeeds ops w"
    and room: "below_limit w" and res: "hash_table_find_or_create ops k True w = Inr (p, w')"
  shows "p \<noteq> NULL"
proof (cases "buckets (table w)")
  case (Some bs)
  then show ?thesis
    using loop_serves [OF inv Some k ok al room] res by (simp add: hash_table_find_or_create_def)
next
  case None
  let ?first = "replicate (unat HASH_BUCKETS_INITIAL) zero_bucket"
  obtain a w1 where c: "c_calloc w = (a, w1)" "a \<noteq> NULL" "ample 1 w1" "table w1 = table w" "heap w1 = heap w"
      "os_script w1 = os_script w"
    using ample_calloc [of 1 w] al(1) by (auto simp: numeral_2_eq_2)
  let ?w = "w1\<lparr>table := (table w1)\<lparr>buckets := Some ?first, bucket_count := HASH_BUCKETS_INITIAL\<rparr>\<rparr>"
  have q: "quiet w ?w"
    using world_inv_first_array [OF inv None] c by blast
  have "count (table w) = 0"
    using inv None by (simp add: world_inv_def table_inv_def)
  then have low: "count (table ?w) < drop_bit 2 (bucket_count (table ?w)) * 3"
    using c(4) by (simp add: HASH_BUCKETS_INITIAL_def)
  have "?first \<noteq> []" "\<exists>b\<in>set ?first. key b = NULL"
    by (auto simp: HASH_BUCKETS_INITIAL_def zero_bucket_def)
  then show ?thesis
    using serves_with_slot [of ?w ?first k ops p w'] q k c al(2) low res None
    by (simp add: quiet_def init_succeeds_def hash_table_find_or_create_def ample_def)
qed

lemma max_length:
  assumes "world_inv w" and "buckets (table w) = Some bs" and "bucket_count (table w) = HASH_BUCKETS_MAX"
  shows "length bs = 2 ^ 20"
proof -
  obtain q where q: "pow2_len q bs" "bucket_count (table w) = 2 ^ q"
    using assms(1,2) table_inv_Some by (auto simp: world_inv_def)
  then show ?thesis
    using unat_bucket_count [OF q(1)] assms(3) by (simp add: HASH_BUCKETS_MAX_def)
qed

lemma length_max:
  assumes "world_inv w" and "buckets (table w) = Some bs" and "length bs = 2 ^ 20"
  shows "bucket_count (table w) = HASH_BUCKETS_MAX"
proof -
  obtain q where q: "pow2_len q bs" "bucket_count (table w) = 2 ^ q"
    using assms(1,2) table_inv_Some by (auto simp: world_inv_def)
  have "(2 :: nat) ^ q = 2 ^ 20"
    using q(1) assms(3) unfolding pow2_len_def by metis
  then have "q = 20"
    by (rule power_inject_exp [THEN iffD1, rotated]) simp
  then show ?thesis
    using q(2) by (simp add: HASH_BUCKETS_MAX_def)
qed

text \<open>
  At its largest size and at the load limit the table refuses every acquisition, also of an object that
  has a proxy: the load is tested before the search.
\<close>

theorem loaded_table_refuses:
  assumes inv: "world_inv w" and bs: "buckets (table w) = Some bs"
    and max: "bucket_count (table w) = HASH_BUCKETS_MAX"
    and load: "drop_bit 2 HASH_BUCKETS_MAX * 3 \<le> count (table w)"
  shows "hash_table_find_or_create ops k True w = Inr (NULL, w\<lparr>errno := ENOMEM\<rparr>)"
proof -
  have "pow2_len 20 bs"
    using max_length [OF inv bs max] by (simp add: pow2_len_def)
  then have g: "hash_table_grow w = Inr (-1, w\<lparr>errno := ENOMEM\<rparr>)"
    using hash_table_grow_full [OF _ bs] max by (simp add: HASH_BUCKETS_MAX_def)
  have "find_or_create_loop ops k True w = Inr (NULL, w\<lparr>errno := ENOMEM\<rparr>)"
    using find_or_create_loop.simps [of ops k True w] g load max by simp
  then show ?thesis
    by (simp add: hash_table_find_or_create_def bs)
qed

end
