(* ===== verification/Table_Growth.thy ===== *)
theory Table_Growth
  imports Table_Availability
begin

text \<open>
  What a call of \<open>hash_table_find_or_create\<close> costs: slots, array size and allocations. A call takes at most
  one slot that was empty, the array is doubled only when three quarters of its slots are in use or no
  slot is empty, and apart from one allocation every allocation doubles the array. So a table that has
  served few calls stays small, and enough memory for the calls to come means that all are served.
\<close>

section \<open>Slots in use\<close>

text \<open>Slots that are not empty: items and tombstones.\<close>

definition used :: "hash_bucket list \<Rightarrow> nat" where
  "used bs = length (filter (\<lambda>b. key b \<noteq> NULL) bs)"

lemma nlive_used: "nlive bs \<le> used bs"
  by (induction bs) (auto simp: nlive_def used_def live_def)

lemma used_no_tomb: "no_tomb bs \<Longrightarrow> used bs = nlive bs"
proof -
  assume "no_tomb bs"
  then have "filter (\<lambda>b. key b \<noteq> NULL) bs = filter live bs"
    by (intro filter_cong) (auto simp: no_tomb_def live_def valid_key_def in_set_conv_nth)
  then show ?thesis
    by (simp add: used_def nlive_def)
qed

lemma used_update: "used (bs[i := b]) \<le> Suc (used bs)"
proof (induction bs arbitrary: i)
  case (Cons a bs)
  then show ?case
    by (cases i) (simp_all add: used_def)
qed (simp add: used_def)

lemma used_same: "i < length bs \<Longrightarrow> key (bs ! i) \<noteq> NULL \<Longrightarrow> key b \<noteq> NULL \<Longrightarrow> used (bs[i := b]) = used bs"
proof (induction bs arbitrary: i)
  case (Cons a bs)
  then show ?case
    by (cases i) (auto simp: used_def)
qed (simp add: used_def)

lemma used_full: "(\<forall>i<length bs. key (bs ! i) \<noteq> NULL) \<Longrightarrow> used bs = length bs"
  unfolding used_def by (subst filter_True) (auto simp: in_set_conv_nth)

lemma loaded_used:
  assumes "pow2_len q bs" and "2 \<le> q" and "drop_bit 2 (2 ^ q :: u32) * 3 \<le> of_nat (nlive bs)"
  shows "3 * length bs \<le> 4 * used bs"
proof -
  have "3 * 2 ^ (q - 2) \<le> nlive bs"
    using assms(1,3) load_limit [OF assms(2)] unat_nlive [OF assms(1)] by (simp add: word_le_nat_alt pow2_len_def)
  then show ?thesis
    using power_quarter [OF assms(2)] assms(1) nlive_used [of bs] unfolding pow2_len_def by linarith
qed

section \<open>The cost of a call\<close>

definition call_cost :: "'p world \<Rightarrow> 'p world \<Rightarrow> bool" where
  "call_cost w w' \<longleftrightarrow>
     (\<exists>bs bs' j. buckets (table w) = Some bs \<and> buckets (table w') = Some bs' \<and> used bs' \<le> Suc (used bs) \<and>
        length bs \<le> length bs' \<and> 3 * length bs' \<le> max (3 * length bs) (8 * used bs) \<and>
        alloc_script w' = drop j (alloc_script w) \<and> 2 ^ j * length bs \<le> 2 * length bs' \<and>
        dom (heap w') \<subseteq> dom (heap w) \<union> fst ` set (take j (alloc_script w)))"

lemma call_costI:
  assumes "buckets (table w) = Some bs" and "buckets (table w') = Some bs'" and "used bs' \<le> Suc (used bs)"
    and "length bs \<le> length bs'" and "3 * length bs' \<le> max (3 * length bs) (8 * used bs)"
    and "alloc_script w' = drop j (alloc_script w)" and "2 ^ j * length bs \<le> 2 * length bs'"
    and "dom (heap w') \<subseteq> dom (heap w) \<union> fst ` set (take j (alloc_script w))"
  shows "call_cost w w'"
  unfolding call_cost_def using assms by blast

lemma call_cost_same:
  assumes "buckets (table w) = Some bs" and "buckets (table w') = Some bs" and "j \<le> 1"
    and "alloc_script w' = drop j (alloc_script w)" and "dom (heap w') \<subseteq> dom (heap w)"
  shows "call_cost w w'"
proof -
  have "2 ^ j * length bs \<le> 2 * length bs"
    using assms(3) by (cases j) simp_all
  then show ?thesis
    using call_costI [OF assms(1,2) _ _ _ assms(4)] assms(5) by auto
qed

lemma calloc_script: "alloc_script (snd (c_calloc w)) = drop 1 (alloc_script w)"
  by (auto simp: c_calloc_def split: list.splits)

lemma free_script_frame: "alloc_script (c_free w) = alloc_script w"
  by (simp add: c_free_def split: list.splits)

lemma grow_script:
  assumes "hash_table_grow w = Inr (g, w1)"
  shows "\<exists>j\<le>1. alloc_script w1 = drop j (alloc_script w)"
proof -
  have "alloc_script w1 = alloc_script w \<or> alloc_script w1 = alloc_script (snd (c_calloc w))"
    using assms unfolding hash_table_grow_def Let_def
    by (auto simp: free_script_frame split: if_splits prod.splits option.splits sum.splits)
  then show ?thesis
    using calloc_script [of w] by (metis drop0 le_numeral_extra(1) order_refl zero_le_one)
qed

lemma cost_grow_fails:
  assumes "world_inv w" and "buckets (table w) = Some bs" and "hash_table_grow w = Inr (g, w1)" and "g \<noteq> 0"
  shows "call_cost w w1"
proof -
  have "table w1 = table w" "heap w1 = heap w"
    using hash_table_grow_ok [OF assms(1,2)] assms(3,4) by (auto simp: quiet_def)
  then show ?thesis
    using grow_script [OF assms(3)] call_cost_same [OF assms(2), of w1] assms(2) by auto
qed

lemma cost_after_growth:
  assumes w: "world_inv w" "buckets (table w) = Some bs" and g: "hash_table_grow w = Inr (0, w1)"
    and full: "3 * length bs \<le> 4 * used bs" and rest: "call_cost w1 w'"
  shows "call_cost w w'"
proof -
  obtain bs1 where b1: "heap w1 = heap w" "alloc_script w1 = drop 1 (alloc_script w)" "buckets (table w1) = Some bs1"
      "used bs1 \<le> used bs" "length bs1 = 2 * length bs"
    using hash_table_grow_ok [OF w] g used_no_tomb nlive_used [of bs] calloc_script [of w]
    by (fastforce simp: quiet_def)
  then obtain bs' j where c: "buckets (table w') = Some bs'" "used bs' \<le> Suc (used bs1)" "length bs1 \<le> length bs'"
      "3 * length bs' \<le> max (3 * length bs1) (8 * used bs1)" "alloc_script w' = drop j (drop 1 (alloc_script w))"
      "2 ^ j * length bs1 \<le> 2 * length bs'"
      "dom (heap w') \<subseteq> dom (heap w) \<union> fst ` set (take j (drop 1 (alloc_script w)))"
    using rest unfolding call_cost_def by fastforce
  have "set (take j (drop 1 (alloc_script w))) \<subseteq> set (take (Suc j) (alloc_script w))"
    by (cases "alloc_script w") auto
  then have "dom (heap w') \<subseteq> dom (heap w) \<union> fst ` set (take (Suc j) (alloc_script w))"
    using c(7) by blast
  then show ?thesis
    using call_costI [OF w(2) c(1), of "Suc j"] c b1 full by (auto simp: max_def split: if_splits)
qed

lemma cost_create:
  assumes "buckets (table w) = Some bs" and "create_at ops k i b w = (p, w')"
  shows "call_cost w w'"
proof -
  obtain p1 w1 where al: "c_calloc w = (p1, w1)"
    by (cases "c_calloc w")
  have frame: "table w1 = table w" "heap w1 = heap w" "alloc_script w1 = drop 1 (alloc_script w)"
    using c_calloc_frame [OF al] calloc_script [of w] al by simp_all
  have new: "p1 \<noteq> NULL \<Longrightarrow> p1 \<in> fst ` set (take 1 (alloc_script w))"
    using al by (auto simp: c_calloc_def split: list.splits if_splits)
  obtain b' where b: "buckets (table w') = Some (bs[i := b'])" "alloc_script w' = drop 1 (alloc_script w)"
    using assms al frame
    by (auto simp: create_at_def set_bucket_def free_script_frame Let_def split: if_splits prod.splits)
  have "dom (heap w') \<subseteq> dom (heap w) \<union> {x. x = p1 \<and> x \<noteq> NULL}"
    using assms(2) al frame by (auto simp: create_at_def set_bucket_def Let_def split: if_splits prod.splits)
  then have "dom (heap w') \<subseteq> dom (heap w) \<union> fst ` set (take 1 (alloc_script w))"
    using new by blast
  then show ?thesis
    using call_costI [OF assms(1) b(1) used_update _ _ b(2)] by simp
qed

theorem loop_cost:
  assumes "world_inv w" and "buckets (table w) = Some bs" and "2 ^ 10 \<le> length bs"
    and "find_or_create_loop ops k inc w = Inr (p, w')"
  shows "call_cost w w'"
  using assms
proof (induction ops k inc w arbitrary: bs rule: find_or_create_loop.induct)
  case (1 ops k inc w)
  obtain q where q: "pow2_len q bs" "slots_inv bs" "bucket_count (table w) = 2 ^ q" "count (table w) = of_nat (nlive bs)"
    using "1.prems"(1,2) table_inv_Some by (auto simp: world_inv_def)
  have "2 \<le> q"
    using "1.prems"(3) q(1) power_increasing [of q 1 "2 :: nat"] by (auto simp: pow2_len_def intro!: leI)
  obtain r where r: "find_probe bs (2 ^ q) k (hash_func k AND (2 ^ q - 1)) 0 None = Inr r" "find_post bs k r"
    using find_probe_post [OF q(1)] by blast
  let ?load = "inc \<and> drop_bit 2 (bucket_count (table w)) * 3 \<le> count (table w)"
  note unfold = find_or_create_loop.simps [of ops k inc w]
  have grow: "call_cost w w'"
    if "find_or_create_loop ops k inc w =
        (case hash_table_grow w of Inl e \<Rightarrow> Inl e
         | Inr (r, w1) \<Rightarrow> if r \<noteq> 0 then Inr (NULL, w1) else find_or_create_loop ops k inc w1)"
      and full: "3 * length bs \<le> 4 * used bs"
      and IH: "\<And>g w1 bs. hash_table_grow w = Inr (g, w1) \<Longrightarrow> \<not> g \<noteq> 0 \<Longrightarrow> world_inv w1 \<Longrightarrow>
        buckets (table w1) = Some bs \<Longrightarrow> 2 ^ 10 \<le> length bs \<Longrightarrow> find_or_create_loop ops k inc w1 = Inr (p, w') \<Longrightarrow>
        call_cost w1 w'"
  proof -
    obtain g w1 where g: "hash_table_grow w = Inr (g, w1)" "quiet w w1"
        "g = 0 \<Longrightarrow> \<exists>bs1. buckets (table w1) = Some bs1 \<and> length bs1 = 2 * length bs"
      using hash_table_grow_ok [OF "1.prems"(1,2)] by fastforce
    show ?thesis
    proof (cases "g = 0")
      case True
      then have "call_cost w1 w'"
        using IH [OF g(1)] g that(1) "1.prems"(3,4) by (auto simp: quiet_def)
      then show ?thesis
        using cost_after_growth [OF "1.prems"(1,2) _ full] g(1) True by simp
    next
      case False
      then show ?thesis
        using cost_grow_fails [OF "1.prems"(1,2) g(1)] that(1) "1.prems"(4) g(1) by simp
    qed
  qed
  show ?case
  proof (cases ?load)
    case True
    then have "3 * length bs \<le> 4 * used bs"
      using loaded_used [OF q(1) \<open>2 \<le> q\<close>] q by simp
    then show ?thesis
      using grow "1.IH"(1) [OF True] unfold True by simp
  next
    case False
    show ?thesis
    proof (cases r)
      case (Hit i)
      then have "buckets (table w') = Some bs \<and> alloc_script w' = alloc_script w \<and> dom (heap w') \<subseteq> dom (heap w)"
        using "1.prems"(2,4) unfold False r(1) q(3)
        by (auto simp: use_found_def res_bind_Inr_iff split: if_splits option.splits)
      then show ?thesis
        using call_cost_same [OF "1.prems"(2), of w' 0] by simp
    next
      case (Vacant i)
      then show ?thesis
        using "1.prems"(2,4) unfold False r(1) q(3) cost_create [OF "1.prems"(2), of ops k i "bs ! i" p w']
          call_cost_same [OF "1.prems"(2), of w 0]
        by (auto split: if_splits)
    next
      case Full
      then have "3 * length bs \<le> 4 * used bs"
        using used_full [of bs] find_post_Full [OF q(2), of k] r(2) by simp
      then show ?thesis
        using grow "1.IH"(2) [OF False "1.prems"(2)] unfold False r(1) q(3) "1.prems"(2) Full by simp
    qed
  qed
qed

section \<open>Memory for the calls to come\<close>

text \<open>
  The allocator has answers for \<open>n\<close> more calls and for all the arrays that can follow, at addresses that are
  free and differ from each other, and at most \<open>u\<close> slots are in use.
\<close>

definition serving :: "nat \<Rightarrow> nat \<Rightarrow> 'p world \<Rightarrow> bool" where
  "serving n u w \<longleftrightarrow>
     distinct (map fst (alloc_script w)) \<and> fst ` set (alloc_script w) \<inter> insert NULL (dom (heap w)) = {} \<and>
     (case buckets (table w) of
        None \<Rightarrow> n + 11 \<le> length (alloc_script w)
      | Some bs \<Rightarrow>
          used bs \<le> u \<and> 2 ^ 10 \<le> length bs \<and> 3 * length bs \<le> max (3 * 2 ^ 10) (8 * u) \<and>
          (\<exists>q\<le>20. length bs = 2 ^ q \<and> n + (20 - q) \<le> length (alloc_script w)))"

lemma serving_fresh:
  assumes "distinct (map fst xs)" and "fst ` set xs \<inter> insert NULL D = {}" and "D' \<subseteq> D \<union> fst ` set (take j xs)"
  shows "distinct (map fst (drop j xs)) \<and> fst ` set (drop j xs) \<inter> insert NULL D' = {}"
proof -
  have "distinct (map fst (take j xs) @ map fst (drop j xs))"
    using assms(1) by (metis append_take_drop_id map_append)
  then have "distinct (map fst (drop j xs))" "fst ` set (take j xs) \<inter> fst ` set (drop j xs) = {}"
    by auto
  moreover have "fst ` set (drop j xs) \<subseteq> fst ` set xs"
    using set_drop_subset by (rule image_mono)
  ultimately show ?thesis
    using assms(2,3) by blast
qed

lemma serving_cost:
  assumes inv: "world_inv w'" and cost: "call_cost w w'" and s: "serving (Suc n) u w"
  shows "serving n (Suc u) w'"
proof -
  obtain bs bs' j where c: "buckets (table w) = Some bs" "buckets (table w') = Some bs'" "used bs' \<le> Suc (used bs)"
      "length bs \<le> length bs'" "3 * length bs' \<le> max (3 * length bs) (8 * used bs)"
      "alloc_script w' = drop j (alloc_script w)" "2 ^ j * length bs \<le> 2 * length bs'"
      "dom (heap w') \<subseteq> dom (heap w) \<union> fst ` set (take j (alloc_script w))"
    using cost unfolding call_cost_def by blast
  obtain q where q: "used bs \<le> u" "2 ^ 10 \<le> length bs" "3 * length bs \<le> max (3 * 2 ^ 10) (8 * u)" "q \<le> 20"
      "length bs = 2 ^ q" "Suc n + (20 - q) \<le> length (alloc_script w)"
    using s c(1) unfolding serving_def by auto
  obtain q' where q': "length bs' = 2 ^ q'" "q' \<le> 20"
    using inv c(2) table_inv_Some [of "table w'"] by (auto simp: world_inv_def pow2_len_def)
  have "(2 :: nat) ^ (j + q) \<le> 2 ^ Suc q'"
    using c(7) q(5) q'(1) by (simp add: power_add)
  then have "j + q \<le> Suc q'"
    by (rule power_le_imp_le_exp [rotated]) simp
  then have "n + (20 - q') \<le> length (alloc_script w')"
    using c(6) q(4,6) q'(2) by simp
  moreover have "3 * length bs' \<le> max (3 * 2 ^ 10) (8 * Suc u)"
    using c(5) q(1,3) by (auto simp: max_def split: if_splits)
  moreover have "2 ^ 10 \<le> length bs'"
    using c(4) q(2) by linarith
  ultimately show ?thesis
    using serving_fresh [OF _ _ c(8)] s c(2,3,6) q(1) q' unfolding serving_def by auto
qed

lemma serving_first:
  assumes none: "buckets (table w) = None" and s: "serving n u w"
  obtains p w1 where "c_calloc w = (p, w1)" "p \<noteq> NULL" "table w1 = table w" "heap w1 = heap w"
    "os_script w1 = os_script w"
    "serving n u (w1\<lparr>table := (table w1)\<lparr>buckets := Some (replicate (unat HASH_BUCKETS_INITIAL) zero_bucket),
        bucket_count := HASH_BUCKETS_INITIAL\<rparr>\<rparr>)"
proof -
  obtain p e r where x: "alloc_script w = (p, e) # r" "n + 10 \<le> length r"
    using s none by (cases "alloc_script w") (auto simp: serving_def)
  let ?w1 = "w\<lparr>alloc_script := r, errno := e\<rparr>"
  have "c_calloc w = (p, ?w1)" "p \<noteq> NULL"
    using s x(1) by (auto simp: c_calloc_def serving_def)
  moreover have "used (replicate (unat HASH_BUCKETS_INITIAL) zero_bucket) = 0"
    by (simp add: used_def zero_bucket_def)
  then have "serving n u (?w1\<lparr>table := (table ?w1)\<lparr>buckets := Some (replicate (unat HASH_BUCKETS_INITIAL) zero_bucket),
      bucket_count := HASH_BUCKETS_INITIAL\<rparr>\<rparr>)"
    using s x by (auto simp: serving_def HASH_BUCKETS_INITIAL_def intro!: exI [of _ 10])
  ultimately show thesis
    using that [of p ?w1] by simp
qed

theorem serving_call:
  assumes inv: "world_inv w" "world_inv w'" and s: "serving (Suc n) u w"
    and res: "hash_table_find_or_create ops k inc w = Inr (p, w')"
  shows "serving n (Suc u) w'"
proof (cases "buckets (table w)")
  case (Some bs)
  have "2 ^ 10 \<le> length bs"
    using s Some by (simp add: serving_def)
  then have "call_cost w w'"
    using loop_cost [OF inv(1) Some] res Some by (simp add: hash_table_find_or_create_def)
  then show ?thesis
    by (rule serving_cost [OF inv(2) _ s])
next
  case None
  obtain a w1 where c: "c_calloc w = (a, w1)" "a \<noteq> NULL" "table w1 = table w" "heap w1 = heap w"
      "os_script w1 = os_script w" "serving (Suc n) u (w1\<lparr>table := (table w1)
         \<lparr>buckets := Some (replicate (unat HASH_BUCKETS_INITIAL) zero_bucket), bucket_count := HASH_BUCKETS_INITIAL\<rparr>\<rparr>)"
        (is "serving _ _ ?w")
    using serving_first [OF None s] by metis
  have "world_inv ?w"
    using world_inv_first_array [OF inv(1) None c(3-5)] by (simp add: quiet_def)
  then have "call_cost ?w w'"
    using loop_cost [of ?w "replicate (unat HASH_BUCKETS_INITIAL) zero_bucket" ops k inc p w'] res None c(1,2)
    by (simp add: hash_table_find_or_create_def HASH_BUCKETS_INITIAL_def)
  then show ?thesis
    by (rule serving_cost [OF inv(2) _ c(6)])
qed

lemma serving_ample:
  assumes "serving (Suc (Suc n)) u w"
  shows "ample 2 w"
proof -
  have "2 \<le> length (alloc_script w)"
    using assms by (auto simp: serving_def split: option.splits)
  moreover have "p \<noteq> NULL \<and> heap w p = None" if "(p, e) \<in> set (alloc_script w)" for p e
    using assms that by (force simp: serving_def)
  ultimately show ?thesis
    using set_take_subset [of 2 "alloc_script w"] by (auto simp: ample_def)
qed

lemma serving_limit:
  assumes inv: "world_inv w" and s: "serving n u w" and u: "8 * u < 3 * 2 ^ 20"
  shows "below_limit w"
proof (cases "buckets (table w)")
  case (Some bs)
  obtain q where q: "pow2_len q bs" "bucket_count (table w) = 2 ^ q"
    using inv Some table_inv_Some by (auto simp: world_inv_def)
  have len: "2 ^ 10 \<le> length bs" "length bs < 2 ^ 20"
    using s Some u by (auto simp: serving_def max_def split: if_splits)
  have "unat (bucket_count (table w)) = length bs"
    using unat_bucket_count [OF q(1)] q by simp
  then show ?thesis
    using len Some by (simp add: below_limit_def word_less_nat_alt word_le_nat_alt HASH_BUCKETS_INITIAL_def HASH_BUCKETS_MAX_def)
qed (simp add: below_limit_def)

text \<open>A removal turns a slot into a tombstone and needs no memory.\<close>

lemma serving_remove:
  assumes inv: "world_inv w" and k: "lookup w k = Some p" and s: "serving n u w"
    and res: "hash_table_remove_item ops k w = Inr w'"
  shows "serving n u w'"
proof -
  obtain bs q i where b: "buckets (table w) = Some bs" "bucket_count (table w) = 2 ^ q" "valid_key k" "i < length bs"
      "key (bs ! i) = k" "remove_probe bs (2 ^ q) k (hash_func k AND (2 ^ q - 1)) 0 = Inr (Some i)"
    using slot_of_lookup [OF inv k] by metis
  let ?b = "\<lparr>proxy = NULL, key = HASH_BUCKET_DELETED\<rparr>"
  have "buckets (table w') = Some (bs[i := ?b])" "alloc_script w' = alloc_script w" "dom (heap w') \<subseteq> dom (heap w)"
    using res b
    by (auto simp: hash_table_remove_item_def set_bucket_def free_script_frame Let_def
        split: option.splits if_splits prod.splits)
  moreover have "used (bs[i := ?b]) = used bs"
    using used_same [of i bs ?b] b(3-5) by (auto simp: HASH_BUCKET_DELETED_def valid_key_def)
  ultimately show ?thesis
    using s b(1) by (auto simp: serving_def)
qed

end
