(* ===== verification/Table_Refinement.thy ===== *)
theory Table_Refinement
  imports Proxy_Kinds
begin

text \<open>
  The proxy table as an abstract data type. The specification is a step relation on finite maps from
  object addresses to a proxy address and a number of users: an acquisition may fail, shares the
  proxy of an object that has one and otherwise enters a new one at an unused address; a search
  reports the proxy; a release takes one user away and drops the entry with the last one. Every
  sequence of calls that keeps the client's side (an object is released only by a user of its proxy)
  is shown to run without a fault and to give results the specification allows.
\<close>

section \<open>The specification\<close>

datatype table_op = Take ptr | Seek ptr | Give ptr ptr

type_synonym refs = "ptr \<rightharpoonup> ptr \<times> nat"

inductive spec_step :: "table_op \<Rightarrow> ptr \<Rightarrow> refs \<Rightarrow> refs \<Rightarrow> bool" where
  refuse: "spec_step (Take k) NULL m m"
| share: "m k = Some (p, n) \<Longrightarrow> spec_step (Take k) p m (m(k \<mapsto> (p, Suc n)))"
| enter: "m k = None \<Longrightarrow> p \<noteq> NULL \<Longrightarrow> \<forall>j n. m j \<noteq> Some (p, n) \<Longrightarrow>
    spec_step (Take k) p m (m(k \<mapsto> (p, 1)))"
| found: "m k = Some (p, n) \<Longrightarrow> spec_step (Seek k) p m m"
| absent: "m k = None \<Longrightarrow> spec_step (Seek k) NULL m m"
| leave: "m k = Some (p, Suc (Suc n)) \<Longrightarrow> spec_step (Give k p) p m (m(k \<mapsto> (p, Suc n)))"
| drop: "m k = Some (p, 1) \<Longrightarrow> spec_step (Give k p) p m (m(k := None))"

inductive spec_run :: "table_op list \<Rightarrow> ptr list \<Rightarrow> refs \<Rightarrow> refs \<Rightarrow> bool" where
  spec_Nil: "spec_run [] [] m m"
| spec_Cons: "spec_step c r m m1 \<Longrightarrow> spec_run cs rs m1 m2 \<Longrightarrow> spec_run (c # cs) (r # rs) m m2"

section \<open>The code\<close>

fun table_step :: "('p, 'o) proxy_ops_scheme \<Rightarrow> table_op \<Rightarrow> 'p world \<Rightarrow> (ptr \<times> 'p world) res" where
  "table_step ops (Take k) w = hash_table_find_or_create ops k True w"
| "table_step ops (Seek k) w = hash_table_find_or_create ops k False w"
| "table_step ops (Give k p) w = res_bind (release_item ops k p w) (\<lambda>w1. Inr (p, w1))"

fun table_run :: "('p, 'o) proxy_ops_scheme \<Rightarrow> table_op list \<Rightarrow> 'p world \<Rightarrow> (ptr list \<times> 'p world) res"
  where
  "table_run ops [] w = Inr ([], w)"
| "table_run ops (c # cs) w =
     res_bind (table_step ops c w) (\<lambda>(r, w1).
     res_bind (table_run ops cs w1) (\<lambda>(rs, w2). Inr (r # rs, w2)))"

text \<open>The abstraction: the view without the payloads.\<close>

definition refs :: "'p world \<Rightarrow> refs" where
  "refs w k = map_option (\<lambda>(p, n, a). (p, n)) (view w k)"

text \<open>What the client owes: valid keys, and only users release.\<close>

fun allowed :: "table_op \<Rightarrow> refs \<Rightarrow> bool" where
  "allowed (Take k) m \<longleftrightarrow> valid_key k"
| "allowed (Seek k) m \<longleftrightarrow> valid_key k"
| "allowed (Give k p) m \<longleftrightarrow> (\<exists>n. m k = Some (p, n))"

fun client_ok :: "('p, 'o) proxy_ops_scheme \<Rightarrow> table_op list \<Rightarrow> 'p world \<Rightarrow> bool" where
  "client_ok ops [] w \<longleftrightarrow> True"
| "client_ok ops (c # cs) w \<longleftrightarrow>
     allowed c (refs w) \<and> (case table_step ops c w of Inl e \<Rightarrow> True | Inr (r, w1) \<Rightarrow> client_ok ops cs w1)"

text \<open>No count can reach the maximum of \<open>int\<close> within \<open>n\<close> calls.\<close>

definition room :: "nat \<Rightarrow> refs \<Rightarrow> bool" where
  "room n m \<longleftrightarrow> int n < INT_MAX \<and> (\<forall>k p c. m k = Some (p, c) \<longrightarrow> int (c + n) < INT_MAX)"

section \<open>The simulation\<close>

lemma refs_Some: "refs w k = Some (p, n) \<longleftrightarrow> (\<exists>a. view w k = Some (p, n, a))"
  by (auto simp: refs_def)

lemma refs_upd: "view w' = (view w)(k \<mapsto> (p, n, a)) \<Longrightarrow> refs w' = (refs w)(k \<mapsto> (p, n))"
  by (auto simp: refs_def fun_eq_iff)

lemma refs_del: "view w' = (view w)(k := None) \<Longrightarrow> refs w' = (refs w)(k := None)"
  by (auto simp: refs_def fun_eq_iff)

lemma spec_step_counts:
  assumes "spec_step c r m m'" and "m' k = Some (p, i)"
  shows "i \<le> 1 \<or> (\<exists>j. m k = Some (p, j) \<and> i \<le> Suc j)"
  using assms by (cases rule: spec_step.cases) (auto split: if_splits)

lemma spec_step_room:
  assumes "spec_step c r m m'" and "room (Suc n) m"
  shows "room n m'"
proof -
  have "int (i + n) < INT_MAX" if "m' k = Some (p, i)" for k p i
    using spec_step_counts [OF assms(1) that] assms(2) unfolding room_def by fastforce
  then show ?thesis
    using assms(2) by (simp add: room_def)
qed

context proxy_backend
begin

lemma acquire_refines:
  assumes good: "good_world calm w" and k: "valid_key k" and room: "room (Suc n) (refs w)"
  shows "\<exists>r w'. table_step ops (Take k) w = Inr (r, w') \<and> good_world calm w'
    \<and> spec_step (Take k) r (refs w) (refs w')"
proof -
  have small: "\<forall>k p n a. view w k = Some (p, n, a) \<longrightarrow> int n < INT_MAX"
    using room by (fastforce simp: room_def refs_def)
  obtain r w' where f: "hash_table_find_or_create ops k True w = Inr (r, w')" "good_world calm w'"
    and c: "r = NULL \<and> view w' = view w \<or>
      r \<noteq> NULL \<and> (\<exists>n a. view w k = Some (r, n, a) \<and> view w' = (view w)(k \<mapsto> (r, Suc n, a))) \<or>
      r \<noteq> NULL \<and> view w k = None \<and> (\<exists>a. init_value ops a \<and> view w' = (view w)(k \<mapsto> (r, 1, a)))"
    using acquire_law [OF good k small] by blast
  consider (refused) "r = NULL" "view w' = view w"
    | (shared) n a where "view w k = Some (r, n, a)" "view w' = (view w)(k \<mapsto> (r, Suc n, a))"
    | (entered) a where "r \<noteq> NULL" "view w k = None" "view w' = (view w)(k \<mapsto> (r, 1, a))"
    using c by blast
  then have "spec_step (Take k) r (refs w) (refs w')"
  proof cases
    case refused
    then have "refs w' = refs w"
      by (simp add: refs_def fun_eq_iff)
    then show ?thesis
      using refused(1) refuse by simp
  next
    case (shared n a)
    then have "refs w k = Some (r, n)"
      by (simp add: refs_def)
    then show ?thesis
      using share refs_upd [OF shared(2)] by simp
  next
    case (entered a)
    have "\<forall>j n. refs w j \<noteq> Some (r, n)"
    proof (intro allI notI)
      fix j n assume "refs w j = Some (r, n)"
      then obtain b where b: "view w j = Some (r, n, b)"
        unfolding refs_Some by blast
      have j: "j \<noteq> k"
        using b entered(2) by auto
      have "view w' j = Some (r, n, b)" "view w' k = Some (r, 1, a)"
        unfolding entered(3) using b j by simp_all
      then show False
        using view_unique [OF f(2)] j by blast
    qed
    moreover have "refs w k = None"
      using entered(2) by (simp add: refs_def)
    ultimately show ?thesis
      using enter entered(1) refs_upd [OF entered(3)] by simp
  qed
  then show ?thesis
    using f by simp
qed

lemma search_refines:
  assumes good: "good_world calm w" and k: "valid_key k"
  shows "\<exists>r w'. table_step ops (Seek k) w = Inr (r, w') \<and> good_world calm w'
    \<and> spec_step (Seek k) r (refs w) (refs w')"
proof -
  obtain w' where f: "hash_table_find_or_create ops k False w =
        Inr (case view w k of None \<Rightarrow> NULL | Some (p, _) \<Rightarrow> p, w')" "good_world calm w'" "view w' = view w"
    using search_law [OF good k] by blast
  have "refs w' = refs w"
    using f(3) by (simp add: refs_def [abs_def])
  moreover have "spec_step (Seek k) (case view w k of None \<Rightarrow> NULL | Some (p, _) \<Rightarrow> p) (refs w) (refs w)"
  proof (cases "view w k")
    case None
    then show ?thesis
      using absent [of "refs w" k] by (simp add: refs_def)
  next
    case (Some x)
    then show ?thesis
      using found [of "refs w" k] by (cases x) (auto simp: refs_def)
  qed
  ultimately show ?thesis
    using f by simp
qed

lemma release_refines:
  assumes good: "good_world calm w" and p: "refs w k = Some (p, n)" and room: "room (Suc j) (refs w)"
  shows "\<exists>r w'. table_step ops (Give k p) w = Inr (r, w') \<and> good_world calm w'
    \<and> spec_step (Give k p) r (refs w) (refs w')"
proof -
  obtain a where v: "view w k = Some (p, n, a)"
    using p by (auto simp: refs_Some)
  obtain m where m: "n = Suc m"
    using view_proper [OF good v] gr0_conv_Suc by auto
  have "int m < INT_MAX"
    using room p m by (force simp: room_def)
  then obtain w' where w': "release_item ops k p w = Inr w'" "good_world calm w'"
      "view w' = (view w)(k := if m = 0 then None else Some (p, m, a))"
    using release_law [of w k p m a] good v m by auto
  have "spec_step (Give k p) p (refs w) (refs w')"
  proof (cases m)
    case 0
    then show ?thesis
      using drop [of "refs w" k p] p m w'(3) refs_del [of w' w k] by simp
  next
    case (Suc i)
    then show ?thesis
      using leave [of "refs w" k p i] p m w'(3) refs_upd [of w' w k p m a] by simp
  qed
  then show ?thesis
    using w' by simp
qed

lemma step_refines:
  assumes "good_world calm w" and "allowed c (refs w)" and "room (Suc n) (refs w)"
  shows "\<exists>r w'. table_step ops c w = Inr (r, w') \<and> good_world calm w' \<and> spec_step c r (refs w) (refs w')"
  using assms acquire_refines search_refines release_refines by (cases c) (simp; blast)+

theorem run_refines:
  assumes "good_world calm w" and "client_ok ops cs w" and "room (length cs) (refs w)"
  shows "\<exists>rs w'. table_run ops cs w = Inr (rs, w') \<and> good_world calm w' \<and> spec_run cs rs (refs w) (refs w')"
  using assms
proof (induction cs arbitrary: w)
  case Nil
  then show ?case
    by (auto intro: spec_Nil)
next
  case (Cons c cs)
  obtain r w1 where s: "table_step ops c w = Inr (r, w1)" "good_world calm w1"
      "spec_step c r (refs w) (refs w1)"
    using step_refines [of w c "length cs"] Cons.prems by auto
  then obtain rs w2 where "table_run ops cs w1 = Inr (rs, w2)" "good_world calm w2"
      "spec_run cs rs (refs w1) (refs w2)"
    using Cons.IH [of w1] Cons.prems spec_step_room by fastforce
  then show ?case
    using s spec_Cons by fastforce
qed

end

end
