(* ===== verification/Whitebox_Tests.thy ===== *)
theory Whitebox_Tests
  imports Table_Growth Table_Refinement
begin

text \<open>
  The two white-box tests of \<^verbatim>\<open>src/test\<close>, which drive the proxy table and the pthreads proxy from one thread, as
  functions that count the checks that fail, and the proof that none does: for the table with any even
  number of keys from 1026 up to \<open>2 ^ 16\<close>, given enough memory, instead of the 5000 of the test.
\<close>

section \<open>The tests\<close>

text \<open>What \<open>CHECK\<close> adds to \<open>ret\<close>.\<close>

definition check :: "bool \<Rightarrow> nat" where
  "check b = (if b then 0 else 1)"

text \<open>The loops of \<open>hash_table_whitebox_test_main\<close>, over a list of indices into \<open>keys\<close> and \<open>proxies\<close>.\<close>

fun insert_keys ::
  "('p, 'o) proxy_ops_scheme \<Rightarrow> ptr list \<Rightarrow> nat list \<Rightarrow> ptr list \<Rightarrow> 'p world \<Rightarrow> (nat \<times> ptr list \<times> 'p world) res" where
  "insert_keys ops keys [] proxies w = Inr (0, proxies, w)"
| "insert_keys ops keys (i # is) proxies w =
     res_bind (hash_table_find_or_create ops (keys ! i) True w) (\<lambda>(p, w1).
     res_bind (insert_keys ops keys is (proxies[i := p]) w1) (\<lambda>(ret, proxies', w2).
       Inr (check (p \<noteq> NULL) + ret, proxies', w2)))"

fun find_keys ::
  "('p, 'o) proxy_ops_scheme \<Rightarrow> ptr list \<Rightarrow> nat list \<Rightarrow> (nat \<Rightarrow> ptr) \<Rightarrow> 'p world \<Rightarrow> (nat \<times> 'p world) res" where
  "find_keys ops keys [] want w = Inr (0, w)"
| "find_keys ops keys (i # is) want w =
     res_bind (hash_table_find_or_create ops (keys ! i) False w) (\<lambda>(p, w1).
     res_bind (find_keys ops keys is want w1) (\<lambda>(ret, w2). Inr (check (p = want i) + ret, w2)))"

fun remove_keys ::
  "('p, 'o) proxy_ops_scheme \<Rightarrow> ptr list \<Rightarrow> ptr list \<Rightarrow> nat list \<Rightarrow> 'p world \<Rightarrow> 'p world res" where
  "remove_keys ops keys proxies [] w = Inr w"
| "remove_keys ops keys proxies (i # is) w =
     (case heap w (proxies ! i) of
        None \<Rightarrow> Inl Bad_Deref
      | Some px \<Rightarrow>
          res_bind (hash_table_remove_item ops (keys ! i)
              (w\<lparr>heap := (heap w)(proxies ! i \<mapsto> px\<lparr>use_count := 0\<rparr>)\<rparr>)) (\<lambda>w1.
            remove_keys ops keys proxies is w1))"

definition hash_table_whitebox_test ::
  "('p, 'o) proxy_ops_scheme \<Rightarrow> ptr list \<Rightarrow> 'p world \<Rightarrow> (nat \<times> 'p world) res" where
  "hash_table_whitebox_test ops keys w =
     (let n = length keys; every = [0..<n]; even_ones = filter even every;
          w0 = w\<lparr>table := snd (hash_table_lock (table w))\<rparr>
      in res_bind (insert_keys ops keys every (replicate n NULL) w0) (\<lambda>(r1, proxies, w1).
         res_bind (find_keys ops keys every (\<lambda>i. proxies ! i) w1) (\<lambda>(r2, w2).
         res_bind (remove_keys ops keys proxies even_ones w2) (\<lambda>w3.
         res_bind (find_keys ops keys every (\<lambda>i. if odd i then proxies ! i else NULL) w3) (\<lambda>(r3, w4).
         res_bind (insert_keys ops keys even_ones proxies w4) (\<lambda>(r4, proxies', w5).
         res_bind (find_keys ops keys every (\<lambda>i. proxies' ! i) w5) (\<lambda>(r5, w6).
         res_bind (remove_keys ops keys proxies' every w6) (\<lambda>w7.
         res_bind (find_keys ops keys every (\<lambda>i. NULL) w7) (\<lambda>(r6, w8).
           Inr (r1 + check (bucket_count (table w1) > HASH_BUCKETS_INITIAL) + check (count (table w1) = of_nat n)
                + r2 + check (count (table w3) = of_nat (n - n div 2)) + r3 + r4 + check (count (table w5) = of_nat n)
                + r5 + check (count (table w7) = 0) + r6,
                w8\<lparr>table := hash_table_unlock (table w8)\<rparr>))))))))))"

text \<open>
  The four parts of \<open>pthreads_proxy_whitebox_test_main\<close>. A call of \<open>pthread_proxy_wait\<close> is its part up to the
  blocking call: \<open>None\<close>, a thread that blocks, fails the check that it returns 0. The proxy is destroyed after
  each part with the result ignored; the next part initialises it again.
\<close>

definition wake_from :: "u32 \<Rightarrow> int \<Rightarrow> pthreads_proxy \<Rightarrow> pthreads_proxy" where
  "wake_from m registered p = snd (snd (pthread_proxy_wake [] m registered 0 p))"

definition set_up :: "int \<Rightarrow> pthreads_proxy \<Rightarrow> nat \<times> pthreads_proxy" where
  "set_up n p = (case pthread_proxy_init all_succeed p of (r, p1, s) \<Rightarrow> (check (r = 0), p1\<lparr>waiting := n, pending := 0\<rparr>))"

definition wait_twice :: "pthreads_proxy \<Rightarrow> nat" where
  "wait_twice p =
     (case pthread_proxy_park 0 0 p of (r1, p1) \<Rightarrow>
        check (r1 = Some 0) + check (fst (pthread_proxy_park 0 0 p1) = Some 0))"

definition wake_all_covers_registered :: "pthreads_proxy \<Rightarrow> nat" where
  "wake_all_covers_registered p =
     (case set_up 1 p of (r, p0) \<Rightarrow>
        let p1 = wake_from WAKE_ALL 2 p0 in r + check (pending p1 = 2) + wait_twice p1)"

fun wake_all_times :: "nat \<Rightarrow> pthreads_proxy \<Rightarrow> nat" where
  "wake_all_times 0 p = 0"
| "wake_all_times (Suc n) p =
     (let p1 = wake_from WAKE_ALL 2 p in check (pending p1 = 2) + check (pending p1 \<le> 2) + wake_all_times n p1)"

definition wake_all_bounded :: "pthreads_proxy \<Rightarrow> nat" where
  "wake_all_bounded p = (case set_up 1 p of (r, p0) \<Rightarrow> r + wake_all_times 10 p0)"

definition wake_one_bounded :: "pthreads_proxy \<Rightarrow> nat" where
  "wake_one_bounded p =
     (case set_up 2 p of (r, p0) \<Rightarrow>
        let p1 = wake_from 1 2 (wake_from 1 2 (wake_from 1 2 p0)) in r + check (pending p1 = 2) + wait_twice p1)"

definition wake_all_floor :: "pthreads_proxy \<Rightarrow> nat" where
  "wake_all_floor p =
     (case set_up 0 p of (r, p0) \<Rightarrow> r + check (pending (wake_from WAKE_ALL 0 p0) = 1))"

definition pthreads_proxy_whitebox_test :: "pthreads_proxy \<Rightarrow> nat" where
  "pthreads_proxy_whitebox_test p =
     wake_all_covers_registered p + wake_all_bounded p + wake_one_bounded p + wake_all_floor p"

section \<open>The pthreads proxy passes\<close>

lemma set_up_proxy: "set_up n p = (0, \<lparr>pending = 0, waiting = n\<rparr>)"
  by (simp add: set_up_def pthread_proxy_init_def init_next_def os_next_def check_def)

theorem pthreads_whitebox_passes: "pthreads_proxy_whitebox_test p = 0"
proof -
  have "wake_all_covers_registered p = 0" "wake_all_floor p = 0" "wake_one_bounded p = 0"
    unfolding wake_all_covers_registered_def wake_all_floor_def wake_one_bounded_def set_up_proxy
    by code_simp+
  moreover have "wake_all_bounded p = 0"
    unfolding wake_all_bounded_def set_up_proxy by code_simp
  ultimately show ?thesis
    by (simp add: pthreads_proxy_whitebox_test_def)
qed

section \<open>The table passes\<close>

text \<open>The table holds the keys with an index in \<open>I\<close>, each with its proxy and one user.\<close>

definition holding :: "ptr list \<Rightarrow> ptr list \<Rightarrow> nat set \<Rightarrow> 'p world \<Rightarrow> bool" where
  "holding keys proxies I w \<longleftrightarrow>
     dom (refs w) = (!) keys ` I \<and> (\<forall>i\<in>I. refs w (keys ! i) = Some (proxies ! i, 1))"

definition test_keys :: "ptr list \<Rightarrow> nat set \<Rightarrow> bool" where
  "test_keys keys I \<longleftrightarrow> distinct keys \<and> (\<forall>k\<in>set keys. valid_key k) \<and> I \<subseteq> {..<length keys}"

lemma test_keys_valid: "test_keys keys I \<Longrightarrow> i < length keys \<Longrightarrow> valid_key (keys ! i)"
  by (simp add: test_keys_def)

lemma test_keys_inj: "test_keys keys I \<Longrightarrow> inj_on ((!) keys) {..<length keys}"
  by (simp add: test_keys_def inj_on_nth)

lemma holding_absent:
  assumes "holding keys proxies I w" and "test_keys keys I" and "i < length keys" and "i \<notin> I"
  shows "refs w (keys ! i) = None"
proof -
  have "keys ! i \<notin> (!) keys ` I"
    using assms(2-4) unfolding test_keys_def by (auto simp: nth_eq_iff_index_eq)
  then show ?thesis
    using assms(1) by (auto simp: holding_def)
qed

lemma holding_room: "holding keys proxies I w \<Longrightarrow> room 1 (refs w)"
proof -
  assume h: "holding keys proxies I w"
  have "c = 1" if "refs w k = Some (p, c)" for k p c
    using h that domI [of "refs w" k] unfolding holding_def by fastforce
  then show ?thesis
    by (fastforce simp: room_def INT_MAX_def)
qed

lemma nlive_card:
  assumes "slots_inv bs"
  shows "nlive bs = card (dom (slot_map bs))"
proof -
  let ?L = "{i. i < length bs \<and> live (bs ! i)}"
  have u: "keys_unique bs"
    using assms by (simp add: slots_inv_def)
  have "inj_on (\<lambda>i. key (bs ! i)) ?L"
    using keys_uniqueD [OF u] by (auto simp: inj_on_def live_def)
  moreover have "dom (slot_map bs) = (\<lambda>i. key (bs ! i)) ` ?L"
    by (auto simp: slot_map_Some [OF u] live_def image_iff)
  ultimately show ?thesis
    by (simp add: nlive_def length_filter_conv_card card_image)
qed

lemma dom_refs:
  assumes "refs_inv w"
  shows "dom (refs w) = dom (lookup w)"
  using view_None [OF assms] by (auto simp: refs_def dom_def)

lemma holding_count:
  assumes good: "good_world calm w" and h: "holding keys proxies I w" and t: "test_keys keys I"
  shows "count (table w) = of_nat (card I) \<and> (I \<noteq> {} \<longrightarrow> card I \<le> unat (bucket_count (table w)))"
proof -
  have inv: "refs_inv w" "world_inv w"
    using good by (simp_all add: good_world_def refs_inv_def)
  have "inj_on ((!) keys) I"
    using test_keys_inj [OF t] t by (auto simp: test_keys_def intro: inj_on_subset)
  then have I: "card I = card (dom (lookup w))"
    using h dom_refs [OF inv(1)] by (simp add: holding_def card_image [symmetric])
  show ?thesis
  proof (cases "buckets (table w)")
    case None
    then have "dom (lookup w) = {}" "count (table w) = 0"
      using inv(2) by (simp_all add: lookup_def world_inv_def table_inv_def)
    then show ?thesis
      using I h dom_refs [OF inv(1)] by (simp add: holding_def)
  next
    case (Some bs)
    obtain q where q: "pow2_len q bs" "slots_inv bs" "bucket_count (table w) = 2 ^ q" "count (table w) = of_nat (nlive bs)"
      using inv(2) Some table_inv_Some by (auto simp: world_inv_def)
    then show ?thesis
      using I nlive_card [OF q(2)] nlive_le [of bs] unat_bucket_count [OF q(1)] by (simp add: lookup_Some [OF Some])
  qed
qed

lemma serving_frame:
  assumes "serving n u w" and "buckets (table w') = buckets (table w)" and "alloc_script w' = alloc_script w"
    and "dom (heap w') = dom (heap w)"
  shows "serving n u w'"
  using assms(1) unfolding serving_def assms(2-4) .

lemma good_lock:
  "good_world calm (w\<lparr>table := (table w)\<lparr>lock := b\<rparr>\<rparr>) = good_world calm w"
  "refs (w\<lparr>table := (table w)\<lparr>lock := b\<rparr>\<rparr>) = refs w"
  by (simp_all add: good_world_def refs_inv_def world_inv_def table_inv_def lookup_def refs_def view_def fun_eq_iff
      cong: option.case_cong)

lemma even_indices: "length (filter even [0..<2 * m]) = m"
  by (induction m) simp_all

text \<open>The state between two calls.\<close>

definition testing ::
  "(os_answers \<Rightarrow> bool) \<Rightarrow> ptr list \<Rightarrow> ptr list \<Rightarrow> nat set \<Rightarrow> nat \<Rightarrow> nat \<Rightarrow> 'p world \<Rightarrow> bool" where
  "testing calm keys proxies I n u w \<longleftrightarrow>
     good_world calm w \<and> serving n u w \<and> holding keys proxies I w \<and> test_keys keys I \<and>
     length proxies = length keys \<and> held w"

lemma testing_world: "testing calm keys proxies I n u w \<Longrightarrow> world_inv w"
  by (simp add: testing_def good_world_def refs_inv_def)

context proxy_backend
begin

lemma insert_key:
  assumes t: "testing calm keys proxies I (Suc (Suc n)) u w" and i: "i < length keys" "i \<notin> I"
    and u: "8 * u < 3 * 2 ^ 20" and ini: "\<And>s. calm s \<Longrightarrow> fst (px_init ops s (px_zero ops)) = 0"
  shows "\<exists>p w'. hash_table_find_or_create ops (keys ! i) True w = Inr (p, w') \<and> p \<noteq> NULL
    \<and> testing calm keys (proxies[i := p]) (insert i I) (Suc n) (Suc u) w'"
proof -
  have g: "good_world calm w" "serving (Suc (Suc n)) u w" "holding keys proxies I w" "test_keys keys I"
      "length proxies = length keys" "held w"
    using t by (simp_all add: testing_def)
  note inv = testing_world [OF t]
  have k: "valid_key (keys ! i)"
    by (rule test_keys_valid [OF g(4) i(1)])
  have none: "refs w (keys ! i) = None"
    by (rule holding_absent [OF g(3,4) i])
  obtain p w' where r: "hash_table_find_or_create ops (keys ! i) True w = Inr (p, w')" "good_world calm w'"
      "spec_step (Take (keys ! i)) p (refs w) (refs w')"
    using acquire_refines [OF g(1) k, of 0] holding_room [OF g(3)] by auto
  have ok: "counts_ok w"
    using refs_inv_counts [of w] holding_room [OF g(3)] g(1) by (fastforce simp: room_def refs_def good_world_def)
  have p: "p \<noteq> NULL"
    using acquire_served [OF inv k ok serving_ample [OF g(2)] _ serving_limit [OF inv g(2) u] r(1)] ini [of "os_script w"] g(1)
    by (simp add: init_succeeds_def good_world_def)
  have m: "refs w' = (refs w)(keys ! i \<mapsto> (p, 1))"
    using r(3) none p by (cases rule: spec_step.cases) auto
  have "holding keys (proxies[i := p]) (insert i I) w'"
    using g(3-5) i m unfolding holding_def test_keys_def
    by (auto simp: nth_list_update nth_eq_iff_index_eq)
  moreover have "serving (Suc n) (Suc u) w'"
    using serving_call [OF inv _ g(2) r(1)] r(2) by (simp add: good_world_def refs_inv_def)
  moreover have "held w'"
    using find_or_create_acquire [OF inv k ok, of ops] r(1) g(6) by (simp add: acquire_post_def)
  ultimately show ?thesis
    using r(1,2) p g(4,5) i(1) by (auto simp: testing_def test_keys_def)
qed

lemma find_key:
  assumes t: "testing calm keys proxies I (Suc n) u w" and i: "i < length keys"
  shows "\<exists>w'. hash_table_find_or_create ops (keys ! i) False w = Inr (if i \<in> I then proxies ! i else NULL, w')
    \<and> testing calm keys proxies I n (Suc u) w'"
proof -
  have g: "good_world calm w" "serving (Suc n) u w" "holding keys proxies I w" "test_keys keys I" "held w"
    using t by (simp_all add: testing_def)
  note inv = testing_world [OF t]
  have k: "valid_key (keys ! i)"
    by (rule test_keys_valid [OF g(4) i])
  obtain p w' where r: "hash_table_find_or_create ops (keys ! i) False w = Inr (p, w')" "good_world calm w'"
      "spec_step (Seek (keys ! i)) p (refs w) (refs w')"
    using search_refines [OF g(1) k] by auto
  have p: "p = (if i \<in> I then proxies ! i else NULL)" and m: "refs w' = refs w"
    using r(3) g(3) holding_absent [OF g(3,4) i] by (cases rule: spec_step.cases; auto simp: holding_def)+
  have "serving n (Suc u) w'"
    using serving_call [OF inv _ g(2) r(1)] r(2) by (simp add: good_world_def refs_inv_def)
  moreover have "held w'"
    using find_or_create_search [OF inv k, of ops] r(1) g(5) by (simp add: quiet_def)
  ultimately show ?thesis
    using r(1,2) p m t by (simp add: testing_def holding_def)
qed

lemma remove_key:
  assumes t: "testing calm keys proxies I n u w" and i: "i \<in> I"
  shows "\<exists>px w'. heap w (proxies ! i) = Some px
    \<and> hash_table_remove_item ops (keys ! i) (w\<lparr>heap := (heap w)(proxies ! i \<mapsto> px\<lparr>use_count := 0\<rparr>)\<rparr>) = Inr w'
    \<and> testing calm keys proxies (I - {i}) n u w'"
proof -
  have g: "good_world calm w" "serving n u w" "holding keys proxies I w" "test_keys keys I" "held w"
    using t by (simp_all add: testing_def)
  let ?k = "keys ! i" and ?p = "proxies ! i"
  have f: "refs w ?k = Some (?p, 1)"
    using g(3) i by (simp add: holding_def)
  then obtain px where px: "lookup w ?k = Some ?p" "heap w ?p = Some px" "nat (use_count px) = 1"
    by (auto simp: refs_def view_Some)
  let ?w = "w\<lparr>heap := (heap w)(?p \<mapsto> px\<lparr>use_count := 0\<rparr>)\<rparr>"
  obtain r w' where w': "table_step ops (Give ?k ?p) w = Inr (r, w')" "good_world calm w'"
      "spec_step (Give ?k ?p) r (refs w) (refs w')"
    using release_refines [OF g(1) f, of 0] holding_room [OF g(3)] by auto
  have "use_count px = 1"
    using px(3) by simp
  then have rem: "hash_table_remove_item ops ?k ?w = Inr w'"
    using w'(1) px(2) by (auto simp: release_item_def res_bind_Inr_iff c_int_def INT_MAX_def INT_MIN_def Let_def
        split: if_splits)
  have m: "refs w' = (refs w)(?k := None)"
    using w'(3) f by (cases rule: spec_step.cases) auto
  have "holding keys proxies (I - {i}) w'"
    using g(3,4) i m unfolding holding_def test_keys_def
    by (auto simp: nth_eq_iff_index_eq subset_iff)
  moreover have lk: "world_inv ?w" "lookup ?w = lookup w"
    using testing_world [OF t] px(2) heap_inv_update [of "lookup w" "heap w" ?p]
    by (auto simp: world_inv_def lookup_def)
  moreover have "serving n u ?w"
    using px(2) by (intro serving_frame [OF g(2)]) auto
  then have "serving n u w'"
    using serving_remove [OF lk(1) _ _ rem] px(1) lk(2) by simp
  moreover have "held w'"
    using remove_item_removes [OF lk(1), of ?k ?p "px\<lparr>use_count := 0\<rparr>" ops] rem px lk(2) g(1,5)
      destroy_ok [of "os_script w"]
    by (auto simp: release_post_def good_world_def)
  ultimately show ?thesis
    using px(2) rem w'(2) t by (auto simp: testing_def test_keys_def)
qed

section \<open>Loops\<close>

lemma insert_keys_ok:
  assumes "testing calm keys proxies I (Suc n + length is) u w" and "set is \<subseteq> {..<length keys}" and "distinct is"
    and "set is \<inter> I = {}" and "8 * (u + length is) < 3 * 2 ^ 20" and ini: "\<And>s. calm s \<Longrightarrow> fst (px_init ops s (px_zero ops)) = 0"
  shows "\<exists>proxies' w'. insert_keys ops keys is proxies w = Inr (0, proxies', w')
    \<and> testing calm keys proxies' (I \<union> set is) (Suc n) (u + length is) w'"
  using assms(1-5)
proof (induction "is" arbitrary: proxies I u w)
  case (Cons i "is")
  obtain p w1 where a: "hash_table_find_or_create ops (keys ! i) True w = Inr (p, w1)" "p \<noteq> NULL"
      "testing calm keys (proxies[i := p]) (insert i I) (Suc n + length is) (Suc u) w1"
    using insert_key [of keys proxies I "n + length is" u w i] Cons.prems ini by auto
  then show ?case
    using Cons.IH [OF a(3)] Cons.prems by (auto simp: check_def)
qed auto

lemma find_keys_ok:
  assumes "testing calm keys proxies I (n + length is) u w" and "set is \<subseteq> {..<length keys}"
    and "\<forall>i\<in>set is. want i = (if i \<in> I then proxies ! i else NULL)"
  shows "\<exists>w'. find_keys ops keys is want w = Inr (0, w') \<and> testing calm keys proxies I n (u + length is) w'"
  using assms
proof (induction "is" arbitrary: u w)
  case (Cons i "is")
  obtain w1 where a: "hash_table_find_or_create ops (keys ! i) False w = Inr (want i, w1)"
      "testing calm keys proxies I (n + length is) (Suc u) w1"
    using find_key [of keys proxies I "n + length is" u w i] Cons.prems by auto
  then show ?case
    using Cons.IH [OF a(2)] Cons.prems by (auto simp: check_def)
qed auto

lemma remove_keys_ok:
  assumes "testing calm keys proxies I n u w" and "set is \<subseteq> I" and "distinct is"
  shows "\<exists>w'. remove_keys ops keys proxies is w = Inr w' \<and> testing calm keys proxies (I - set is) n u w'"
  using assms
proof (induction "is" arbitrary: I w)
  case (Cons i "is")
  obtain px w1 where a: "heap w (proxies ! i) = Some px"
      "hash_table_remove_item ops (keys ! i) (w\<lparr>heap := (heap w)(proxies ! i \<mapsto> px\<lparr>use_count := 0\<rparr>)\<rparr>) = Inr w1"
      "testing calm keys proxies (I - {i}) n u w1"
    using remove_key [of keys proxies I n u w i] Cons.prems by auto
  have "I - {i} - set is = I - set (i # is)"
    by auto
  then show ?case
    using Cons.IH [OF a(3)] Cons.prems a(1,2) by auto
qed auto

lemma counted:
  assumes "testing calm keys proxies I n u w"
  shows "count (table w) = of_nat (card I)" "I \<noteq> {} \<Longrightarrow> card I \<le> unat (bucket_count (table w))"
  using assms holding_count [of calm w keys proxies I] by (simp_all add: testing_def)

text \<open>Insert all keys, find them, remove every second one, find the rest.\<close>

lemma test_first_half:
  assumes ini: "\<And>s. calm s \<Longrightarrow> fst (px_init ops s (px_zero ops)) = 0" and t: "testing calm keys ps0 {} (12 * m) 0 w0"
    and n: "length keys = n" "n = 2 * m" "512 < m" "m \<le> 2 ^ 15" and E: "E = filter even [0..<n]"
  shows "\<exists>ps w1 w2 w3 w4. insert_keys ops keys [0..<n] ps0 w0 = Inr (0, ps, w1)
    \<and> testing calm keys ps {..<n} (10 * m) (2 * m) w1 \<and> find_keys ops keys [0..<n] (\<lambda>i. ps ! i) w1 = Inr (0, w2)
    \<and> remove_keys ops keys ps E w2 = Inr w3 \<and> testing calm keys ps ({..<n} - set E) (8 * m) (4 * m) w3
    \<and> find_keys ops keys [0..<n] (\<lambda>i. if odd i then ps ! i else NULL) w3 = Inr (0, w4)
    \<and> testing calm keys ps ({..<n} - set E) (6 * m) (6 * m) w4"
proof -
  have all: "set [0..<n] = {..<n}" "distinct [0..<n]" "set E \<subseteq> {..<n}" "distinct E"
    by (auto simp: E)
  have "testing calm keys ps0 {} (Suc (10 * m - 1) + length [0..<n]) 0 w0"
    using t n by simp
  then obtain ps w1 where 1: "insert_keys ops keys [0..<n] ps0 w0 = Inr (0, ps, w1)"
      "testing calm keys ps {..<n} (10 * m) (2 * m) w1"
    using insert_keys_ok [of keys ps0 "{}" "10 * m - 1" "[0..<n]" 0 w0, OF _ _ _ _ _ ini] all n by auto
  then obtain w2 where 2: "find_keys ops keys [0..<n] (\<lambda>i. ps ! i) w1 = Inr (0, w2)"
      "testing calm keys ps {..<n} (8 * m) (4 * m) w2"
    using find_keys_ok [of keys ps "{..<n}" "8 * m" "[0..<n]" "2 * m" w1 "\<lambda>i. ps ! i"] all n by auto
  then obtain w3 where 3: "remove_keys ops keys ps E w2 = Inr w3"
      "testing calm keys ps ({..<n} - set E) (8 * m) (4 * m) w3"
    using remove_keys_ok [OF 2(2) all(3,4)] by blast
  then obtain w4 where "find_keys ops keys [0..<n] (\<lambda>i. if odd i then ps ! i else NULL) w3 = Inr (0, w4)"
      "testing calm keys ps ({..<n} - set E) (6 * m) (6 * m) w4"
    using find_keys_ok [of keys ps "{..<n} - set E" "6 * m" "[0..<n]" "4 * m" w3 "\<lambda>i. if odd i then ps ! i else NULL"] all n
    by (auto simp: E)
  then show ?thesis
    using 1 2 3 by blast
qed

text \<open>Insert them again, find all, remove all, find none.\<close>

lemma test_second_half:
  assumes ini: "\<And>s. calm s \<Longrightarrow> fst (px_init ops s (px_zero ops)) = 0"
    and n: "length keys = n" "n = 2 * m" "512 < m" "m \<le> 2 ^ 15" and E: "E = filter even [0..<n]"
    and t: "testing calm keys ps ({..<n} - set E) (6 * m) (6 * m) w4"
  shows "\<exists>ps' w5 w6 w7 w8. insert_keys ops keys E ps w4 = Inr (0, ps', w5)
    \<and> testing calm keys ps' {..<n} (5 * m) (7 * m) w5 \<and> find_keys ops keys [0..<n] (\<lambda>i. ps' ! i) w5 = Inr (0, w6)
    \<and> remove_keys ops keys ps' [0..<n] w6 = Inr w7 \<and> testing calm keys ps' {} (3 * m) (9 * m) w7
    \<and> find_keys ops keys [0..<n] (\<lambda>i. NULL) w7 = Inr (0, w8) \<and> testing calm keys ps' {} m (11 * m) w8"
proof -
  have all: "set [0..<n] = {..<n}" "distinct [0..<n]" "set E \<subseteq> {..<n}" "distinct E" "length E = m"
    using even_indices [of m] n(2) by (auto simp: E)
  have "testing calm keys ps ({..<n} - set E) (Suc (5 * m - 1) + length E) (6 * m) w4"
    using t all(5) n(3) by simp
  then obtain ps' w5 where 5: "insert_keys ops keys E ps w4 = Inr (0, ps', w5)"
      "testing calm keys ps' {..<n} (5 * m) (7 * m) w5"
    using insert_keys_ok [of keys ps "{..<n} - set E" "5 * m - 1" E "6 * m" w4, OF _ _ _ _ _ ini] all n
    by (auto simp: Un_absorb2)
  then obtain w6 where 6: "find_keys ops keys [0..<n] (\<lambda>i. ps' ! i) w5 = Inr (0, w6)"
      "testing calm keys ps' {..<n} (3 * m) (9 * m) w6"
    using find_keys_ok [of keys ps' "{..<n}" "3 * m" "[0..<n]" "7 * m" w5 "\<lambda>i. ps' ! i"] all(1,2) n by auto
  then obtain w7 where 7: "remove_keys ops keys ps' [0..<n] w6 = Inr w7" "testing calm keys ps' {} (3 * m) (9 * m) w7"
    using remove_keys_ok [OF 6(2), of "[0..<n]"] all(1,2) by auto
  then obtain w8 where "find_keys ops keys [0..<n] (\<lambda>i. NULL) w7 = Inr (0, w8)" "testing calm keys ps' {} m (11 * m) w8"
    using find_keys_ok [of keys ps' "{}" m "[0..<n]" "9 * m" w7 "\<lambda>i. NULL"] all(1,2) n by auto
  then show ?thesis
    using 5 6 7 by blast
qed

theorem table_test_passes:
  assumes ini: "\<And>s. calm s \<Longrightarrow> fst (px_init ops s (px_zero ops)) = 0"
    and keys: "distinct keys" "\<forall>k\<in>set keys. valid_key k" "length keys = 2 * m" "512 < m" "m \<le> 2 ^ 15"
    and w: "good_world calm w" "refs w = Map.empty" "serving (6 * length keys) 0 w"
  shows "\<exists>w'. hash_table_whitebox_test ops keys w = Inr (0, w') \<and> good_world calm w' \<and> refs w' = Map.empty \<and> \<not> held w'"
proof -
  define E where "E = filter even [0..<length keys]"
  let ?A = "{..<length keys}" and ?w0 = "w\<lparr>table := (table w)\<lparr>lock := True\<rparr>\<rparr>"
  have t0: "testing calm keys (replicate (length keys) NULL) {} (12 * m) 0 ?w0"
    using w keys(1-3) good_lock [where w = w and b = True] serving_frame [OF w(3), of ?w0]
    by (simp add: testing_def holding_def test_keys_def)
  obtain ps w1 w2 w3 w4 where a: "insert_keys ops keys [0..<length keys] (replicate (length keys) NULL) ?w0 = Inr (0, ps, w1)"
      "testing calm keys ps ?A (10 * m) (2 * m) w1" "find_keys ops keys [0..<length keys] (\<lambda>i. ps ! i) w1 = Inr (0, w2)"
      "remove_keys ops keys ps E w2 = Inr w3" "testing calm keys ps (?A - set E) (8 * m) (4 * m) w3"
      "find_keys ops keys [0..<length keys] (\<lambda>i. if odd i then ps ! i else NULL) w3 = Inr (0, w4)"
      "testing calm keys ps (?A - set E) (6 * m) (6 * m) w4"
    using test_first_half [OF ini t0 refl keys(3-5) E_def] by blast
  obtain ps' w5 w6 w7 w8 where b: "insert_keys ops keys E ps w4 = Inr (0, ps', w5)" "testing calm keys ps' ?A (5 * m) (7 * m) w5"
      "find_keys ops keys [0..<length keys] (\<lambda>i. ps' ! i) w5 = Inr (0, w6)" "remove_keys ops keys ps' [0..<length keys] w6 = Inr w7"
      "testing calm keys ps' {} (3 * m) (9 * m) w7" "find_keys ops keys [0..<length keys] (\<lambda>i. NULL) w7 = Inr (0, w8)"
      "testing calm keys ps' {} m (11 * m) w8"
    using test_second_half [OF ini refl keys(3-5) E_def a(7)] by blast
  have E: "set E \<subseteq> ?A" "card (set E) = m"
    using even_indices [of m] keys(3) distinct_card [of E] by (auto simp: E_def)
  then have O: "card (?A - set E) = length keys - length keys div 2"
    using keys(3) by (simp add: card_Diff_subset)
  have "?A \<noteq> {}"
    using keys(3,4) lessThan_empty_iff [of "length keys"] by linarith
  then have "2 * m \<le> unat (bucket_count (table w1))"
    using counted(2) [OF a(2)] keys(3) by (metis card_lessThan)
  then have "HASH_BUCKETS_INITIAL < bucket_count (table w1)"
    using keys(4) by (simp add: word_less_nat_alt HASH_BUCKETS_INITIAL_def)
  then have "hash_table_whitebox_test ops keys w = Inr (0, w8\<lparr>table := hash_table_unlock (table w8)\<rparr>)"
    using a(1,3,4,6) b(1,3,4,6) counted(1) [OF a(2)] counted(1) [OF a(5)] counted(1) [OF b(2)] counted(1) [OF b(5)] O
    by (simp add: hash_table_whitebox_test_def hash_table_lock_def check_def Let_def E_def)
  then show ?thesis
    using b(7) good_lock [where w = w8 and b = False] by (simp add: hash_table_unlock_def testing_def holding_def)
qed

end

text \<open>The state the test starts from, with six answers of the allocator per key and eleven for arrays.\<close>

definition test_start :: "ptr list \<Rightarrow> 'p world \<Rightarrow> bool" where
  "test_start keys w \<longleftrightarrow>
     table w = shared_global_hash_table \<and> heap w = Map.empty \<and> distinct (map fst (alloc_script w))
     \<and> NULL \<notin> fst ` set (alloc_script w) \<and> 6 * length keys + 11 \<le> length (alloc_script w)"

text \<open>No check fails; the table is empty, the lock free and no proxy allocated at the end.\<close>

definition table_test_clean :: "('p, 'o) proxy_ops_scheme \<Rightarrow> ptr list \<Rightarrow> 'p world \<Rightarrow> bool" where
  "table_test_clean ops keys w \<longleftrightarrow>
     (\<exists>w'. hash_table_whitebox_test ops keys w = Inr (0, w') \<and> lookup w' = Map.empty \<and> heap w' = Map.empty \<and> \<not> held w')"

context proxy_backend
begin

lemma test_is_clean:
  assumes ini: "\<And>s. calm s \<Longrightarrow> fst (px_init ops s (px_zero ops)) = 0"
    and keys: "distinct keys" "\<forall>k\<in>set keys. valid_key k" "even (length keys)" "1024 < length keys" "length keys \<le> 2 ^ 16"
    and start: "test_start keys w" and calm: "calm (os_script w)"
  shows "table_test_clean ops keys w"
proof -
  have s: "table w = shared_global_hash_table" "heap w = Map.empty" "distinct (map fst (alloc_script w))"
      "NULL \<notin> fst ` set (alloc_script w)" "6 * length keys + 11 \<le> length (alloc_script w)"
    using start by (simp_all add: test_start_def)
  have "lookup w = Map.empty"
    using s(1) by (simp add: lookup_def shared_global_hash_table_def)
  then have w: "good_world calm w" "refs w = Map.empty" "serving (6 * length keys) 0 w"
    using s calm
    by (simp_all add: good_world_def refs_inv_def world_inv_def table_inv_def heap_inv_def refs_def [abs_def]
        view_def serving_def shared_global_hash_table_def)
  obtain m where m: "length keys = 2 * m" "512 < m" "m \<le> 2 ^ 15"
    using keys(3-5) by auto
  obtain w' where r: "hash_table_whitebox_test ops keys w = Inr (0, w')" "good_world calm w'"
      "refs w' = Map.empty" "\<not> held w'"
    using table_test_passes [OF ini keys(1,2) m w] by blast
  then have "lookup w' = Map.empty"
    using dom_refs [of w'] dom_eq_empty_conv [of "lookup w'"] by (auto simp: good_world_def)
  moreover from this have "heap w' = Map.empty"
    using r(2) by (auto simp: good_world_def refs_inv_def world_inv_def heap_inv_def)
  ultimately show ?thesis
    using r(1,4) by (auto simp: table_test_clean_def)
qed

end

text \<open>Addresses 4096 bytes apart, as the keys of the test.\<close>

definition spaced_words :: "nat \<Rightarrow> nat \<Rightarrow> ptr list" where
  "spaced_words a n = map (\<lambda>i. word_of_nat (a + i * 4096)) [0..<n]"

lemma spaced_words_ok:
  assumes "2 \<le> a" and "a + n * 4096 < 2 ^ 64"
  shows "distinct (spaced_words a n) \<and> (\<forall>k\<in>set (spaced_words a n). valid_key k) \<and> length (spaced_words a n) = n"
proof -
  have u: "unat (word_of_nat (a + i * 4096) :: ptr) = a + i * 4096" if "i < n" for i
    using that assms(2) by (simp add: unsigned_of_nat take_bit_nat_eq_self del: of_nat_add of_nat_mult)
  have "i = j" if "i < n" "j < n" "(word_of_nat (a + i * 4096) :: ptr) = word_of_nat (a + j * 4096)" for i j
    using u [OF that(1)] u [OF that(2)] unfolding that(3) by linarith
  then have "distinct (spaced_words a n)"
    by (auto simp: spaced_words_def distinct_map inj_on_def)
  moreover have "valid_key (word_of_nat (a + i * 4096))" if "i < n" for i
  proof -
    have "2 \<le> unat (word_of_nat (a + i * 4096) :: ptr)"
      unfolding u [OF that] using assms(1) by simp
    then show ?thesis
      by (auto simp: valid_key_def HASH_BUCKET_DELETED_def simp del: of_nat_add of_nat_mult)
  qed
  ultimately show ?thesis
    by (auto simp: spaced_words_def)
qed

text \<open>A state the test can start from.\<close>

definition test_world :: "'p world" where
  "test_world =
     \<lparr>table = shared_global_hash_table, heap = Map.empty, alloc_script = map (\<lambda>p. (p, 0)) (spaced_words 1099511627776 30011),
      free_script = [], os_script = all_succeed, errno = 0\<rparr>"

lemma test_world_start: "test_start (spaced_words 4096 5000) test_world" "os_succeeds (os_script test_world)"
proof -
  have "length (spaced_words 4096 5000) = 5000" "distinct (spaced_words 1099511627776 30011)"
      "length (spaced_words 1099511627776 30011) = 30011" "NULL \<notin> set (spaced_words 1099511627776 30011)"
    using spaced_words_ok [of 4096 5000] spaced_words_ok [of 1099511627776 30011] valid_key_NULL(1) by auto
  then show "test_start (spaced_words 4096 5000) test_world" "os_succeeds (os_script test_world)"
    by (auto simp: test_start_def test_world_def comp_def image_image os_succeeds_def os_calm_def)
qed

end
