(* ===== verification/Deadline.thy ===== *)
theory Deadline
  imports Wait_Prelude
begin

text \<open>
  Time: \<open>struct timespec\<close>, the conversion of a relative duration to an absolute deadline, the
  expiry test and the remaining time, which \<open>atomic_wait_generic\<close>, \<open>atomic_wait_expected_32\<close> and
  the Linux and pthreads backends all compute, and \<open>monotonic_now\<close>. Seconds and nanoseconds are
  64-bit signed integers; a sum outside of their range is undefined behaviour of the C code and
  a fault of the model. \<open>ns\<close> reads a timespec as a number of nanoseconds.
\<close>

record timespec =
  tv_sec :: int
  tv_nsec :: int

text \<open>\<open>end = now + duration\<close>, with one carry into the seconds.\<close>

definition ts_deadline :: "timespec \<Rightarrow> timespec \<Rightarrow> timespec res" where
  "ts_deadline now duration =
     res_bind (c_long (tv_sec now + tv_sec duration)) (\<lambda>sec.
     res_bind (c_long (tv_nsec now + tv_nsec duration)) (\<lambda>nsec.
       if nsec \<ge> 1000000000
       then res_bind (c_long (sec + 1)) (\<lambda>sec1.
              Inr \<lparr>tv_sec = sec1, tv_nsec = nsec - 1000000000\<rparr>)
       else Inr \<lparr>tv_sec = sec, tv_nsec = nsec\<rparr>))"

text \<open>The expiry test of the wait loops.\<close>

definition ts_passed :: "timespec \<Rightarrow> timespec \<Rightarrow> bool" where
  "ts_passed now end \<longleftrightarrow>
     tv_sec now > tv_sec end \<or> (tv_sec now = tv_sec end \<and> tv_nsec now \<ge> tv_nsec end)"

text \<open>\<open>ts_remaining = end - now\<close>, with one borrow from the seconds.\<close>

definition ts_remaining :: "timespec \<Rightarrow> timespec \<Rightarrow> timespec res" where
  "ts_remaining end now =
     res_bind (c_long (tv_sec end - tv_sec now)) (\<lambda>sec.
       if tv_nsec end \<ge> tv_nsec now
       then res_bind (c_long (tv_nsec end - tv_nsec now)) (\<lambda>nsec.
              Inr \<lparr>tv_sec = sec, tv_nsec = nsec\<rparr>)
       else res_bind (c_long (sec - 1)) (\<lambda>sec1.
            res_bind (c_long (tv_nsec end - tv_nsec now + 1000000000)) (\<lambda>nsec.
              Inr \<lparr>tv_sec = sec1, tv_nsec = nsec\<rparr>)))"

text \<open>C division truncates towards zero.\<close>

definition c_quot :: "int \<Rightarrow> int \<Rightarrow> int" where
  "c_quot a b = sgn a * sgn b * (\<bar>a\<bar> div \<bar>b\<bar>)"

definition c_rem :: "int \<Rightarrow> int \<Rightarrow> int" where
  "c_rem a b = a - b * c_quot a b"

text \<open>
  \<open>monotonic_now\<close>: on Windows from the performance counter and its frequency, elsewhere from
  \<open>clock_gettime\<close>, whose failure aborts the process. The frequency is kept in a static variable that
  is zero until the first call; \<open>queried\<close> is the answer of \<open>QueryPerformanceFrequency\<close>, and the second
  component of the result is the new value of that variable.
\<close>

definition monotonic_now_windows :: "int \<Rightarrow> int \<Rightarrow> int \<Rightarrow> (timespec \<times> int) res" where
  "monotonic_now_windows static_freq queried cnt =
     (let freq = (if static_freq = 0 then queried else static_freq)
      in if freq = 0 then Inl Division_By_Zero
         else res_bind (c_long (c_rem cnt freq * 1000000000)) (\<lambda>scaled.
                Inr (\<lparr>tv_sec = c_quot cnt freq, tv_nsec = c_quot scaled freq\<rparr>, freq)))"

definition monotonic_now_posix :: "int \<Rightarrow> timespec \<Rightarrow> timespec res" where
  "monotonic_now_posix ret ts = (if ret \<noteq> 0 then Inl Abort_Called else Inr ts)"

text \<open>
  The absolute time \<open>pthread_proxy_wait\<close> computes from the relative timeout before it blocks, with the
  clock its condition variable was created for.
\<close>

definition pthread_abstime :: "timespec \<Rightarrow> timespec option \<Rightarrow> timespec option res" where
  "pthread_abstime now timeout =
     (case timeout of
        None \<Rightarrow> Inr None
      | Some t \<Rightarrow> res_bind (ts_deadline now t) (\<lambda>abstime. Inr (Some abstime)))"

section \<open>Meaning\<close>

definition ns :: "timespec \<Rightarrow> int" where
  "ns t = tv_sec t * 1000000000 + tv_nsec t"

definition valid_ts :: "timespec \<Rightarrow> bool" where
  "valid_ts t \<longleftrightarrow> 0 \<le> tv_sec t \<and> tv_sec t < 2 ^ 62 \<and> 0 \<le> tv_nsec t \<and> tv_nsec t < 1000000000"

lemma ns_nonneg: "valid_ts t \<Longrightarrow> 0 \<le> ns t"
  by (simp add: valid_ts_def ns_def)

lemma ts_deadline_exact:
  assumes "valid_ts now" and "valid_ts d" 
  shows "\<exists>e. ts_deadline now d = Inr e \<and> ns e = ns now + ns d
           \<and> 0 \<le> tv_nsec e \<and> tv_nsec e < 1000000000 \<and> 0 \<le> tv_sec e \<and> tv_sec e < 2 ^ 63"
  using assms by (auto simp: ts_deadline_def valid_ts_def ns_def c_long_def)

lemma pthread_abstime_exact:
  assumes "valid_ts now" and "valid_ts d"
  shows "\<exists>t. pthread_abstime now (Some d) = Inr (Some t) \<and> ns t = ns now + ns d
    \<and> 0 \<le> tv_nsec t \<and> tv_nsec t < 1000000000"
  using ts_deadline_exact [OF assms] by (auto simp: pthread_abstime_def)

lemma ts_deadline_overflow:
  assumes "0 \<le> tv_nsec now" and "tv_nsec now < 1000000000"
    and "0 \<le> tv_nsec d" and "tv_nsec d < 1000000000" and "tv_sec now + tv_sec d \<ge> 2 ^ 63"
  shows "ts_deadline now d = Inl Signed_Overflow"
  using assms by (simp add: ts_deadline_def c_long_def)

lemma ts_passed_ns:
  assumes "0 \<le> tv_nsec now" and "tv_nsec now < 1000000000"
    and "0 \<le> tv_nsec e" and "tv_nsec e < 1000000000"
  shows "ts_passed now e \<longleftrightarrow> ns now \<ge> ns e"
  using assms by (auto simp: ts_passed_def ns_def)

lemma ts_remaining_exact:
  assumes "valid_ts now" and "0 \<le> tv_sec e" and "tv_sec e < 2 ^ 63"
    and "0 \<le> tv_nsec e" and "tv_nsec e < 1000000000" and "\<not> ts_passed now e"
  shows "\<exists>r. ts_remaining e now = Inr r \<and> ns r = ns e - ns now \<and> 0 < ns r
           \<and> 0 \<le> tv_sec r \<and> 0 \<le> tv_nsec r \<and> tv_nsec r < 1000000000"
proof -
  have "tv_sec now \<le> tv_sec e"
    using assms by (auto simp: ts_passed_def)
  then show ?thesis
    using assms by (auto simp: ts_remaining_def valid_ts_def ns_def ts_passed_def c_long_def)
qed

lemma c_quot_nonneg: "0 \<le> a \<Longrightarrow> 0 < b \<Longrightarrow> c_quot a b = a div b"
  by (cases "a = 0") (simp_all add: c_quot_def)

lemma c_rem_nonneg: "0 \<le> a \<Longrightarrow> 0 < b \<Longrightarrow> c_rem a b = a mod b"
  by (simp add: c_rem_def c_quot_nonneg minus_mult_div_eq_mod)

lemma monotonic_now_windows_exact:
  assumes "0 < freq" and "freq \<le> 9223372036" and "0 \<le> cnt" and "static_freq \<in> {0, freq}"
  shows "\<exists>t. monotonic_now_windows static_freq freq cnt = Inr (t, freq)
           \<and> ns t = (cnt * 1000000000) div freq \<and> 0 \<le> tv_nsec t \<and> tv_nsec t < 1000000000"
proof -
  let ?r = "cnt mod freq" and ?q = "cnt div freq"
  have r: "0 \<le> ?r" "?r < freq"
    using assms(1) by simp_all
  have b: "?r * 1000000000 < 2 ^ 63" "0 \<le> ?r * 1000000000"
    using r assms(2) by simp_all
  have eq: "monotonic_now_windows static_freq freq cnt =
      Inr (\<lparr>tv_sec = ?q, tv_nsec = (?r * 1000000000) div freq\<rparr>, freq)"
    using b assms r by (auto simp: monotonic_now_windows_def c_rem_nonneg c_quot_nonneg c_long_def Let_def)
  have "cnt * 1000000000 = freq * (?q * 1000000000) + ?r * 1000000000"
    by (simp add: distrib_right [symmetric] mult.assoc [symmetric])
  then have "(cnt * 1000000000) div freq = ?q * 1000000000 + (?r * 1000000000) div freq"
    using assms(1) by simp
  moreover have "(?r * 1000000000) div freq < 1000000000"
  proof -
    have "(?r * 1000000000) div freq \<le> (- 1 + 1000000000 * freq) div freq"
      using r assms(1) by (intro zdiv_mono1) simp_all
    also have "\<dots> = 1000000000 + (- 1) div freq"
      using assms(1) by (intro div_mult_self1) simp
    also have "\<dots> = 1000000000 - 1"
      using assms(1) by (simp add: div_eq_minus1)
    finally show ?thesis by simp
  qed
  moreover have "0 \<le> (?r * 1000000000) div freq"
    using b assms(1) by (simp add: pos_imp_zdiv_nonneg_iff)
  ultimately show ?thesis
    by (simp add: eq ns_def)
qed

end
