(* ===== verification/Memory_Order.thy ===== *)
theory Memory_Order
  imports Wait_Prelude
begin

text \<open>
  \<open>memory_order\<close> with the enumerator order the library's static assertion demands, as a linear
  order, and \<open>atomic_load_generic\<close> on a byte-addressed memory. The model is sequentially
  consistent: the order of a load is recorded, its weaker visibility is not modelled.
\<close>

datatype memory_order = Relaxed | Consume | Acquire | Release | Acq_Rel | Seq_Cst

text \<open>The numeric encoding of the enumerators.\<close>

fun mo_code :: "memory_order \<Rightarrow> nat" where
  "mo_code Relaxed = 0"
| "mo_code Consume = 1"
| "mo_code Acquire = 2"
| "mo_code Release = 3"
| "mo_code Acq_Rel = 4"
| "mo_code Seq_Cst = 5"

lemma mo_code_inj: "mo_code a = mo_code b \<Longrightarrow> a = b"
  by (cases a; cases b) simp_all

instantiation memory_order :: linorder
begin

definition less_eq_memory_order :: "memory_order \<Rightarrow> memory_order \<Rightarrow> bool" where
  "less_eq_memory_order a b \<longleftrightarrow> mo_code a \<le> mo_code b"

definition less_memory_order :: "memory_order \<Rightarrow> memory_order \<Rightarrow> bool" where
  "less_memory_order a b \<longleftrightarrow> mo_code a < mo_code b"

instance
  by standard (auto simp: less_eq_memory_order_def less_memory_order_def dest: mo_code_inj)

end

lemmas memory_order_less = less_eq_memory_order_def less_memory_order_def

text \<open>The static assertion of \<^verbatim>\<open>atomic_wait_common.ipp.ipp\<close>.\<close>

definition memory_order_static_assert :: bool where
  "memory_order_static_assert \<longleftrightarrow>
     Relaxed < Consume \<and> Consume < Acquire \<and> Acquire < Release \<and> Release < Acq_Rel
     \<and> Acq_Rel < Seq_Cst"

lemma memory_order_static_assert_holds: memory_order_static_assert
  by (simp add: memory_order_static_assert_def memory_order_less)

section \<open>Loads\<close>

definition load_bytes :: "(ptr \<Rightarrow> u8) \<Rightarrow> ptr \<Rightarrow> nat \<Rightarrow> u8 list" where
  "load_bytes m object bytes = map (\<lambda>i. m (object + of_nat i)) [0..<bytes]"

definition atomic_load_generic :: "(ptr \<Rightarrow> u8) \<Rightarrow> ptr \<Rightarrow> nat \<Rightarrow> u8 list res" where
  "atomic_load_generic m object bytes =
     (if bytes = 1 then Inr (load_bytes m object 1)
      else if bytes = 2 then Inr (load_bytes m object 2)
      else if bytes = 4 then Inr (load_bytes m object 4)
      else if bytes = 8 then Inr (load_bytes m object 8)
      else Inl Abort_Called)"

definition wait_width :: "nat \<Rightarrow> bool" where
  "wait_width bytes \<longleftrightarrow> bytes = 1 \<or> bytes = 2 \<or> bytes = 4 \<or> bytes = 8"

lemma atomic_load_generic_ok:
  "wait_width bytes \<Longrightarrow> atomic_load_generic m object bytes = Inr (load_bytes m object bytes)"
  by (auto simp: wait_width_def atomic_load_generic_def)

lemma length_load_bytes [simp]: "length (load_bytes m object bytes) = bytes"
  by (simp add: load_bytes_def)

lemma load_bytes_cong:
  assumes "bytes \<le> n" and "\<And>i. i < n \<Longrightarrow> m (object + of_nat i) = m' (object + of_nat i)"
  shows "load_bytes m object bytes = load_bytes m' object bytes"
  using assms by (simp add: load_bytes_def)

end
