(* ===== verification/Wait_Generic.thy ===== *)
theory Wait_Generic
  imports Proxy_Kinds Deadline Memory_Order
begin

text \<open>
  \<open>atomic_wait_generic\<close> and \<open>atomic_notify_generic\<close> of \<^verbatim>\<open>atomic_wait_common.ipp.ipp\<close> as machines that take one
  step per access to memory other threads can change: a load of the object, an attempt on the
  table lock, the operations under that lock, a reading of the generation counter, a clock
  reading, the blocking call, the wake. Between two steps of a thread any other thread may run.
  A step takes the choices of the environment (clock, results of the operating system) as an
  argument and is a function; it faults where the C code would.
\<close>

section \<open>State\<close>

record 'p shared =
  wld :: "'p world"
  mem :: "ptr \<Rightarrow> u8"

record wait_args =
  object :: ptr
  bytes :: nat
  expected0 :: "u8 list"
  duration :: "timespec option"
  success :: memory_order
  failure :: memory_order

datatype wait_pc =
    W_Start | W_Load | W_Reload | W_Lock | W_Find | W_Fail | W_Counter | W_Recheck
  | W_Reload_Locked | W_Unlock | W_Clock | W_Park | W_Parked | W_Woken | W_Recount
  | W_Tail | W_Tail_Lock | W_Release | W_Tail_Unlock | W_Done

text \<open>
  The locals of the C function, the thread's errno, the value behind the \<open>expected\<close> pointer, and
  a log of the loads made (order and value).
\<close>

record wait_local =
  pc :: wait_pc
  ret :: int
  terrno :: int
  entry_errno :: int
  errno_is_set :: bool
  save_errno :: int
  end_time :: timespec
  remaining :: "timespec option"
  item :: ptr
  item_counter :: u32
  lock_is_held :: bool
  expected :: "u8 list"
  loads :: "(memory_order \<times> u8 list) list"

record env =
  env_clock_ret :: int
  env_now :: timespec
  env_os :: int

definition zero_ts :: timespec where
  "zero_ts = \<lparr>tv_sec = 0, tv_nsec = 0\<rparr>"

text \<open>A thread that has just called the function with the given errno.\<close>

definition wait_enter :: "wait_args \<Rightarrow> int \<Rightarrow> wait_local" where
  "wait_enter a e =
     \<lparr>pc = W_Start, ret = 0, terrno = e, entry_errno = e, errno_is_set = False, save_errno = 0,
      end_time = zero_ts, remaining = None, item = NULL, item_counter = 0,
      lock_is_held = False, expected = expected0 a, loads = []\<rparr>"

section \<open>Pieces of the wait\<close>

definition lock_step :: "'p shared \<Rightarrow> bool \<times> 'p shared" where
  "lock_step sh =
     (case hash_table_lock (table (wld sh)) of (busy, t) \<Rightarrow>
        (busy, sh\<lparr>wld := (wld sh)\<lparr>table := t\<rparr>\<rparr>))"

definition unlock_step :: "'p shared \<Rightarrow> 'p shared" where
  "unlock_step sh = sh\<lparr>wld := (wld sh)\<lparr>table := hash_table_unlock (table (wld sh))\<rparr>\<rparr>"

definition payload :: "ptr \<Rightarrow> 'p shared \<Rightarrow> 'p res" where
  "payload p sh =
     (case heap (wld sh) p of None \<Rightarrow> Inl Bad_Deref | Some px \<Rightarrow> Inr (atomic px))"

text \<open>The load that decides whether the wait is over, at the top of the loop.\<close>

definition w_load :: "wait_args \<Rightarrow> 'p shared \<Rightarrow> wait_local \<Rightarrow> wait_local res" where
  "w_load a sh l =
     res_bind (atomic_load_generic (mem sh) (object a) (bytes a)) (\<lambda>current.
       let l1 = l\<lparr>loads := loads l @ [(failure a, current)]\<rparr> in
       if current \<noteq> expected l
       then Inr (l1\<lparr>expected := current,
                    pc := if ret l \<noteq> 0 \<and> success a > failure a then W_Reload else W_Tail\<rparr>)
       else Inr (l1\<lparr>pc := if item l = NULL then W_Lock else W_Clock\<rparr>))"

text \<open>The same load again under the table lock.\<close>

definition w_recheck :: "wait_args \<Rightarrow> 'p shared \<Rightarrow> wait_local \<Rightarrow> wait_local res" where
  "w_recheck a sh l =
     res_bind (atomic_load_generic (mem sh) (object a) (bytes a)) (\<lambda>current.
       let l1 = l\<lparr>loads := loads l @ [(failure a, current)]\<rparr> in
       if current \<noteq> expected l
       then Inr (l1\<lparr>expected := current, lock_is_held := True,
                    pc := if ret l \<noteq> 0 \<and> success a > failure a then W_Reload_Locked
                          else W_Tail\<rparr>)
       else Inr (l1\<lparr>pc := W_Unlock\<rparr>))"

text \<open>The reload made for its ordering effect; its value is discarded.\<close>

definition w_reload :: "wait_args \<Rightarrow> 'p shared \<Rightarrow> wait_local \<Rightarrow> wait_local res" where
  "w_reload a sh l =
     res_bind (atomic_load_generic (mem sh) (object a) (bytes a)) (\<lambda>current.
       Inr (l\<lparr>loads := loads l @ [(success a, current)], pc := W_Tail\<rparr>))"

definition w_start :: "wait_args \<Rightarrow> env \<Rightarrow> wait_local \<Rightarrow> wait_local res" where
  "w_start a e l =
     (let l1 = l\<lparr>ret := 0, entry_errno := terrno l, errno_is_set := False, end_time := zero_ts,
                 item := NULL, item_counter := 0, lock_is_held := False, pc := W_Load\<rparr>
      in case duration a of
           None \<Rightarrow> Inr l1
         | Some d \<Rightarrow>
             res_bind (monotonic_now_posix (env_clock_ret e) (env_now e)) (\<lambda>now.
             res_bind (ts_deadline now d) (\<lambda>end_ts. Inr (l1\<lparr>end_time := end_ts\<rparr>))))"

text \<open>The expiry test and the remaining time before each blocking call.\<close>

definition w_clock :: "wait_args \<Rightarrow> env \<Rightarrow> wait_local \<Rightarrow> wait_local res" where
  "w_clock a e l =
     (case duration a of
        None \<Rightarrow> Inr (l\<lparr>remaining := None, pc := W_Park\<rparr>)
      | Some d \<Rightarrow>
          res_bind (monotonic_now_posix (env_clock_ret e) (env_now e)) (\<lambda>now.
            if ts_passed now (end_time l)
            then Inr (l\<lparr>terrno := ETIMEDOUT, errno_is_set := True, ret := 0, pc := W_Tail\<rparr>)
            else res_bind (ts_remaining (end_time l) now) (\<lambda>r.
                   Inr (l\<lparr>remaining := Some r, pc := W_Park\<rparr>))))"

text \<open>What the loop does with the result of the blocking call.\<close>

definition after_wait :: "int \<Rightarrow> wait_local \<Rightarrow> wait_local" where
  "after_wait ret2 l =
     (if ret2 < 0 \<and> ret2 \<noteq> - EAGAIN \<and> ret2 \<noteq> - EINTR \<and> ret2 \<noteq> - ETIMEDOUT
      then l\<lparr>terrno := - ret2, errno_is_set := True, ret := -1, pc := W_Tail\<rparr>
      else l\<lparr>pc := W_Recount\<rparr>)"

definition blocked :: "ptr \<Rightarrow> int option \<times> 'p \<Rightarrow> 'p shared \<Rightarrow> wait_local \<Rightarrow> 'p shared \<times> wait_local"
  where
  "blocked p r sh l =
     (sh\<lparr>wld := poke p (snd r) (wld sh)\<rparr>,
      case fst r of None \<Rightarrow> l\<lparr>pc := W_Parked\<rparr> | Some ret2 \<Rightarrow> after_wait ret2 l)"

definition w_park ::
  "('p, 'o) wait_ops_scheme \<Rightarrow> env \<Rightarrow> 'p shared \<Rightarrow> wait_local \<Rightarrow> ('p shared \<times> wait_local) res"
  where
  "w_park ops e sh l =
     res_bind (payload (item l) sh) (\<lambda>c.
       Inr (blocked (item l) (px_park ops (env_os e) (item_counter l) c) sh l))"

definition w_resume ::
  "('p, 'o) wait_ops_scheme \<Rightarrow> int \<Rightarrow> 'p shared \<Rightarrow> wait_local \<Rightarrow> ('p shared \<times> wait_local) res"
  where
  "w_resume ops r sh l =
     res_bind (payload (item l) sh) (\<lambda>c. Inr (blocked (item l) (px_resume ops r c) sh l))"

definition w_find ::
  "('p, 'o) wait_ops_scheme \<Rightarrow> wait_args \<Rightarrow> 'p shared \<Rightarrow> wait_local \<Rightarrow>
     ('p shared \<times> wait_local) res" where
  "w_find ops a sh l =
     res_bind (hash_table_find_or_create ops (object a) True ((wld sh)\<lparr>errno := terrno l\<rparr>))
       (\<lambda>(p, w). Inr (sh\<lparr>wld := w\<rparr>,
                      l\<lparr>item := p, terrno := errno w,
                        pc := if p = NULL then W_Fail else W_Counter\<rparr>))"

definition w_counter ::
  "('p, 'o) wait_ops_scheme \<Rightarrow> wait_pc \<Rightarrow> 'p shared \<Rightarrow> wait_local \<Rightarrow> wait_local res" where
  "w_counter ops next sh l =
     res_bind (payload (item l) sh) (\<lambda>c.
       Inr (l\<lparr>item_counter := px_counter ops c, pc := next\<rparr>))"

definition w_tail :: "wait_local \<Rightarrow> wait_local" where
  "w_tail l =
     (if item l = NULL then l\<lparr>pc := W_Done\<rparr>
      else l\<lparr>save_errno := if errno_is_set l then terrno l else entry_errno l,
             pc := if lock_is_held l then W_Release else W_Tail_Lock\<rparr>)"

definition w_release ::
  "('p, 'o) wait_ops_scheme \<Rightarrow> wait_args \<Rightarrow> 'p shared \<Rightarrow> wait_local \<Rightarrow>
     ('p shared \<times> wait_local) res" where
  "w_release ops a sh l =
     res_bind (release_item ops (object a) (item l) ((wld sh)\<lparr>errno := terrno l\<rparr>)) (\<lambda>w.
       Inr (sh\<lparr>wld := w\<rparr>, l\<lparr>terrno := errno w, pc := W_Tail_Unlock\<rparr>))"

definition w_acquire_lock ::
  "wait_pc \<Rightarrow> 'p shared \<Rightarrow> wait_local \<Rightarrow> 'p shared \<times> wait_local" where
  "w_acquire_lock next sh l =
     (case lock_step sh of (busy, sh1) \<Rightarrow> (sh1, if busy then l else l\<lparr>pc := next\<rparr>))"

definition local_step :: "'p shared \<Rightarrow> wait_local res \<Rightarrow> ('p shared \<times> wait_local) res" where
  "local_step sh r = res_bind r (\<lambda>l. Inr (sh, l))"

section \<open>One step of a waiting thread\<close>

definition wait_step ::
  "('p, 'o) wait_ops_scheme \<Rightarrow> wait_args \<Rightarrow> env \<Rightarrow> 'p shared \<Rightarrow> wait_local \<Rightarrow>
     ('p shared \<times> wait_local) res" where
  "wait_step ops a e sh l =
     (case pc l of
        W_Start \<Rightarrow> local_step sh (w_start a e l)
      | W_Load \<Rightarrow> local_step sh (w_load a sh l)
      | W_Reload \<Rightarrow> local_step sh (w_reload a sh l)
      | W_Lock \<Rightarrow> Inr (w_acquire_lock W_Find sh l)
      | W_Find \<Rightarrow> w_find ops a sh l
      | W_Fail \<Rightarrow> Inr (unlock_step sh, l\<lparr>ret := -1, pc := W_Done\<rparr>)
      | W_Counter \<Rightarrow> local_step sh (w_counter ops W_Recheck sh l)
      | W_Recheck \<Rightarrow> local_step sh (w_recheck a sh l)
      | W_Reload_Locked \<Rightarrow> local_step sh (w_reload a sh l)
      | W_Unlock \<Rightarrow> Inr (unlock_step sh, l\<lparr>ret := 1, pc := W_Clock\<rparr>)
      | W_Clock \<Rightarrow> local_step sh (w_clock a e l)
      | W_Park \<Rightarrow> w_park ops e sh l
      | W_Parked \<Rightarrow> w_resume ops (env_os e) sh l
      | W_Woken \<Rightarrow> w_resume ops 0 sh l
      | W_Recount \<Rightarrow> local_step sh (w_counter ops W_Load sh l)
      | W_Tail \<Rightarrow> Inr (sh, w_tail l)
      | W_Tail_Lock \<Rightarrow> Inr (w_acquire_lock W_Release sh l)
      | W_Release \<Rightarrow> w_release ops a sh l
      | W_Tail_Unlock \<Rightarrow> Inr (unlock_step sh, l\<lparr>terrno := save_errno l, pc := W_Done\<rparr>)
      | W_Done \<Rightarrow> Inr (sh, l))"

text \<open>A thread on its own, for a list of environment choices.\<close>

fun wait_run ::
  "('p, 'o) wait_ops_scheme \<Rightarrow> wait_args \<Rightarrow> env list \<Rightarrow> 'p shared \<Rightarrow> wait_local \<Rightarrow>
     ('p shared \<times> wait_local) res" where
  "wait_run ops a [] sh l = Inr (sh, l)"
| "wait_run ops a (e # es) sh l =
     res_bind (wait_step ops a e sh l) (\<lambda>(sh1, l1). wait_run ops a es sh1 l1)"

section \<open>One step of a notifying thread\<close>

datatype notify_pc = N_Lock | N_Find | N_Wake | N_Unlock | N_Done

record notify_local =
  npc :: notify_pc
  nobject :: ptr
  nmax :: u32
  nitem :: ptr
  nret :: int
  nerrno :: int

definition notify_enter :: "ptr \<Rightarrow> u32 \<Rightarrow> int \<Rightarrow> notify_local" where
  "notify_enter obj max_threads_to_wake e =
     \<lparr>npc = N_Lock, nobject = obj, nmax = max_threads_to_wake, nitem = NULL, nret = 0,
      nerrno = e\<rparr>"

definition n_find ::
  "('p, 'o) wait_ops_scheme \<Rightarrow> 'p shared \<Rightarrow> notify_local \<Rightarrow> ('p shared \<times> notify_local) res" where
  "n_find ops sh l =
     res_bind (hash_table_find_or_create ops (nobject l) False ((wld sh)\<lparr>errno := nerrno l\<rparr>))
       (\<lambda>(p, w). Inr (sh\<lparr>wld := w\<rparr>,
                      l\<lparr>nitem := p, nerrno := errno w, nret := 0,
                        npc := if p = NULL then N_Unlock else N_Wake\<rparr>))"

text \<open>
  The wake: \<open>parked\<close> threads block on the proxy, the third component of the result is how many of
  them the operating system unblocks.
\<close>

definition n_wake ::
  "('p, 'o) wait_ops_scheme \<Rightarrow> int list \<Rightarrow> nat \<Rightarrow> 'p shared \<Rightarrow> notify_local \<Rightarrow>
     ('p shared \<times> notify_local \<times> nat) res" where
  "n_wake ops s parked sh l =
     (case heap (wld sh) (nitem l) of
        None \<Rightarrow> Inl Bad_Deref
      | Some px \<Rightarrow>
          (case px_wake ops s (nmax l) (use_count px) parked (atomic px) of (r, n, c) \<Rightarrow>
             Inr (sh\<lparr>wld := poke (nitem l) c (wld sh)\<rparr>, l\<lparr>nret := r, npc := N_Unlock\<rparr>, n)))"

text \<open>The steps other than the wake.\<close>

definition notify_step ::
  "('p, 'o) wait_ops_scheme \<Rightarrow> 'p shared \<Rightarrow> notify_local \<Rightarrow> ('p shared \<times> notify_local) res" where
  "notify_step ops sh l =
     (case npc l of
        N_Lock \<Rightarrow> (case lock_step sh of (busy, sh1) \<Rightarrow>
                     Inr (sh1, if busy then l else l\<lparr>npc := N_Find\<rparr>))
      | N_Find \<Rightarrow> n_find ops sh l
      | N_Wake \<Rightarrow> Inr (sh, l)
      | N_Unlock \<Rightarrow> Inr (unlock_step sh, l\<lparr>npc := N_Done\<rparr>)
      | N_Done \<Rightarrow> Inr (sh, l))"

end
