(* ===== verification/Wait_System.thy ===== *)
theory Wait_System
  imports Wait_Generic
begin

text \<open>
  Any number of threads that call \<open>atomic_wait_generic\<close> and \<open>atomic_notify_generic\<close> on any objects,
  and an environment that stores to memory at any time, as an interleaving step relation. Two
  observer variables carry the statement about lost wakes: \<open>dirty k\<close> says that the object at \<open>k\<close>
  was stored to and no wake-all on it completed since; \<open>bumps t\<close> counts the wakes on the object
  of thread \<open>t\<close> between its reading of the generation counter and its blocking call. The
  invariant \<open>sys_inv\<close> (lock ownership, reference counts, local consistency) is kept by every step
  of every backend, so no thread ever faults.
\<close>

section \<open>The system\<close>

datatype thread =
    Idle
  | Waiting wait_args wait_local
  | Notifying notify_local
  | Crashed fault

record 'p sys =
  shr :: "'p shared"
  threads :: "nat \<Rightarrow> thread"
  dirty :: "ptr \<Rightarrow> bool"
  bumps :: "nat \<Rightarrow> nat"

definition valid_call :: "wait_args \<Rightarrow> bool" where
  "valid_call a \<longleftrightarrow>
     valid_key (object a) \<and> wait_width (bytes a) \<and> length (expected0 a) = bytes a
     \<and> (case duration a of None \<Rightarrow> True | Some d \<Rightarrow> valid_ts d)"

definition valid_env :: "env \<Rightarrow> bool" where
  "valid_env e \<longleftrightarrow> env_clock_ret e = 0 \<and> valid_ts (env_now e)"

text \<open>
  In the runs of the system \<open>clock_gettime\<close> succeeds: where it fails the process aborts. The steps that
  read the clock:
\<close>

definition reads_clock :: "wait_args \<Rightarrow> wait_local \<Rightarrow> bool" where
  "reads_clock a l \<longleftrightarrow> duration a \<noteq> None \<and> pc l \<in> {W_Start, W_Clock}"

text \<open>Results of operating system calls: zero or an errno value.\<close>

definition valid_os :: "int list \<Rightarrow> bool" where
  "valid_os os \<longleftrightarrow> (\<forall>r\<in>set os. 0 \<le> r)"

text \<open>The threads the operating system has blocked on a proxy.\<close>

fun parked_on :: "ptr \<Rightarrow> thread \<Rightarrow> bool" where
  "parked_on p (Waiting a l) \<longleftrightarrow> pc l = W_Parked \<and> item l = p"
| "parked_on p _ \<longleftrightarrow> False"

fun wake_thread :: "thread \<Rightarrow> thread" where
  "wake_thread (Waiting a l) = Waiting a (l\<lparr>pc := W_Woken\<rparr>)"
| "wake_thread th = th"

text \<open>A wake on proxy \<open>p\<close> overtakes the threads that use \<open>p\<close> and are not blocked.\<close>

fun overtaken :: "ptr \<Rightarrow> thread \<Rightarrow> bool" where
  "overtaken p (Waiting a l) \<longleftrightarrow> pc l \<noteq> W_Parked \<and> item l = p"
| "overtaken p _ \<longleftrightarrow> False"

definition after_store :: "(ptr \<Rightarrow> u8) \<Rightarrow> 'p sys \<Rightarrow> 'p sys" where
  "after_store m s =
     s\<lparr>shr := (shr s)\<lparr>mem := m\<rparr>,
       dirty := (\<lambda>k. dirty s k \<or> load_bytes m k 8 \<noteq> load_bytes (mem (shr s)) k 8)\<rparr>"

definition after_wait_step :: "nat \<Rightarrow> wait_args \<Rightarrow> wait_local \<Rightarrow> 'p shared \<Rightarrow> wait_local \<Rightarrow> 'p sys \<Rightarrow> 'p sys"
  where
  "after_wait_step t a l sh l' s =
     s\<lparr>shr := sh, threads := (threads s)(t := Waiting a l'),
       bumps := (if pc l = W_Counter \<or> pc l = W_Recount then (bumps s)(t := 0) else bumps s)\<rparr>"

definition after_notify_step ::
  "nat \<Rightarrow> notify_local \<Rightarrow> 'p shared \<Rightarrow> notify_local \<Rightarrow> 'p sys \<Rightarrow> 'p sys" where
  "after_notify_step t l sh l' s =
     s\<lparr>shr := sh, threads := (threads s)(t := Notifying l'),
       dirty := (if npc l = N_Find \<and> nitem l' = NULL then (dirty s)(nobject l := False)
                 else dirty s)\<rparr>"

definition after_wake ::
  "nat \<Rightarrow> notify_local \<Rightarrow> 'p shared \<Rightarrow> notify_local \<Rightarrow> nat set \<Rightarrow> 'p sys \<Rightarrow> 'p sys" where
  "after_wake t l sh l' S s =
     s\<lparr>shr := sh,
       threads := (\<lambda>u. if u = t then Notifying l'
                       else if u \<in> S then wake_thread (threads s u) else threads s u),
       bumps := (\<lambda>u. if overtaken (nitem l) (threads s u) then Suc (bumps s u) else bumps s u),
       dirty := (if nmax l = WAKE_ALL \<and> nret l' \<ge> 0 then (dirty s)(nobject l := False)
                 else dirty s)\<rparr>"

inductive sys_step :: "('p, 'o) wait_ops_scheme \<Rightarrow> nat \<Rightarrow> 'p sys \<Rightarrow> 'p sys \<Rightarrow> bool"
  for ops :: "('p, 'o) wait_ops_scheme" and N :: nat where
  call_wait:
    "t < N \<Longrightarrow> threads s t = Idle \<Longrightarrow> valid_call a \<Longrightarrow>
     sys_step ops N s (s\<lparr>threads := (threads s)(t := Waiting a (wait_enter a e))\<rparr>)"
| wait:
    "threads s t = Waiting a l \<Longrightarrow> valid_env e \<Longrightarrow> wait_step ops a e (shr s) l = Inr (sh, l') \<Longrightarrow>
     sys_step ops N s (after_wait_step t a l sh l' s)"
| wait_fault:
    "threads s t = Waiting a l \<Longrightarrow> valid_env e \<Longrightarrow> wait_step ops a e (shr s) l = Inl f \<Longrightarrow>
     sys_step ops N s (s\<lparr>threads := (threads s)(t := Crashed f)\<rparr>)"
| return_wait:
    "threads s t = Waiting a l \<Longrightarrow> pc l = W_Done \<Longrightarrow>
     sys_step ops N s (s\<lparr>threads := (threads s)(t := Idle)\<rparr>)"
| call_notify:
    "t < N \<Longrightarrow> threads s t = Idle \<Longrightarrow> valid_key k \<Longrightarrow>
     sys_step ops N s (s\<lparr>threads := (threads s)(t := Notifying (notify_enter k m e))\<rparr>)"
| notify:
    "threads s t = Notifying l \<Longrightarrow> npc l \<noteq> N_Wake \<Longrightarrow> notify_step ops (shr s) l = Inr (sh, l') \<Longrightarrow>
     sys_step ops N s (after_notify_step t l sh l' s)"
| notify_fault:
    "threads s t = Notifying l \<Longrightarrow> npc l \<noteq> N_Wake \<Longrightarrow> notify_step ops (shr s) l = Inl f \<Longrightarrow>
     sys_step ops N s (s\<lparr>threads := (threads s)(t := Crashed f)\<rparr>)"
| wake:
    "threads s t = Notifying l \<Longrightarrow> npc l = N_Wake \<Longrightarrow>
     P = {u. parked_on (nitem l) (threads s u)} \<Longrightarrow> valid_os os \<Longrightarrow>
     n_wake ops os (card P) (shr s) l = Inr (sh, l', n) \<Longrightarrow> S \<subseteq> P \<Longrightarrow> card S = n \<Longrightarrow>
     sys_step ops N s (after_wake t l sh l' S s)"
| wake_fault:
    "threads s t = Notifying l \<Longrightarrow> npc l = N_Wake \<Longrightarrow>
     P = {u. parked_on (nitem l) (threads s u)} \<Longrightarrow> n_wake ops os (card P) (shr s) l = Inl f \<Longrightarrow>
     sys_step ops N s (s\<lparr>threads := (threads s)(t := Crashed f)\<rparr>)"
| return_notify:
    "threads s t = Notifying l \<Longrightarrow> npc l = N_Done \<Longrightarrow>
     sys_step ops N s (s\<lparr>threads := (threads s)(t := Idle)\<rparr>)"
| store:
    "sys_step ops N s (after_store m s)"

definition sys_init :: "(os_answers \<Rightarrow> bool) \<Rightarrow> 'p sys \<Rightarrow> bool" where
  "sys_init calm s \<longleftrightarrow>
     table (wld (shr s)) = shared_global_hash_table \<and> heap (wld (shr s)) = Map.empty
     \<and> calm (os_script (wld (shr s))) \<and> threads s = (\<lambda>_. Idle)"

inductive reachable :: "('p, 'o) wait_ops_scheme \<Rightarrow> (os_answers \<Rightarrow> bool) \<Rightarrow> nat \<Rightarrow> 'p sys \<Rightarrow> bool"
  for ops :: "('p, 'o) wait_ops_scheme" and calm :: "os_answers \<Rightarrow> bool" and N :: nat where
  init: "sys_init calm s \<Longrightarrow> reachable ops calm N s"
| step: "reachable ops calm N s \<Longrightarrow> sys_step ops N s s' \<Longrightarrow> reachable ops calm N s'"

section \<open>The invariant\<close>

fun critical :: "thread \<Rightarrow> bool" where
  "critical (Waiting a l) \<longleftrightarrow>
     pc l \<in> {W_Find, W_Fail, W_Counter, W_Recheck, W_Reload_Locked, W_Unlock, W_Release, W_Tail_Unlock}
     \<or> pc l = W_Tail \<and> lock_is_held l"
| "critical (Notifying l) \<longleftrightarrow> npc l \<in> {N_Find, N_Wake, N_Unlock}"
| "critical _ \<longleftrightarrow> False"

fun registered :: "ptr \<Rightarrow> thread \<Rightarrow> bool" where
  "registered k (Waiting a l) \<longleftrightarrow>
     object a = k \<and> item l \<noteq> NULL \<and> pc l \<noteq> W_Tail_Unlock \<and> pc l \<noteq> W_Done"
| "registered k _ \<longleftrightarrow> False"

fun thread_item :: "thread \<Rightarrow> ptr" where
  "thread_item (Waiting a l) = item l"
| "thread_item (Notifying l) = nitem l"
| "thread_item _ = NULL"

definition end_ok :: "timespec \<Rightarrow> bool" where
  "end_ok t \<longleftrightarrow> 0 \<le> tv_sec t \<and> tv_sec t < 2 ^ 63 \<and> 0 \<le> tv_nsec t \<and> tv_nsec t < 1000000000"

definition local_ok :: "wait_local \<Rightarrow> bool" where
  "local_ok l \<longleftrightarrow>
     (pc l \<in> {W_Start, W_Lock, W_Find, W_Fail} \<longrightarrow> item l = NULL) \<and>
     (pc l \<in> {W_Counter, W_Recheck, W_Reload_Locked, W_Unlock, W_Clock, W_Park, W_Parked, W_Woken,
              W_Recount, W_Tail_Lock, W_Release, W_Tail_Unlock} \<longrightarrow> item l \<noteq> NULL) \<and>
     (lock_is_held l \<longrightarrow> item l \<noteq> NULL \<and>
        pc l \<in> {W_Reload_Locked, W_Tail, W_Release, W_Tail_Unlock, W_Done}) \<and>
     (pc l = W_Reload_Locked \<longrightarrow> lock_is_held l) \<and>
     (pc l \<noteq> W_Start \<longrightarrow> end_ok (end_time l))"

fun thread_ok :: "thread \<Rightarrow> bool" where
  "thread_ok (Waiting a l) \<longleftrightarrow> valid_call a \<and> local_ok l"
| "thread_ok (Notifying l) \<longleftrightarrow> valid_key (nobject l)"
| "thread_ok Idle \<longleftrightarrow> True"
| "thread_ok (Crashed f) \<longleftrightarrow> False"

definition lock_inv :: "bool \<Rightarrow> (nat \<Rightarrow> thread) \<Rightarrow> bool" where
  "lock_inv h ths \<longleftrightarrow>
     (h \<longleftrightarrow> (\<exists>t. critical (ths t))) \<and> (\<forall>t u. critical (ths t) \<and> critical (ths u) \<longrightarrow> t = u)"

definition users_of :: "(nat \<Rightarrow> thread) \<Rightarrow> ptr \<Rightarrow> nat set" where
  "users_of ths k = {t. registered k (ths t)}"

fun ref_entry :: "(ptr \<times> nat \<times> 'p) option \<Rightarrow> nat set \<Rightarrow> (nat \<Rightarrow> thread) \<Rightarrow> bool" where
  "ref_entry None U ths \<longleftrightarrow> U = {}"
| "ref_entry (Some (p, n, c)) U ths \<longleftrightarrow> n = card U \<and> (\<forall>t\<in>U. thread_item (ths t) = p)"

definition refs_agree :: "(ptr \<Rightarrow> (ptr \<times> nat \<times> 'p) option) \<Rightarrow> (nat \<Rightarrow> thread) \<Rightarrow> bool" where
  "refs_agree v ths \<longleftrightarrow> (\<forall>k. ref_entry (v k) (users_of ths k) ths)"

text \<open>A notifier about to wake holds the proxy of its object.\<close>

definition wakers_agree :: "(ptr \<Rightarrow> (ptr \<times> nat \<times> 'p) option) \<Rightarrow> (nat \<Rightarrow> thread) \<Rightarrow> bool" where
  "wakers_agree v ths \<longleftrightarrow>
     (\<forall>t l. ths t = Notifying l \<and> npc l = N_Wake \<longrightarrow> (\<exists>n c. v (nobject l) = Some (nitem l, n, c)))"

definition sys_inv :: "(os_answers \<Rightarrow> bool) \<Rightarrow> nat \<Rightarrow> 'p sys \<Rightarrow> bool" where
  "sys_inv calm N s \<longleftrightarrow>
     good_world calm (wld (shr s)) \<and>
     lock_inv (held (wld (shr s))) (threads s) \<and>
     refs_agree (view (wld (shr s))) (threads s) \<and>
     wakers_agree (view (wld (shr s))) (threads s) \<and>
     (\<forall>t. thread_ok (threads s t)) \<and> (\<forall>t\<ge>N. threads s t = Idle)"

lemma users_of_bound:
  assumes "\<forall>t\<ge>N. ths t = Idle"
  shows "users_of ths k \<subseteq> {..<N}"
proof
  fix t assume "t \<in> users_of ths k"
  then have "ths t \<noteq> Idle"
    by (auto simp: users_of_def)
  then show "t \<in> {..<N}"
    using assms by (meson lessThan_iff not_le)
qed

lemma finite_users: "\<forall>t\<ge>N. ths t = Idle \<Longrightarrow> finite (users_of ths k)"
  by (rule finite_subset [OF users_of_bound finite_lessThan])

section \<open>Effects of a step of one thread\<close>

text \<open>The lock: \<open>c\<close>, \<open>c'\<close> say whether the thread owns it before and after.\<close>

definition lock_eff :: "bool \<Rightarrow> bool \<Rightarrow> bool \<Rightarrow> bool \<Rightarrow> bool" where
  "lock_eff h c h' c' \<longleftrightarrow> h' = (if c then c' else h \<or> c') \<and> (c' \<longrightarrow> c \<or> \<not> h)"

lemma lock_inv_step:
  assumes "lock_inv h ths" and "lock_eff h (critical (ths t)) h' (critical th)"
  shows "lock_inv h' (ths(t := th))"
proof -
  have un: "u = v" if "critical (ths u)" "critical (ths v)" for u v
    using assms(1) that by (auto simp: lock_inv_def)
  show ?thesis
  proof (cases "critical (ths t)")
    case True
    then have "\<not> critical (ths u)" if "u \<noteq> t" for u
      using un that by blast
    then show ?thesis
      using assms(2) True by (auto simp: lock_inv_def lock_eff_def)
  next
    case False
    then show ?thesis
      using assms un unfolding lock_inv_def lock_eff_def by (smt (verit) fun_upd_apply)
  qed
qed

text \<open>The table: \<open>r\<close>, \<open>r'\<close> say whether the thread is registered before and after.\<close>

definition view_keeps ::
  "(ptr \<Rightarrow> (ptr \<times> nat \<times> 'p) option) \<Rightarrow> ptr \<Rightarrow> (ptr \<Rightarrow> (ptr \<times> nat \<times> 'p) option) \<Rightarrow> bool" where
  "view_keeps v k v' \<longleftrightarrow>
     v' = v \<or> (\<exists>p n c c'. v k = Some (p, n, c) \<and> v' = v(k \<mapsto> (p, n, c')))"

definition view_joins ::
  "(ptr \<Rightarrow> (ptr \<times> nat \<times> 'p) option) \<Rightarrow> ptr \<Rightarrow> ptr \<Rightarrow> (ptr \<Rightarrow> (ptr \<times> nat \<times> 'p) option) \<Rightarrow> bool" where
  "view_joins v k p v' \<longleftrightarrow>
     (\<exists>n c. v k = Some (p, n, c) \<and> v' = v(k \<mapsto> (p, Suc n, c))) \<or>
     v k = None \<and> (\<exists>c. v' = v(k \<mapsto> (p, 1, c)))"

definition view_leaves ::
  "(ptr \<Rightarrow> (ptr \<times> nat \<times> 'p) option) \<Rightarrow> ptr \<Rightarrow> (ptr \<Rightarrow> (ptr \<times> nat \<times> 'p) option) \<Rightarrow> bool" where
  "view_leaves v k v' \<longleftrightarrow>
     (\<exists>p n c. v k = Some (p, Suc n, c) \<and> v' = v(k := if n = 0 then None else Some (p, n, c)))"

text \<open>How the set of users changes when thread \<open>t\<close> becomes \<open>th\<close>.\<close>

lemma users_of_upd:
  "users_of (ths(t := th)) k =
     (if registered k th then insert t (users_of ths k) else users_of ths k - {t})"
  by (auto simp: users_of_def)

definition same_registration :: "thread \<Rightarrow> thread \<Rightarrow> bool" where
  "same_registration th th' \<longleftrightarrow>
     (\<forall>k. registered k th' = registered k th) \<and>
     (\<forall>k. registered k th \<longrightarrow> thread_item th' = thread_item th)"

lemma ref_entry_cong:
  assumes "\<And>t. t \<in> U \<Longrightarrow> thread_item (ths' t) = thread_item (ths t)"
  shows "ref_entry e U ths' = ref_entry e U ths"
  using assms by (induction e U ths rule: ref_entry.induct) auto

lemma refs_agree_same:
  assumes "refs_agree v ths" and "view_keeps v k v'" and "same_registration (ths t) th"
  shows "refs_agree v' (ths(t := th))"
  unfolding refs_agree_def
proof
  fix j
  have u: "users_of (ths(t := th)) j = users_of ths j"
    using assms(3) by (auto simp: users_of_def same_registration_def)
  have i: "thread_item ((ths(t := th)) x) = thread_item (ths x)" if "x \<in> users_of ths j" for x
    using assms(3) that by (auto simp: users_of_def same_registration_def)
  have old: "ref_entry (v j) (users_of ths j) ths"
    using assms(1) by (simp add: refs_agree_def)
  have "ref_entry (v' j) (users_of ths j) ths"
  proof (cases "v' j = v j")
    case False
    then obtain p n c c' where "v j = Some (p, n, c)" "v' j = Some (p, n, c')"
      using assms(2) by (cases "j = k") (auto simp: view_keeps_def)
    then show ?thesis
      using old by simp
  qed (use old in simp)
  then show "ref_entry (v' j) (users_of (ths(t := th)) j) (ths(t := th))"
    unfolding u by (simp add: ref_entry_cong [OF i])
qed

lemma refs_agree_join:
  assumes ag: "refs_agree v ths" and fin: "finite (users_of ths k)" and j: "view_joins v k p v'"
    and nr: "\<forall>k. \<not> registered k (ths t)"
    and th: "\<forall>j. registered j th \<longleftrightarrow> j = k" "thread_item th = p"
  shows "refs_agree v' (ths(t := th))"
  unfolding refs_agree_def
proof
  fix j
  have old: "ref_entry (v j) (users_of ths j) ths"
    using ag by (simp add: refs_agree_def)
  have nt: "t \<notin> users_of ths j"
    using nr by (simp add: users_of_def)
  then have i: "thread_item ((ths(t := th)) x) = thread_item (ths x)" if "x \<in> users_of ths j" for x
    using that by auto
  show "ref_entry (v' j) (users_of (ths(t := th)) j) (ths(t := th))"
  proof (cases "j = k")
    case False
    have "v' j = v j"
      using \<open>view_joins v k p v'\<close> False by (auto simp: view_joins_def)
    moreover have "users_of (ths(t := th)) j = users_of ths j"
      using th(1) nt False by (simp add: users_of_upd)
    ultimately show ?thesis
      using old by (simp add: ref_entry_cong [OF i])
  next
    case True
    have u: "users_of (ths(t := th)) j = insert t (users_of ths j)"
      using th(1) True by (simp add: users_of_upd)
    have ck: "card (insert t (users_of ths j)) = Suc (card (users_of ths j))"
      using fin nt True by simp
    consider n c where "v j = Some (p, n, c)" "v' j = Some (p, Suc n, c)"
      | c where "v j = None" "v' j = Some (p, Suc 0, c)"
      using \<open>view_joins v k p v'\<close> True by (auto simp: view_joins_def)
    then show ?thesis
      using old ck i th(2) nt by cases (auto simp: u)
  qed
qed

lemma refs_agree_leave:
  assumes ag: "refs_agree v ths" and fin: "finite (users_of ths k)" and lv: "view_leaves v k v'"
    and r: "\<forall>j. registered j (ths t) \<longleftrightarrow> j = k" and th: "\<forall>j. \<not> registered j th"
  shows "refs_agree v' (ths(t := th))"
  unfolding refs_agree_def
proof
  fix j
  have old: "ref_entry (v j) (users_of ths j) ths"
    using ag by (simp add: refs_agree_def)
  show "ref_entry (v' j) (users_of (ths(t := th)) j) (ths(t := th))"
  proof (cases "j = k")
    case False
    have "v' j = v j"
      using lv False by (auto simp: view_leaves_def)
    moreover have nt: "t \<notin> users_of ths j"
      using r False by (simp add: users_of_def)
    moreover have "users_of (ths(t := th)) j = users_of ths j"
      using th nt by (simp add: users_of_upd)
    moreover have "ref_entry (v j) (users_of ths j) (ths(t := th))"
      using old nt by (subst ref_entry_cong [where ths = ths]) auto
    ultimately show ?thesis
      by simp
  next
    case True
    have u: "users_of (ths(t := th)) j = users_of ths j - {t}"
      using th by (simp add: users_of_upd)
    have "t \<in> users_of ths j"
      using r True by (simp add: users_of_def)
    then have ck: "card (users_of ths j) = Suc (card (users_of ths j - {t}))"
      using fin True by (metis card_Suc_Diff1)
    obtain p n c where v: "v j = Some (p, Suc n, c)"
        "v' j = (if n = 0 then None else Some (p, n, c))"
      using lv True by (auto simp: view_leaves_def)
    then have n: "n = card (users_of ths j - {t})"
      using old ck by simp
    show ?thesis
    proof (cases "n = 0")
      case True
      then have "users_of ths j - {t} = {}"
        using n fin \<open>j = k\<close> by simp
      then show ?thesis
        using v True by (simp add: u)
    next
      case False
      then show ?thesis
        using v n old by (auto simp: u)
    qed
  qed
qed

end
