(* ===== verification/Wait_Safety.thy ===== *)
theory Wait_Safety
  imports Wait_System
begin

text \<open>
  The invariant of \<open>Wait_System\<close> is kept by every step, for any backend that meets the contract
  \<open>proxy_backend\<close>. \<open>step_eff\<close> says what a step of one thread may do to the lock, the table and the
  registration of the thread; each program point of \<open>atomic_wait_generic\<close> and
  \<open>atomic_notify_generic\<close> is shown to run without a fault and to have such an effect; the
  invariant of the whole system follows from that alone.
\<close>

section \<open>Effect of one step\<close>

text \<open>Only the blocking call and the wake change the payload of a proxy.\<close>

fun may_poke :: "thread \<Rightarrow> bool" where
  "may_poke (Waiting a l) \<longleftrightarrow> pc l \<in> {W_Park, W_Parked, W_Woken}"
| "may_poke (Notifying l) \<longleftrightarrow> npc l = N_Wake"
| "may_poke _ \<longleftrightarrow> False"

definition step_eff :: "(os_answers \<Rightarrow> bool) \<Rightarrow> ptr \<Rightarrow> 'p shared \<Rightarrow> thread \<Rightarrow> 'p shared \<Rightarrow> thread \<Rightarrow> bool"
  where
  "step_eff calm k sh th sh' th' \<longleftrightarrow>
     good_world calm (wld sh') \<and> mem sh' = mem sh \<and> thread_ok th' \<and>
     lock_eff (held (wld sh)) (critical th) (held (wld sh')) (critical th') \<and>
     ((view (wld sh') = view (wld sh) \<or> may_poke th \<and> view_keeps (view (wld sh)) k (view (wld sh')))
        \<and> same_registration th th' \<or>
      critical th \<and> view_joins (view (wld sh)) k (thread_item th') (view (wld sh')) \<and>
        (\<forall>j. \<not> registered j th) \<and> (\<forall>j. registered j th' \<longleftrightarrow> j = k) \<or>
      critical th \<and> view_leaves (view (wld sh)) k (view (wld sh')) \<and>
        (\<forall>j. registered j th \<longleftrightarrow> j = k) \<and> (\<forall>j. \<not> registered j th'))"

text \<open>What a waiting thread finds when it runs.\<close>

definition counts_small :: "'p world \<Rightarrow> bool" where
  "counts_small w \<longleftrightarrow> (\<forall>k p n a. view w k = Some (p, n, a) \<longrightarrow> int n < INT_MAX)"

definition step_pre :: "(os_answers \<Rightarrow> bool) \<Rightarrow> wait_args \<Rightarrow> 'p shared \<Rightarrow> wait_local \<Rightarrow> bool" where
  "step_pre calm a sh l \<longleftrightarrow>
     good_world calm (wld sh) \<and> counts_small (wld sh) \<and> valid_call a \<and> local_ok l \<and>
     (registered (object a) (Waiting a l) \<longrightarrow>
        (\<exists>n c. view (wld sh) (object a) = Some (item l, n, c))) \<and>
     (critical (Waiting a l) \<longrightarrow> held (wld sh))"

lemma step_pre_parts:
  assumes "step_pre calm a sh l"
  shows "good_world calm (wld sh)" "counts_small (wld sh)" "valid_call a" "local_ok l"
    "critical (Waiting a l) \<Longrightarrow> held (wld sh)"
    "item l \<noteq> NULL \<Longrightarrow> pc l \<notin> {W_Tail_Unlock, W_Done} \<Longrightarrow>
       \<exists>n c. view (wld sh) (object a) = Some (item l, n, c)"
  using assms unfolding step_pre_def by simp_all

lemma view_keeps_refl [simp, intro]: "view_keeps v k v"
  by (simp add: view_keeps_def)

lemma view_keeps_payload [intro]: "v k = Some (p, n, c) \<Longrightarrow> view_keeps v k (v(k \<mapsto> (p, n, c')))"
  by (auto simp: view_keeps_def)

lemma lookup_cong [simp]:
  "lookup (w\<lparr>errno := e\<rparr>) = lookup w" "lookup (w\<lparr>table := (table w)\<lparr>lock := b\<rparr>\<rparr>) = lookup w"
  by (simp_all add: lookup_def)

lemma view_irrelevant [simp]:
  "view (w\<lparr>errno := e\<rparr>) = view w" "view (w\<lparr>table := (table w)\<lparr>lock := b\<rparr>\<rparr>) = view w"
  by (rule view_cong; simp)+

lemma good_world_irrelevant [simp]:
  "good_world calm (w\<lparr>errno := e\<rparr>) = good_world calm w"
  "good_world calm (w\<lparr>table := (table w)\<lparr>lock := b\<rparr>\<rparr>) = good_world calm w"
  by (simp_all add: good_world_def refs_inv_def world_inv_def table_inv_def split: option.split)

lemma payload_of_view:
  assumes "view (wld sh) k = Some (p, n, c)"
  shows "payload p sh = Inr c"
  using assms by (auto simp: payload_def view_Some)

text \<open>Steps that leave the world alone, or only move the lock.\<close>

lemma local_step_eff:
  assumes "step_pre calm a sh l" and "local_ok l'"
    and "critical (Waiting a l') = critical (Waiting a l)"
    and "same_registration (Waiting a l) (Waiting a l')"
  shows "step_eff calm (object a) sh (Waiting a l) sh (Waiting a l')"
  using assms unfolding step_eff_def step_pre_def lock_eff_def
  by (simp del: critical.simps registered.simps)

lemma unlock_step_eff:
  assumes "step_pre calm a sh l" and "local_ok l'"
    and "critical (Waiting a l)" and "\<not> critical (Waiting a l')"
    and "same_registration (Waiting a l) (Waiting a l')"
  shows "step_eff calm (object a) sh (Waiting a l) (unlock_step sh) (Waiting a l')"
  using assms unfolding step_eff_def step_pre_def lock_eff_def unlock_step_def hash_table_unlock_def
  by (simp del: critical.simps registered.simps)

lemma acquire_lock_eff:
  assumes "step_pre calm a sh l" and "local_ok (l\<lparr>pc := next\<rparr>)"
    and "\<not> critical (Waiting a l)" and "critical (Waiting a (l\<lparr>pc := next\<rparr>))"
    and "same_registration (Waiting a l) (Waiting a (l\<lparr>pc := next\<rparr>))"
    and "w_acquire_lock next sh l = (sh', l')"
  shows "step_eff calm (object a) sh (Waiting a l) sh' (Waiting a l')"
proof (cases "held (wld sh)")
  case True
  then have "(table (wld sh))\<lparr>lock := True\<rparr> = table (wld sh)"
    by simp
  then have "sh' = sh" "l' = l"
    using assms(6) True by (auto simp: w_acquire_lock_def lock_step_def hash_table_lock_def)
  then show ?thesis
    using assms(1,3) True unfolding step_eff_def step_pre_def lock_eff_def same_registration_def
    by (simp del: critical.simps registered.simps)
next
  case False
  then have eq: "l' = l\<lparr>pc := next\<rparr>"
      "sh' = sh\<lparr>wld := (wld sh)\<lparr>table := (table (wld sh))\<lparr>lock := True\<rparr>\<rparr>\<rparr>"
    using assms(6) by (simp_all add: w_acquire_lock_def lock_step_def hash_table_lock_def)
  show ?thesis
    using assms(1-5) False unfolding step_eff_def step_pre_def lock_eff_def eq
    by (simp del: critical.simps registered.simps)
qed

lemma same_registration_waiting:
  assumes "item l' = item l"
    and "item l \<noteq> NULL \<Longrightarrow> (pc l' \<in> {W_Tail_Unlock, W_Done}) = (pc l \<in> {W_Tail_Unlock, W_Done})"
  shows "same_registration (Waiting a l) (Waiting a l')"
  using assms by (auto simp: same_registration_def)

section \<open>The steps of the wait that touch no shared state\<close>

definition local_eff :: "wait_args \<Rightarrow> wait_local \<Rightarrow> wait_local \<Rightarrow> bool" where
  "local_eff a l l' \<longleftrightarrow>
     local_ok l' \<and> critical (Waiting a l') = critical (Waiting a l)
     \<and> same_registration (Waiting a l) (Waiting a l')"

lemma local_effI:
  assumes "local_ok l'" and "critical (Waiting a l') = critical (Waiting a l)" and "item l' = item l"
    and "item l \<noteq> NULL \<Longrightarrow> (pc l' \<in> {W_Tail_Unlock, W_Done}) = (pc l \<in> {W_Tail_Unlock, W_Done})"
  shows "local_eff a l l'"
  unfolding local_eff_def using assms same_registration_waiting by blast

lemma local_stepI:
  assumes "step_pre calm a sh l" and "r = Inr l'" and "local_eff a l l'"
  shows "\<exists>sh' l'. local_step sh r = Inr (sh', l')
           \<and> step_eff calm (object a) sh (Waiting a l) sh' (Waiting a l')"
proof -
  have "step_eff calm (object a) sh (Waiting a l) sh (Waiting a l')"
    using assms(3) unfolding local_eff_def by (blast intro: local_step_eff [OF assms(1)])
  then show ?thesis
    using assms(2) by (simp add: local_step_def)
qed

lemma local_ok_item:
  assumes "local_ok l"
    and "pc l \<in> {W_Counter, W_Recheck, W_Reload_Locked, W_Unlock, W_Clock, W_Park, W_Parked, W_Woken,
              W_Recount, W_Tail_Lock, W_Release, W_Tail_Unlock}"
  shows "item l \<noteq> NULL"
  using assms unfolding local_ok_def by (elim conjE) (rule mp)

lemma local_ok_unheld:
  assumes "local_ok l" and "pc l \<notin> {W_Reload_Locked, W_Tail, W_Release, W_Tail_Unlock, W_Done}"
  shows "\<not> lock_is_held l"
  using assms unfolding local_ok_def by metis

lemma local_ok_held: "local_ok l \<Longrightarrow> lock_is_held l \<Longrightarrow> item l \<noteq> NULL"
  unfolding local_ok_def by metis

lemma local_ok_end: "local_ok l \<Longrightarrow> pc l \<noteq> W_Start \<Longrightarrow> end_ok (end_time l)"
  unfolding local_ok_def by metis

lemma local_ok_unregistered:
  "local_ok l \<Longrightarrow> pc l \<in> {W_Start, W_Lock, W_Find, W_Fail} \<Longrightarrow> item l = NULL"
  unfolding local_ok_def by metis

lemma end_ok_zero: "end_ok zero_ts"
  by (simp add: end_ok_def zero_ts_def)

lemma w_start_eff:
  assumes "local_ok l" and "pc l = W_Start" and "valid_call a" and "valid_env e"
  shows "\<exists>l'. w_start a e l = Inr l' \<and> local_eff a l l'"
proof -
  have i: "item l = NULL" "\<not> lock_is_held l"
    using assms(1,2) by (auto simp: local_ok_def)
  show ?thesis
  proof (cases "duration a")
    case None
    then show ?thesis
      using i assms(2) by (auto simp: w_start_def local_ok_def end_ok_zero intro!: local_effI)
  next
    case (Some d)
    have "monotonic_now_posix (env_clock_ret e) (env_now e) = Inr (env_now e)"
      using assms(4) by (simp add: monotonic_now_posix_def valid_env_def)
    moreover obtain t where "ts_deadline (env_now e) d = Inr t" "end_ok t"
      using ts_deadline_exact [of "env_now e" d] assms(3,4) Some
      by (auto simp: valid_env_def valid_call_def end_ok_def)
    ultimately show ?thesis
      using i assms(2) Some by (auto simp: w_start_def local_ok_def intro!: local_effI)
  qed
qed

lemma w_load_eff:
  assumes "local_ok l" and "pc l = W_Load" and "valid_call a"
  shows "\<exists>l'. w_load a sh l = Inr l' \<and> local_eff a l l'"
proof -
  have i: "\<not> lock_is_held l" "end_ok (end_time l)" "wait_width (bytes a)"
    using assms by (auto simp: local_ok_def valid_call_def)
  show ?thesis
    using i assms(2)
    by (cases "item l = NULL")
      (simp_all add: w_load_def atomic_load_generic_ok Let_def local_ok_def local_effI)
qed

lemma w_recheck_eff:
  assumes "local_ok l" and "pc l = W_Recheck" and "valid_call a"
  shows "\<exists>l'. w_recheck a sh l = Inr l' \<and> local_eff a l l'"
proof -
  have i: "\<not> lock_is_held l" "item l \<noteq> NULL" "end_ok (end_time l)" "wait_width (bytes a)"
    using assms by (auto simp: local_ok_def valid_call_def)
  show ?thesis
    using i assms(2)
    by (simp add: w_recheck_def atomic_load_generic_ok Let_def local_ok_def local_effI)
qed

lemma w_reload_eff:
  assumes "local_ok l" and "pc l = W_Reload \<or> pc l = W_Reload_Locked" and "valid_call a"
  shows "\<exists>l'. w_reload a sh l = Inr l' \<and> local_eff a l l'"
  using assms(2)
proof
  have i: "end_ok (end_time l)" "wait_width (bytes a)"
    using assms local_ok_end by (auto simp: valid_call_def)
  show ?thesis if "pc l = W_Reload"
    using i that local_ok_unheld [OF assms(1)]
    by (simp add: w_reload_def atomic_load_generic_ok local_ok_def local_effI)
  show ?thesis if "pc l = W_Reload_Locked"
  proof -
    have "lock_is_held l" "item l \<noteq> NULL"
      using assms(1) that by (simp_all add: local_ok_def)
    then show ?thesis
      using i that by (simp add: w_reload_def atomic_load_generic_ok local_ok_def local_effI)
  qed
qed

lemma w_clock_eff:
  assumes "local_ok l" and "pc l = W_Clock" and "valid_env e"
  shows "\<exists>l'. w_clock a e l = Inr l' \<and> local_eff a l l'"
proof -
  have i: "item l \<noteq> NULL" "\<not> lock_is_held l" "end_ok (end_time l)"
    using assms(1,2) by (auto simp: local_ok_def)
  have n: "monotonic_now_posix (env_clock_ret e) (env_now e) = Inr (env_now e)"
    using assms(3) by (simp add: monotonic_now_posix_def valid_env_def)
  have r: "\<exists>r. ts_remaining (end_time l) (env_now e) = Inr r" if "\<not> ts_passed (env_now e) (end_time l)"
    using ts_remaining_exact [of "env_now e" "end_time l"] that i(3) assms(3)
    by (auto simp: end_ok_def valid_env_def)
  show ?thesis
    using i n r assms(2)
    by (cases "duration a"; cases "ts_passed (env_now e) (end_time l)")
      (auto simp: w_clock_def local_ok_def intro!: local_effI)
qed

lemma w_counter_eff:
  assumes "local_ok l" and "payload (item l) sh = Inr c"
    and "pc l = W_Counter \<and> next = W_Recheck \<or> pc l = W_Recount \<and> next = W_Load"
  shows "\<exists>l'. w_counter ops next sh l = Inr l' \<and> local_eff a l l'"
proof -
  have i: "\<not> lock_is_held l" "item l \<noteq> NULL" "end_ok (end_time l)"
    using assms(3) local_ok_unheld [OF assms(1)] local_ok_item [OF assms(1)]
      local_ok_end [OF assms(1)] by auto
  show ?thesis
    using assms(3)
    by (elim disjE conjE) (use i assms(2) in \<open>simp_all add: w_counter_def local_ok_def local_effI\<close>)
qed

lemma w_tail_eff:
  assumes "local_ok l" and "pc l = W_Tail"
  shows "local_eff a l (w_tail l)"
proof -
  have i: "lock_is_held l \<longrightarrow> item l \<noteq> NULL" "end_ok (end_time l)"
    using assms by (auto simp: local_ok_def)
  show ?thesis
    using i assms(2) by (simp add: w_tail_def local_ok_def local_effI)
qed

section \<open>The steps that use the table\<close>

locale wait_backend = proxy_backend ops calm
  for ops :: "('p, 'o) wait_ops_scheme" and calm :: "os_answers \<Rightarrow> bool"
begin

lemma blocked_eff:
  assumes pre: "step_pre calm a sh l" and pc: "pc l \<in> {W_Park, W_Parked, W_Woken}"
    and v: "view (wld sh) (object a) = Some (item l, n, c)"
    and b: "blocked (item l) r sh l = (sh', l')"
  shows "step_eff calm (object a) sh (Waiting a l) sh' (Waiting a l')"
proof -
  have ok0: "local_ok l"
    using step_pre_parts(4) [OF pre] .
  have i: "\<not> lock_is_held l" "item l \<noteq> NULL" "end_ok (end_time l)"
    using pc local_ok_unheld [OF ok0] local_ok_item [OF ok0] local_ok_end [OF ok0] by auto
  have l': "item l' = item l" "lock_is_held l' = lock_is_held l" "end_time l' = end_time l"
      "pc l' \<in> {W_Parked, W_Tail, W_Recount}"
    using b by (auto simp: blocked_def after_wait_def split: option.splits if_splits)
  have ok: "local_ok l'"
    using i l' unfolding local_ok_def by auto
  have nc: "\<not> critical (Waiting a l)" "\<not> critical (Waiting a l')"
    using i pc l' by auto
  have sr: "same_registration (Waiting a l) (Waiting a l')"
    using pc l' by (intro same_registration_waiting) auto
  have sh': "sh' = sh\<lparr>wld := poke (item l) (snd r) (wld sh)\<rparr>"
    using b by (simp add: blocked_def)
  have w: "good_world calm (wld sh')" "held (wld sh') = held (wld sh)" "mem sh' = mem sh"
      "view_keeps (view (wld sh)) (object a) (view (wld sh'))"
    using poke_good [OF step_pre_parts(1) [OF pre] v, of "snd r"] v by (auto simp: sh')
  show ?thesis
    using w nc ok sr pc step_pre_parts(3) [OF pre] unfolding step_eff_def lock_eff_def
    by (simp del: critical.simps registered.simps)
qed

lemma registered_view:
  assumes "step_pre calm a sh l"
    and "pc l \<in> {W_Counter, W_Park, W_Parked, W_Woken, W_Recount, W_Release}"
  shows "\<exists>n c. view (wld sh) (object a) = Some (item l, n, c)"
proof -
  have "item l \<noteq> NULL"
    using local_ok_item [OF step_pre_parts(4) [OF assms(1)]] assms(2) by blast
  then show ?thesis
    using step_pre_parts(6) [OF assms(1)] assms(2) by auto
qed

lemma w_park_eff:
  assumes "step_pre calm a sh l" and "pc l = W_Park"
  shows "\<exists>sh' l'. w_park ops e sh l = Inr (sh', l')
           \<and> step_eff calm (object a) sh (Waiting a l) sh' (Waiting a l')"
proof -
  obtain n c where v: "view (wld sh) (object a) = Some (item l, n, c)"
    using registered_view [OF assms(1)] assms(2) by blast
  obtain sh' l' where "blocked (item l) (px_park ops (env_os e) (item_counter l) c) sh l = (sh', l')"
    by (metis surj_pair)
  then show ?thesis
    using blocked_eff [OF assms(1) _ v] assms(2) payload_of_view [OF v] by (simp add: w_park_def)
qed

lemma w_resume_eff:
  assumes "step_pre calm a sh l" and "pc l = W_Parked \<or> pc l = W_Woken"
  shows "\<exists>sh' l'. w_resume ops r sh l = Inr (sh', l')
           \<and> step_eff calm (object a) sh (Waiting a l) sh' (Waiting a l')"
proof -
  obtain n c where v: "view (wld sh) (object a) = Some (item l, n, c)"
    using registered_view [OF assms(1)] assms(2) by blast
  obtain sh' l' where "blocked (item l) (px_resume ops r c) sh l = (sh', l')"
    by (metis surj_pair)
  then show ?thesis
    using blocked_eff [OF assms(1) _ v] assms(2) payload_of_view [OF v] by (auto simp: w_resume_def)
qed

lemma w_find_eff:
  assumes pre: "step_pre calm a sh l" and pc: "pc l = W_Find"
  shows "\<exists>sh' l'. w_find ops a sh l = Inr (sh', l')
           \<and> step_eff calm (object a) sh (Waiting a l) sh' (Waiting a l')"
proof -
  let ?w = "(wld sh)\<lparr>errno := terrno l\<rparr>"
  have base: "good_world calm ?w" "valid_key (object a)" "held (wld sh)" "item l = NULL"
      "\<not> lock_is_held l" "end_ok (end_time l)" "valid_call a"
    using step_pre_parts [OF pre] pc local_ok_unregistered [of l] local_ok_unheld [of l]
      local_ok_end [of l]
    by (simp_all add: valid_call_def)
  have small: "\<forall>k p n a. view ?w k = Some (p, n, a) \<longrightarrow> int n < INT_MAX"
    using step_pre_parts(2) [OF pre] by (simp add: counts_small_def)
  obtain p w' where f: "hash_table_find_or_create ops (object a) True ?w = Inr (p, w')"
      "good_world calm w'" "held w' = held (wld sh)"
      and d: "p = NULL \<and> view w' = view (wld sh)
        \<or> p \<noteq> NULL \<and> view_joins (view (wld sh)) (object a) p (view w')"
    using acquire_law [OF base(1,2) small] by (auto simp: view_joins_def)
  let ?l = "l\<lparr>item := p, terrno := errno w', pc := if p = NULL then W_Fail else W_Counter\<rparr>"
  have ok: "local_ok ?l"
    using base by (simp add: local_ok_def)
  have "step_eff calm (object a) sh (Waiting a l) (sh\<lparr>wld := w'\<rparr>) (Waiting a ?l)"
  proof (cases "p = NULL")
    case True
    then show ?thesis
      using f d base pc ok by (simp add: step_eff_def lock_eff_def same_registration_def)
  next
    case False
    then show ?thesis
      using f d base pc ok by (auto simp: step_eff_def lock_eff_def)
  qed
  then show ?thesis
    using f by (simp add: w_find_def)
qed

lemma w_release_eff:
  assumes pre: "step_pre calm a sh l" and pc: "pc l = W_Release"
  shows "\<exists>sh' l'. w_release ops a sh l = Inr (sh', l')
           \<and> step_eff calm (object a) sh (Waiting a l) sh' (Waiting a l')"
proof -
  let ?w = "(wld sh)\<lparr>errno := terrno l\<rparr>"
  have base: "good_world calm ?w" "held (wld sh)" "item l \<noteq> NULL" "end_ok (end_time l)" "valid_call a"
    using step_pre_parts [OF pre] pc local_ok_item [of l] local_ok_end [of l] by simp_all
  obtain n c where v: "view ?w (object a) = Some (item l, n, c)"
    using registered_view [OF pre] pc by auto
  then obtain m where m: "n = Suc m" "int m < INT_MAX"
    using view_proper [OF base(1) v] step_pre_parts(2) [OF pre]
    by (fastforce simp: counts_small_def gr0_conv_Suc)
  obtain w' where w': "release_item ops (object a) (item l) ?w = Inr w'" "good_world calm w'"
      "held w' = held (wld sh)" "view_leaves (view (wld sh)) (object a) (view w')"
    using release_law [OF base(1) _ m(2), of "object a" "item l" c] v m(1)
    by (auto simp: view_leaves_def)
  let ?l = "l\<lparr>terrno := errno w', pc := W_Tail_Unlock\<rparr>"
  have "local_ok ?l"
    using base step_pre_parts(4) [OF pre] pc by (simp add: local_ok_def)
  then have "step_eff calm (object a) sh (Waiting a l) (sh\<lparr>wld := w'\<rparr>) (Waiting a ?l)"
    using w' base pc by (auto simp: step_eff_def lock_eff_def)
  then show ?thesis
    using w' by (simp add: w_release_def)
qed

text \<open>The steps that touch only the thread's own locals.\<close>

lemma wait_local_eff:
  assumes pre: "step_pre calm a sh l" and env: "valid_env e"
    and pc: "pc l \<in> {W_Start, W_Load, W_Reload, W_Counter, W_Recheck, W_Reload_Locked, W_Clock, W_Recount,
      W_Tail, W_Done}"
  shows "\<exists>sh' l'. wait_step ops a e sh l = Inr (sh', l')
           \<and> step_eff calm (object a) sh (Waiting a l) sh' (Waiting a l')"
proof -
  note parts = step_pre_parts [OF pre]
  have ctr: "\<exists>c. payload (item l) sh = Inr c" if "pc l = W_Counter \<or> pc l = W_Recount"
    using registered_view [OF pre] that by (auto dest: payload_of_view)
  have loc: ?thesis if "wait_step ops a e sh l = local_step sh r" "\<exists>l'. r = Inr l' \<and> local_eff a l l'" for r
    using that local_stepI [OF pre] by auto
  consider (start) "pc l = W_Start" | (load) "pc l = W_Load" | (reload) "pc l = W_Reload \<or> pc l = W_Reload_Locked"
    | (count) "pc l = W_Counter \<or> pc l = W_Recount" | (recheck) "pc l = W_Recheck" | (clock) "pc l = W_Clock"
    | (tail) "pc l = W_Tail" | (finished) "pc l = W_Done"
    using pc by blast
  then show ?thesis
  proof cases
    case count
    then show ?thesis
      using w_counter_eff [OF parts(4)] ctr by (elim disjE; intro loc) (fastforce simp: wait_step_def)+
  next
    case tail
    then show ?thesis
      using w_tail_eff [OF parts(4)] by (intro loc [of "Inr (w_tail l)"]) (simp_all add: wait_step_def local_step_def)
  next
    case finished
    then have "local_eff a l l"
      using parts(4) by (simp add: local_eff_def same_registration_def)
    then show ?thesis
      using finished by (intro loc [of "Inr l"]) (simp_all add: wait_step_def local_step_def)
  next
    case reload
    then show ?thesis
      using w_reload_eff parts by (elim disjE; intro loc) (auto simp: wait_step_def)
  next
    case start
    then show ?thesis
      using w_start_eff parts env by (intro loc) (auto simp: wait_step_def)
  next
    case load
    then show ?thesis
      using w_load_eff parts by (intro loc) (auto simp: wait_step_def)
  next
    case recheck
    then show ?thesis
      using w_recheck_eff parts by (intro loc) (auto simp: wait_step_def)
  next
    case clock
    then show ?thesis
      using w_clock_eff parts env by (intro loc) (auto simp: wait_step_def)
  qed
qed

text \<open>The steps of the spin lock.\<close>

lemma wait_lock_eff:
  assumes pre: "step_pre calm a sh l" and pc: "pc l \<in> {W_Lock, W_Fail, W_Unlock, W_Tail_Lock, W_Tail_Unlock}"
  shows "\<exists>sh' l'. wait_step ops a e sh l = Inr (sh', l')
           \<and> step_eff calm (object a) sh (Waiting a l) sh' (Waiting a l')"
proof -
  note parts = step_pre_parts [OF pre]
  note flags = local_ok_unheld [OF parts(4)] local_ok_item [OF parts(4)] local_ok_end [OF parts(4)]
    local_ok_unregistered [OF parts(4)]
  have unl: ?thesis if "wait_step ops a e sh l = Inr (unlock_step sh, l')" "local_ok l'"
      "critical (Waiting a l)" "\<not> critical (Waiting a l')"
      "same_registration (Waiting a l) (Waiting a l')" for l'
    using that(1) unlock_step_eff [OF pre that(2-5)] by simp
  have acq: ?thesis if "wait_step ops a e sh l = Inr (w_acquire_lock next sh l)"
      "local_ok (l\<lparr>pc := next\<rparr>)" "\<not> critical (Waiting a l)"
      "critical (Waiting a (l\<lparr>pc := next\<rparr>))"
      "same_registration (Waiting a l) (Waiting a (l\<lparr>pc := next\<rparr>))" for "next"
    using that(1) acquire_lock_eff [OF pre that(2-5)]
    by (cases "w_acquire_lock next sh l") simp
  note defs = wait_step_def local_ok_def same_registration_def
  consider "pc l = W_Lock" | "pc l = W_Fail" | "pc l = W_Unlock" | "pc l = W_Tail_Lock" | "pc l = W_Tail_Unlock"
    using pc by blast
  then show ?thesis
  proof cases
    case 1
    then show ?thesis
      using flags by (intro acq [of W_Find]) (simp_all add: defs)
  next
    case 2
    then show ?thesis
      using flags by (intro unl [of "l\<lparr>ret := -1, pc := W_Done\<rparr>"]) (simp_all add: defs)
  next
    case 3
    then show ?thesis
      using flags by (intro unl [of "l\<lparr>ret := 1, pc := W_Clock\<rparr>"]) (simp_all add: defs)
  next
    case 4
    then show ?thesis
      using flags by (intro acq [of W_Release]) (simp_all add: defs)
  next
    case 5
    then show ?thesis
      using flags parts(4) by (intro unl [of "l\<lparr>terrno := save_errno l, pc := W_Done\<rparr>"]) (simp_all add: defs)
  qed
qed

text \<open>Every step of a waiting thread runs and has such an effect.\<close>

theorem wait_step_eff:
  assumes pre: "step_pre calm a sh l" and env: "valid_env e"
  shows "\<exists>sh' l'. wait_step ops a e sh l = Inr (sh', l')
           \<and> step_eff calm (object a) sh (Waiting a l) sh' (Waiting a l')"
proof (cases "pc l \<in> {W_Find, W_Park, W_Parked, W_Woken, W_Release}")
  case True
  then show ?thesis
    using w_find_eff [OF pre] w_park_eff [OF pre] w_resume_eff [OF pre] w_release_eff [OF pre]
    by (auto simp: wait_step_def)
next
  case False
  then show ?thesis
    using wait_local_eff [OF pre env] wait_lock_eff [OF pre] by (cases "pc l") simp_all
qed

text \<open>The steps of a notifying thread.\<close>

lemma notify_step_eff:
  assumes good: "good_world calm (wld sh)" and key: "valid_key (nobject l)"
    and held: "critical (Notifying l) \<Longrightarrow> held (wld sh)" and pc: "npc l \<noteq> N_Wake"
  shows "\<exists>sh' l'. notify_step ops sh l = Inr (sh', l')
           \<and> step_eff calm (nobject l) sh (Notifying l) sh' (Notifying l')
           \<and> (npc l' = N_Wake \<longrightarrow> (\<exists>n c. view (wld sh') (nobject l') = Some (nitem l', n, c)))"
proof (cases "npc l")
  case N_Lock
  then show ?thesis
    using good key
    by (cases "held (wld sh)")
      (simp_all add: notify_step_def lock_step_def hash_table_lock_def step_eff_def lock_eff_def
        same_registration_def)
next
  case N_Find
  let ?w = "(wld sh)\<lparr>errno := nerrno l\<rparr>"
  obtain w' where f: "hash_table_find_or_create ops (nobject l) False ?w =
        Inr (case view (wld sh) (nobject l) of None \<Rightarrow> NULL | Some (p, _) \<Rightarrow> p, w')"
      "good_world calm w'" "view w' = view (wld sh)" "held w' = held (wld sh)"
    using search_law [of ?w "nobject l"] good key by auto
  have "held (wld sh)"
    using held N_Find by simp
  then show ?thesis
    using f N_Find key view_proper [OF good, of "nobject l"]
    by (auto simp: notify_step_def n_find_def step_eff_def lock_eff_def same_registration_def
        split: option.splits)
next
  case N_Unlock
  then show ?thesis
    using good key held
    by (simp add: notify_step_def unlock_step_def hash_table_unlock_def step_eff_def lock_eff_def
        same_registration_def)
next
  case N_Done
  then show ?thesis
    using good key by (simp add: notify_step_def step_eff_def lock_eff_def same_registration_def)
qed (use pc in simp)

lemma n_wake_eff:
  assumes good: "good_world calm (wld sh)" and key: "valid_key (nobject l)"
    and held: "held (wld sh)" and pc: "npc l = N_Wake"
    and v: "view (wld sh) (nobject l) = Some (nitem l, n, c)"
  shows "\<exists>sh' l' m. n_wake ops os parked sh l = Inr (sh', l', m)
           \<and> step_eff calm (nobject l) sh (Notifying l) sh' (Notifying l') \<and> npc l' = N_Unlock"
proof -
  obtain px where px: "heap (wld sh) (nitem l) = Some px"
    using v by (auto simp: view_Some)
  obtain r m c' where k: "px_wake ops os (nmax l) (use_count px) parked (atomic px) = (r, m, c')"
    by (metis prod_cases3)
  have p: "good_world calm (poke (nitem l) c' (wld sh))" "held (poke (nitem l) c' (wld sh))"
      "view_keeps (view (wld sh)) (nobject l) (view (poke (nitem l) c' (wld sh)))"
    using poke_good [OF good v, of c'] held
      view_keeps_payload [where v = "view (wld sh)" and k = "nobject l", OF v] by simp_all
  show ?thesis
    using px k p key pc held
    by (simp add: n_wake_def step_eff_def lock_eff_def same_registration_def)
qed

end

section \<open>The invariant is kept\<close>

lemma sys_inv_parts:
  assumes "sys_inv calm N s"
  shows "good_world calm (wld (shr s))" "lock_inv (held (wld (shr s))) (threads s)"
    "refs_agree (view (wld (shr s))) (threads s)" "wakers_agree (view (wld (shr s))) (threads s)"
    "\<And>t. thread_ok (threads s t)" "\<And>t. N \<le> t \<Longrightarrow> threads s t = Idle"
  using assms by (auto simp: sys_inv_def)

lemma sys_inv_finite: "sys_inv calm N s \<Longrightarrow> finite (users_of (threads s) k)"
  by (rule finite_users [of N]) (simp add: sys_inv_def)

lemma sys_inv_small:
  assumes "sys_inv calm N s" and "int N < INT_MAX"
  shows "counts_small (wld (shr s))"
  unfolding counts_small_def
proof (intro allI impI)
  fix k p n a assume v: "view (wld (shr s)) k = Some (p, n, a)"
  have "ref_entry (view (wld (shr s)) k) (users_of (threads s) k) (threads s)"
    using sys_inv_parts(3) [OF assms(1)] by (simp add: refs_agree_def)
  then have "n = card (users_of (threads s) k)"
    using v by simp
  also have "\<dots> \<le> card {..<N}"
    using assms(1) by (intro card_mono users_of_bound) (auto simp: sys_inv_def)
  finally show "int n < INT_MAX"
    using assms(2) by simp
qed

lemma registered_in_view:
  assumes "sys_inv calm N s" and "registered k (threads s t)"
  shows "\<exists>n c. view (wld (shr s)) k = Some (thread_item (threads s t), n, c)"
proof -
  have r: "ref_entry (view (wld (shr s)) k) (users_of (threads s) k) (threads s)"
    using sys_inv_parts(3) [OF assms(1)] by (simp add: refs_agree_def)
  have t: "t \<in> users_of (threads s) k"
    using assms(2) by (simp add: users_of_def)
  show ?thesis
  proof (cases "view (wld (shr s)) k")
    case None
    then show ?thesis using r t by simp
  next
    case (Some e)
    then show ?thesis using r t by (cases e) auto
  qed
qed

lemma critical_held: "sys_inv calm N s \<Longrightarrow> critical (threads s t) \<Longrightarrow> held (wld (shr s))"
  using sys_inv_parts(2) unfolding lock_inv_def by blast

lemma parked_few:
  assumes "sys_inv calm N s"
  shows "finite {u. parked_on p (threads s u)} \<and> card {u. parked_on p (threads s u)} \<le> N"
proof -
  have "{u. parked_on p (threads s u)} \<subseteq> {..<N}"
  proof
    fix u assume "u \<in> {u. parked_on p (threads s u)}"
    then have "threads s u \<noteq> Idle"
      by auto
    then show "u \<in> {..<N}"
      using sys_inv_parts(6) [OF assms] by (meson lessThan_iff not_le)
  qed
  then show ?thesis
    using finite_subset card_mono [of "{..<N}"] by fastforce
qed

lemma view_keeps_entry:
  "view_keeps v k v' \<Longrightarrow> v j = Some (p, n, c) \<Longrightarrow> \<exists>n c. v' j = Some (p, n, c)"
  by (auto simp: view_keeps_def)

lemma sys_inv_step:
  assumes inv: "sys_inv calm N s" and eff: "step_eff calm k (shr s) (threads s t) sh' th"
    and waker: "\<And>l. th = Notifying l \<Longrightarrow> npc l = N_Wake \<Longrightarrow>
                   \<exists>n c. view (wld sh') (nobject l) = Some (nitem l, n, c)"
    and t: "t < N" and s': "shr s' = sh'" "threads s' = (threads s)(t := th)"
  shows "sys_inv calm N s'"
proof -
  note parts = sys_inv_parts [OF inv]
  have e: "good_world calm (wld sh')" "thread_ok th"
      "lock_eff (held (wld (shr s))) (critical (threads s t)) (held (wld sh')) (critical th)"
    using eff by (simp_all add: step_eff_def)
  consider (keep) "view_keeps (view (wld (shr s))) k (view (wld sh'))" "same_registration (threads s t) th"
    | (join) "critical (threads s t)" "view_joins (view (wld (shr s))) k (thread_item th) (view (wld sh'))"
        "\<forall>j. \<not> registered j (threads s t)" "\<forall>j. registered j th \<longleftrightarrow> j = k"
    | (leave) "critical (threads s t)" "view_leaves (view (wld (shr s))) k (view (wld sh'))"
        "\<forall>j. registered j (threads s t) \<longleftrightarrow> j = k" "\<forall>j. \<not> registered j th"
    using eff view_keeps_refl unfolding step_eff_def by metis
  then have "refs_agree (view (wld sh')) ((threads s)(t := th))
    \<and> (view_keeps (view (wld (shr s))) k (view (wld sh')) \<or> critical (threads s t))"
    using refs_agree_same [OF parts(3)] sys_inv_finite [OF inv]
      refs_agree_join [OF parts(3), of k] refs_agree_leave [OF parts(3), of k]
    by cases blast+
  moreover have "wakers_agree (view (wld sh')) ((threads s)(t := th))"
    unfolding wakers_agree_def
  proof (intro allI impI)
    fix u l assume u: "((threads s)(t := th)) u = Notifying l \<and> npc l = N_Wake"
    show "\<exists>n c. view (wld sh') (nobject l) = Some (nitem l, n, c)"
    proof (cases "u = t")
      case True
      then show ?thesis using u waker by simp
    next
      case False
      then have ul: "threads s u = Notifying l" "critical (threads s u)"
        using u by simp_all
      then have "\<not> critical (threads s t)"
        using parts(2) False unfolding lock_inv_def by blast
      then have "view_keeps (view (wld (shr s))) k (view (wld sh'))"
        using calculation by blast
      moreover obtain n c where "view (wld (shr s)) (nobject l) = Some (nitem l, n, c)"
        using parts(4) ul(1) u unfolding wakers_agree_def by blast
      ultimately show ?thesis
        by (rule view_keeps_entry)
    qed
  qed
  moreover have "lock_inv (held (wld sh')) ((threads s)(t := th))"
    by (rule lock_inv_step [OF parts(2) e(3)])
  ultimately show ?thesis
    using e parts(5,6) t unfolding sys_inv_def s' by simp
qed

text \<open>Calls, returns and wakes replace threads by threads that look the same to the table.\<close>

fun alike :: "thread \<Rightarrow> thread \<Rightarrow> bool" where
  "alike th th' \<longleftrightarrow>
     same_registration th th' \<and> critical th' = critical th \<and> thread_ok th' \<and>
     (\<forall>l. th' = Notifying l \<and> npc l = N_Wake \<longrightarrow> th' = th)"

lemma sys_inv_alike:
  assumes inv: "sys_inv calm N s" and ths: "\<And>t. alike (threads s t) (threads s' t)"
    and idle: "\<And>t. N \<le> t \<Longrightarrow> threads s' t = Idle" and sh: "wld (shr s') = wld (shr s)"
  shows "sys_inv calm N s'"
proof -
  note parts = sys_inv_parts [OF inv]
  have cr: "critical (threads s' t) = critical (threads s t)" for t
    using ths by simp
  have us: "users_of (threads s') k = users_of (threads s) k" for k
    using ths by (simp add: users_of_def same_registration_def)
  have it: "thread_item (threads s' t) = thread_item (threads s t)" if "t \<in> users_of (threads s) k" for t k
    using ths [of t] that by (auto simp: users_of_def same_registration_def)
  have "refs_agree (view (wld (shr s))) (threads s')"
    using parts(3) unfolding refs_agree_def us by (simp add: ref_entry_cong [OF it])
  moreover have "wakers_agree (view (wld (shr s))) (threads s')"
    using parts(4) ths unfolding wakers_agree_def by (metis alike.elims(2))
  moreover have "lock_inv (held (wld (shr s))) (threads s')"
    using parts(2) by (simp add: lock_inv_def cr)
  moreover have "thread_ok (threads s' t)" for t
    using ths by simp
  ultimately show ?thesis
    using parts(1) idle by (simp add: sys_inv_def sh)
qed

lemma alike_refl: "thread_ok th \<Longrightarrow> alike th th"
  by (simp add: same_registration_def)

lemma alike_woken: "thread_ok th \<Longrightarrow> parked_on p th \<Longrightarrow> alike th (wake_thread th)"
proof (induction th rule: wake_thread.induct)
  case (1 a l)
  then have "local_ok l" "pc l = W_Parked"
    by simp_all
  then have "local_ok (l\<lparr>pc := W_Woken\<rparr>)"
    by (simp add: local_ok_def)
  then show ?case
    using 1 by (simp add: same_registration_def)
qed simp_all

text \<open>One thread changes state without touching the world.\<close>

lemma sys_inv_turn:
  assumes inv: "sys_inv calm N s" and al: "alike (threads s t) th" and t: "t < N"
  shows "sys_inv calm N (s\<lparr>threads := (threads s)(t := th)\<rparr>)"
proof (rule sys_inv_alike [OF inv])
  show "alike (threads s u) (threads (s\<lparr>threads := (threads s)(t := th)\<rparr>) u)" for u
    using al alike_refl [OF sys_inv_parts(5) [OF inv]] by (cases "u = t") (simp_all del: alike.simps)
  show "threads (s\<lparr>threads := (threads s)(t := th)\<rparr>) u = Idle" if "N \<le> u" for u
    using t that sys_inv_parts(6) [OF inv] by auto
qed simp

lemma alike_call: "valid_call a \<Longrightarrow> alike Idle (Waiting a (wait_enter a e))"
  by (simp add: same_registration_def wait_enter_def local_ok_def)

lemma alike_notify: "valid_key k \<Longrightarrow> alike Idle (Notifying (notify_enter k m e))"
  by (simp add: same_registration_def notify_enter_def)

lemma alike_return: "pc l = W_Done \<Longrightarrow> alike (Waiting a l) Idle"
  "npc m = N_Done \<Longrightarrow> alike (Notifying m) Idle"
  by (simp_all add: same_registration_def)

context wait_backend
begin

lemma wait_pre:
  assumes "sys_inv calm N s" and "int N < INT_MAX" and "threads s t = Waiting a l"
  shows "step_pre calm a (shr s) l"
proof -
  have "valid_call a" "local_ok l"
    using sys_inv_parts(5) [OF assms(1), of t] assms(3) by simp_all
  then show ?thesis
    using sys_inv_parts(1) [OF assms(1)] sys_inv_small [OF assms(1,2)]
      registered_in_view [OF assms(1), of "object a" t] critical_held [OF assms(1), of t] assms(3)
    unfolding step_pre_def by (simp del: critical.simps registered.simps)
qed

lemma running: "sys_inv calm N s \<Longrightarrow> threads s t \<noteq> Idle \<Longrightarrow> t < N"
  using sys_inv_parts(6) by (meson not_le)

lemma wake_runs:
  assumes "sys_inv calm N s" and "threads s t = Notifying l" and "npc l = N_Wake"
  shows "\<exists>sh l' n. n_wake ops os parked (shr s) l = Inr (sh, l', n)
           \<and> step_eff calm (nobject l) (shr s) (threads s t) sh (Notifying l') \<and> npc l' = N_Unlock"
proof -
  have "valid_key (nobject l)" "held (wld (shr s))"
    using sys_inv_parts(5) [OF assms(1), of t] critical_held [OF assms(1), of t] assms(2,3) by simp_all
  moreover obtain n c where "view (wld (shr s)) (nobject l) = Some (nitem l, n, c)"
    using sys_inv_parts(4) [OF assms(1)] assms(2,3) unfolding wakers_agree_def by blast
  ultimately show ?thesis
    using n_wake_eff [OF sys_inv_parts(1) [OF assms(1)], of l] assms(2,3) by simp
qed

lemma sys_inv_wake:
  assumes inv: "sys_inv calm N s" and t: "threads s t = Notifying l" "npc l = N_Wake"
    and w: "n_wake ops os parked (shr s) l = Inr (sh, l', n)"
    and S: "S \<subseteq> {u. parked_on (nitem l) (threads s u)}"
  shows "sys_inv calm N (after_wake t l sh l' S s)"
proof -
  let ?s = "s\<lparr>shr := sh, threads := (threads s)(t := Notifying l')\<rparr>"
  have tN: "t < N"
    using running [OF inv, of t] t by simp
  have "step_eff calm (nobject l) (shr s) (threads s t) sh (Notifying l')" "npc l' = N_Unlock"
    using wake_runs [OF inv t, of os parked] w by auto
  then have one: "sys_inv calm N ?s"
    using tN by (intro sys_inv_step [OF inv]) simp_all
  have "alike (threads ?s u) (threads (after_wake t l sh l' S s) u)" for u
    using alike_refl [OF sys_inv_parts(5) [OF one], of u] S
      alike_woken [OF sys_inv_parts(5) [OF inv], of "nitem l" u]
    by (auto simp: after_wake_def simp del: alike.simps)
  moreover have "threads (after_wake t l sh l' S s) u = Idle" if "N \<le> u" for u
    using sys_inv_parts(6) [OF inv that] that tN by (simp add: after_wake_def)
  ultimately show ?thesis
    by (intro sys_inv_alike [OF one]) (simp_all add: after_wake_def del: alike.simps)
qed

theorem sys_inv_preserved:
  assumes step: "sys_step ops N s s'" and inv: "sys_inv calm N s" and N: "int N < INT_MAX"
  shows "sys_inv calm N s'"
  using step
proof cases
  case (call_wait t a e)
  then show ?thesis
    using sys_inv_turn [OF inv, of t] alike_call by (simp del: alike.simps)
next
  case (wait t a l e sh l')
  have t: "t < N"
    using running [OF inv, of t] wait by simp
  have "step_eff calm (object a) (shr s) (threads s t) sh (Waiting a l')"
    using wait_step_eff [OF wait_pre [OF inv N wait(2)] wait(3)] wait(2,4) by simp
  then show ?thesis
    by (rule sys_inv_step [OF inv]) (use t in \<open>simp_all add: wait(1) after_wait_step_def\<close>)
next
  case (wait_fault t a l e f)
  then show ?thesis
    using wait_step_eff [OF wait_pre [OF inv N wait_fault(2)] wait_fault(3)] by simp
next
  case (return_wait t a l)
  then show ?thesis
    using sys_inv_turn [OF inv, of t] alike_return(1) running [OF inv, of t] by (simp del: alike.simps)
next
  case (call_notify t k m e)
  then show ?thesis
    using sys_inv_turn [OF inv, of t] alike_notify by (simp del: alike.simps)
next
  case (notify t l sh l')
  have t: "t < N"
    using running [OF inv, of t] notify by simp
  have ok: "valid_key (nobject l)" "critical (Notifying l) \<Longrightarrow> held (wld (shr s))"
    using sys_inv_parts(5) [OF inv, of t] critical_held [OF inv, of t] notify(2) by simp_all
  have "step_eff calm (nobject l) (shr s) (threads s t) sh (Notifying l')"
      "npc l' = N_Wake \<Longrightarrow> \<exists>n c. view (wld sh) (nobject l') = Some (nitem l', n, c)"
    using notify_step_eff [OF sys_inv_parts(1) [OF inv] ok notify(3)] notify(2,4) by simp_all
  then show ?thesis
    using t by (intro sys_inv_step [OF inv]) (simp_all add: notify(1) after_notify_step_def)
next
  case (notify_fault t l f)
  have ok: "valid_key (nobject l)" "critical (Notifying l) \<Longrightarrow> held (wld (shr s))"
    using sys_inv_parts(5) [OF inv, of t] critical_held [OF inv, of t] notify_fault(2) by simp_all
  show ?thesis
    using notify_step_eff [OF sys_inv_parts(1) [OF inv] ok notify_fault(3)] notify_fault(4) by simp
next
  case (wake t l P os sh l' n S)
  then show ?thesis
    using sys_inv_wake [OF inv wake(2,3,6)] by simp
next
  case (wake_fault t l P os f)
  then show ?thesis
    using wake_runs [OF inv wake_fault(2,3), of os "card P"] by simp
next
  case (return_notify t l)
  then show ?thesis
    using sys_inv_turn [OF inv, of t] alike_return(2) running [OF inv, of t] by (simp del: alike.simps)
next
  case (store m)
  then show ?thesis
    using sys_inv_alike [OF inv, of s'] alike_refl [OF sys_inv_parts(5) [OF inv]] sys_inv_parts(6) [OF inv]
    by (simp add: after_store_def del: alike.simps)
qed

theorem reachable_inv:
  assumes "reachable ops calm N s" and "int N < INT_MAX"
  shows "sys_inv calm N s"
  using assms(1)
proof induction
  case (init s)
  have "lookup (wld (shr s)) = Map.empty"
    using init by (simp add: sys_init_def lookup_def shared_global_hash_table_def)
  then have "good_world calm (wld (shr s))" "view (wld (shr s)) = Map.empty"
    using init
    by (auto simp: sys_init_def good_world_def refs_inv_def world_inv_def table_inv_def heap_inv_def
        shared_global_hash_table_def view_def)
  then show ?case
    using init
    by (simp add: sys_inv_def sys_init_def lock_inv_def refs_agree_def users_of_def wakers_agree_def
        shared_global_hash_table_def)
next
  case (step s s')
  then show ?case
    using sys_inv_preserved assms(2) by blast
qed

text \<open>What the invariant says of a reachable state.\<close>

lemma reachable_no_fault: "reachable ops calm N s \<Longrightarrow> int N < INT_MAX \<Longrightarrow> threads s t \<noteq> Crashed f"
  using sys_inv_parts(5) [OF reachable_inv, of N s t] by auto

text \<open>
  The one way out: the clock. A call of \<open>clock_gettime\<close> that fails aborts the process, where a thread makes
  one; elsewhere its answer makes no difference.
\<close>

lemma reachable_clock_failure:
  assumes re: "reachable ops calm N s" and N: "int N < INT_MAX" and t: "threads s t = Waiting a l"
    and e: "env_clock_ret e \<noteq> 0"
  shows "if reads_clock a l then wait_step ops a e (shr s) l = Inl Abort_Called
    else \<exists>r. wait_step ops a e (shr s) l = Inr r"
proof (cases "reads_clock a l")
  case True
  then show ?thesis
    using e by (auto simp: reads_clock_def wait_step_def local_step_def w_start_def w_clock_def
        monotonic_now_posix_def Let_def)
next
  case False
  let ?e = "e\<lparr>env_clock_ret := 0, env_now := zero_ts\<rparr>"
  have "valid_env ?e"
    by (simp add: valid_env_def valid_ts_def zero_ts_def)
  then have "\<exists>r. wait_step ops a ?e (shr s) l = Inr r"
    using wait_step_eff [OF wait_pre [OF reachable_inv [OF re N] N t]] by blast
  moreover have "wait_step ops a ?e (shr s) l = wait_step ops a e (shr s) l"
    using False by (cases "pc l") (auto simp: reads_clock_def wait_step_def w_start_def w_clock_def w_park_def
        split: option.splits)
  ultimately show ?thesis
    using False by simp
qed

lemma reachable_exclusive:
  assumes "reachable ops calm N s" and "int N < INT_MAX"
    and "critical (threads s t)" and "critical (threads s u)"
  shows "t = u \<and> held (wld (shr s))"
  using sys_inv_parts(2) [OF reachable_inv [OF assms(1,2)]] assms(3,4)
  unfolding lock_inv_def by blast

lemma reachable_lock_free:
  "reachable ops calm N s \<Longrightarrow> int N < INT_MAX \<Longrightarrow> \<forall>t. \<not> critical (threads s t) \<Longrightarrow>
     \<not> held (wld (shr s))"
  using sys_inv_parts(2) [OF reachable_inv] unfolding lock_inv_def by blast

lemma reachable_refcount:
  assumes "reachable ops calm N s" and "int N < INT_MAX"
  shows "users (wld (shr s)) k = card (users_of (threads s) k)"
proof -
  have "ref_entry (view (wld (shr s)) k) (users_of (threads s) k) (threads s)"
    using sys_inv_parts(3) [OF reachable_inv [OF assms]] by (simp add: refs_agree_def)
  then show ?thesis
    by (cases "view (wld (shr s)) k") (auto simp: users_def)
qed

lemma reachable_item_live:
  assumes "reachable ops calm N s" and "int N < INT_MAX" and "registered k (threads s t)"
  shows "\<exists>px. lookup (wld (shr s)) k = Some (thread_item (threads s t))
           \<and> heap (wld (shr s)) (thread_item (threads s t)) = Some px
           \<and> use_count px = int (card (users_of (threads s) k))"
proof -
  let ?w = "wld (shr s)"
  obtain n c where v: "view ?w k = Some (thread_item (threads s t), n, c)"
    using registered_in_view [OF reachable_inv [OF assms(1,2)] assms(3)] by blast
  moreover have "n = card (users_of (threads s) k)"
    using reachable_refcount [OF assms(1,2), of k] v by (simp add: users_def)
  moreover have "refs_inv ?w"
    using sys_inv_parts(1) [OF reachable_inv [OF assms(1,2)]] by (simp add: good_world_def)
  ultimately show ?thesis
    using refs_inv_pos [of ?w] by (fastforce simp: view_Some)
qed

text \<open>No proxy outlives its waiters.\<close>

lemma reachable_no_leak:
  assumes "reachable ops calm N s" and "int N < INT_MAX" and "\<forall>t k. \<not> registered k (threads s t)"
  shows "heap (wld (shr s)) = Map.empty \<and> lookup (wld (shr s)) = Map.empty"
proof -
  let ?w = "wld (shr s)"
  have inv: "refs_inv ?w" "refs_agree (view ?w) (threads s)"
    using sys_inv_parts [OF reachable_inv [OF assms(1,2)]] by (simp_all add: good_world_def)
  have v: "view ?w k = None" for k
  proof (rule ccontr)
    assume "view ?w k \<noteq> None"
    then obtain p n c where e: "view ?w k = Some (p, n, c)"
      by auto
    moreover have "users_of (threads s) k = {}"
      using assms(3) by (simp add: users_of_def)
    ultimately have "n = 0"
      using inv(2) unfolding refs_agree_def by (metis card.empty ref_entry.simps(2))
    then show False
      using view_proper [OF sys_inv_parts(1) [OF reachable_inv [OF assms(1,2)]] e] by simp
  qed
  have "lookup ?w k = None" for k
    using view_None [OF inv(1)] v by blast
  moreover have "heap ?w p = None" for p
  proof (rule ccontr)
    assume "heap ?w p \<noteq> None"
    then obtain px where "heap ?w p = Some px"
      by auto
    then show False
      using view_cell [OF inv(1)] v by fastforce
  qed
  ultimately show ?thesis
    by blast
qed

section \<open>Notifiers\<close>

text \<open>Every step of a notifier but the wake leaves the map and the memory alone.\<close>

lemma notify_quiet:
  assumes inv: "sys_inv calm N s" and t: "threads s t = Notifying l" "npc l \<noteq> N_Wake"
    and st: "notify_step ops (shr s) l = Inr (sh, l')"
  shows "view (wld sh) = view (wld (shr s)) \<and> mem sh = mem (shr s)"
proof -
  have "valid_key (nobject l)" "critical (Notifying l) \<Longrightarrow> held (wld (shr s))"
    using sys_inv_parts(5) [OF inv, of t] critical_held [OF inv, of t] t(1) by simp_all
  then show ?thesis
    using notify_step_eff [OF sys_inv_parts(1) [OF inv] _ _ t(2)] t(2) st
    by (auto simp: step_eff_def)
qed

text \<open>A notifier that finds no proxy has no waiter to wake.\<close>

lemma notify_none:
  assumes inv: "sys_inv calm N s" and t: "threads s t = Notifying l" "npc l = N_Find"
    and st: "notify_step ops (shr s) l = Inr (sh, l')" "nitem l' = NULL"
  shows "view (wld (shr s)) (nobject l) = None"
proof (rule ccontr)
  let ?w = "(wld (shr s))\<lparr>errno := nerrno l\<rparr>"
  assume "view (wld (shr s)) (nobject l) \<noteq> None"
  then obtain p n c where v: "view (wld (shr s)) (nobject l) = Some (p, n, c)"
    by auto
  have "valid_key (nobject l)"
    using sys_inv_parts(5) [OF inv, of t] t by simp
  then obtain w where "hash_table_find_or_create ops (nobject l) False ?w = Inr (p, w)"
    using search_law [of ?w "nobject l"] sys_inv_parts(1) [OF inv] v by auto
  then have "nitem l' = p"
    using st(1) t(2) by (auto simp: notify_step_def n_find_def)
  then show False
    using st(2) view_proper [OF sys_inv_parts(1) [OF inv] v] by simp
qed

end

section \<open>Both backends\<close>

interpretation futex_sys: wait_backend futex_ops "\<lambda>_. True"
  by unfold_locales

interpretation pthread_sys: wait_backend pthread_ops os_calm
  by unfold_locales

end
