(* ===== verification/Lost_Wake.thy ===== *)
theory Lost_Wake
  imports Wait_Safety
begin

text \<open>
  No wake is lost with the generation counter. A waiter reads the counter under the table lock,
  compares the object with the expected value, and blocks only if the counter still has the value
  read; a notifier that comes in between changes the counter. \<open>wake_inv\<close> makes this precise: from
  the reading of the counter on, the counter has moved by exactly the wakes seen (\<open>bumps\<close>); as long
  as there was none, or the thread is blocked, the object has the expected value unless a store
  has not been followed by a completed wake-all (\<open>dirty\<close>).
\<close>

section \<open>The invariant\<close>

definition armed :: "wait_local \<Rightarrow> bool" where
  "armed l \<longleftrightarrow> pc l \<in> {W_Recheck, W_Unlock, W_Clock, W_Park} \<or> pc l = W_Load \<and> item l \<noteq> NULL"

definition agreed :: "wait_local \<Rightarrow> bool" where
  "agreed l \<longleftrightarrow> pc l \<in> {W_Unlock, W_Clock, W_Park}"

definition observes :: "'p sys \<Rightarrow> wait_args \<Rightarrow> wait_local \<Rightarrow> bool" where
  "observes s a l \<longleftrightarrow>
     dirty s (object a) \<or> load_bytes (mem (shr s)) (object a) (bytes a) = expected l"

definition counter_ok :: "u32 sys \<Rightarrow> nat \<Rightarrow> wait_args \<Rightarrow> wait_local \<Rightarrow> bool" where
  "counter_ok s t a l \<longleftrightarrow>
     (\<forall>p n c. view (wld (shr s)) (object a) = Some (p, n, c) \<longrightarrow>
        c = item_counter l + of_nat (bumps s t))"

definition waiter_ok :: "u32 sys \<Rightarrow> nat \<Rightarrow> wait_args \<Rightarrow> wait_local \<Rightarrow> bool" where
  "waiter_ok s t a l \<longleftrightarrow>
     (armed l \<longrightarrow> counter_ok s t a l) \<and>
     (agreed l \<and> bumps s t = 0 \<longrightarrow> observes s a l) \<and>
     (pc l = W_Parked \<and> bumps s t < 2 ^ 32 \<longrightarrow> observes s a l)"

definition wake_inv :: "u32 sys \<Rightarrow> bool" where
  "wake_inv s \<longleftrightarrow> (\<forall>t a l. threads s t = Waiting a l \<longrightarrow> waiter_ok s t a l)"

section \<open>The result of a blocking call\<close>

lemma blocked_pc:
  "pc (snd (blocked p r sh l)) = W_Parked \<longleftrightarrow> fst r = None"
  "pc (snd (blocked p r sh l)) \<in> {W_Parked, W_Tail, W_Recount}"
  "expected (snd (blocked p r sh l)) = expected l"
  by (auto simp: blocked_def after_wait_def split: option.splits)

section \<open>Steps of a waiter on any backend\<close>

lemma load_reached:
  assumes "pc l = W_Recheck \<or> pc l = W_Load" and "wait_step ops a e sh l = Inr (sh', l')"
    and "wait_width (bytes a)" and "armed l' \<or> agreed l' \<or> pc l' = W_Parked"
  shows "sh' = sh \<and> armed l \<and> item_counter l' = item_counter l \<and> pc l' \<noteq> W_Parked
    \<and> load_bytes (mem sh) (object a) (bytes a) = expected l'"
  using assms
  by (auto simp: wait_step_def local_step_def w_recheck_def w_load_def res_bind_Inr_iff agreed_def
      armed_def atomic_load_generic_ok Let_def split: if_splits)

lemma unlock_reached:
  assumes "pc l = W_Unlock \<or> pc l = W_Clock" and "wait_step ops a e sh l = Inr (sh', l')"
  shows "view (wld sh') = view (wld sh) \<and> mem sh' = mem sh \<and> item_counter l' = item_counter l
    \<and> expected l' = expected l \<and> pc l' \<noteq> W_Parked"
  using assms
  by (auto simp: wait_step_def local_step_def unlock_step_def hash_table_unlock_def w_clock_def
      res_bind_Inr_iff split: option.splits if_splits)

lemma load_bytes_prefix:
  assumes "load_bytes m k 8 = load_bytes m' k 8" and "wait_width n"
  shows "load_bytes m k n = load_bytes m' k n"
proof (rule load_bytes_cong [where n = 8])
  show "n \<le> 8"
    using assms(2) by (auto simp: wait_width_def)
  show "m (k + of_nat i) = m' (k + of_nat i)" if "i < 8" for i
    using assms(1) that by (simp add: load_bytes_def map_eq_conv)
qed

lemma observes_store:
  assumes "observes s a l" and "wait_width (bytes a)"
  shows "observes (after_store m s) a l"
  using assms load_bytes_prefix [OF _ assms(2), of m "object a" "mem (shr s)"]
  by (auto simp: observes_def after_store_def)

section \<open>The interface\<close>

text \<open>
  What the argument needs of a proxy: the counter is read as it is, the blocking call blocks only on
  the value it was given, no waiter changes the counter, every wake does, and a wake that succeeds
  unblocks at least as many threads as it was asked for, or all there are; one can be added to the count
  it reports.
\<close>

locale generation_counter = wait_backend ops "\<lambda>_. True"
  for ops :: "(u32, 'o) wait_ops_scheme" +
  assumes counter_law: "px_counter ops c = c"
    and park_law: "px_park ops e cnt c = (r, c') \<Longrightarrow> c' = c \<and> (r = None \<longrightarrow> c = cnt)"
    and resume_law: "px_resume ops e c = (r, c') \<Longrightarrow> c' = c \<and> r \<noteq> None"
    and wake_bump: "snd (snd (px_wake ops os m n parked c)) = c + 1"
    and wake_law: "valid_os os \<Longrightarrow> int parked < INT_MAX \<Longrightarrow> 0 \<le> fst (px_wake ops os m n parked c) \<Longrightarrow>
      min (unat m) parked \<le> fst (snd (px_wake ops os m n parked c))
      \<and> fst (snd (px_wake ops os m n parked c)) \<le> parked"
    and wake_result: "valid_os os \<Longrightarrow> int parked < INT_MAX \<Longrightarrow> fst (px_wake ops os m n parked c) < INT_MAX"
begin

section \<open>The payload is stable\<close>

lemma park_resume_keep [simp]: "snd (px_park ops e cnt c) = c" "snd (px_resume ops e c) = c"
  using park_law [of e cnt c] resume_law [of e c] by (metis prod.collapse)+

lemma park_blocks: "fst (px_park ops e cnt c) = None \<Longrightarrow> c = cnt"
  using park_law by (metis prod.collapse)

lemma resume_returns: "fst (px_resume ops e c) \<noteq> None"
  using resume_law by (metis prod.collapse)

lemma poke_same: "payload p sh = Inr c \<Longrightarrow> poke p c (wld sh) = wld sh"
  by (auto simp: poke_def payload_def map_upd_triv split: option.splits)

lemma blocking_quiet:
  assumes "pc l \<in> {W_Park, W_Parked, W_Woken}" and "wait_step ops a e sh l = Inr (sh', l')"
  shows "sh' = sh"
  using assms
  by (auto simp: wait_step_def w_park_def w_resume_def blocked_def res_bind_Inr_iff poke_same
      park_resume_keep split: if_splits)

lemma payload_stable:
  assumes inv: "sys_inv (\<lambda>_. True) N s" and N: "int N < INT_MAX"
    and t: "threads s t = Waiting a l" and e: "valid_env e"
    and st: "wait_step ops a e (shr s) l = Inr (sh, l')"
    and v: "view (wld (shr s)) k = Some (p, n, c)" "view (wld sh) k = Some (p', n', c')"
  shows "c' = c"
proof -
  have "step_eff (\<lambda>_. True) (object a) (shr s) (Waiting a l) sh (Waiting a l')"
    using wait_step_eff [OF wait_pre [OF inv N t] e] st by simp
  then consider "view (wld sh) = view (wld (shr s))" | "may_poke (Waiting a l)"
    | "view_joins (view (wld (shr s))) (object a) (item l') (view (wld sh))"
    | "view_leaves (view (wld (shr s))) (object a) (view (wld sh))"
    unfolding step_eff_def by auto
  then show ?thesis
  proof cases
    case 2
    then show ?thesis
      using blocking_quiet [OF _ st] v by simp
  next
    case 3
    then show ?thesis
      using v by (auto simp: view_joins_def split: if_splits)
  next
    case 4
    then show ?thesis
      using v by (auto simp: view_leaves_def split: if_splits)
  qed (use v in simp)
qed

section \<open>The waiter's own steps\<close>

text \<open>How a waiter gets to the program points the invariant speaks of.\<close>

lemma counter_reached:
  assumes "pc l = W_Counter \<or> pc l = W_Recount" and "wait_step ops a e sh l = Inr (sh', l')"
  shows "sh' = sh \<and> payload (item l) sh = Inr (item_counter l') \<and> \<not> agreed l' \<and> pc l' \<noteq> W_Parked"
  using assms
  by (auto simp: wait_step_def local_step_def w_counter_def counter_law res_bind_Inr_iff agreed_def)

lemma park_reached:
  assumes "pc l = W_Park" and "wait_step ops a e sh l = Inr (sh', l')" and "pc l' = W_Parked"
  shows "payload (item l) sh = Inr (item_counter l) \<and> expected l' = expected l"
proof -
  obtain c where c: "payload (item l) sh = Inr c"
      "(sh', l') = blocked (item l) (px_park ops (env_os e) (item_counter l) c) sh l"
    using assms(1,2) by (auto simp: wait_step_def w_park_def res_bind_Inr_iff)
  then have "c = item_counter l"
    using blocked_pc(1) [of "item l"] assms(3) park_blocks by (metis snd_conv)
  then show ?thesis
    using c blocked_pc(3) by (metis snd_conv)
qed

lemma resume_reached:
  assumes "pc l = W_Parked \<or> pc l = W_Woken" and "wait_step ops a e sh l = Inr (sh', l')"
  shows "pc l' \<in> {W_Tail, W_Recount}"
proof -
  obtain r c where "blocked (item l) (px_resume ops r c) sh l = (sh', l')"
    using assms by (auto simp: wait_step_def w_resume_def res_bind_Inr_iff)
  then show ?thesis
    using blocked_pc(1,2) [of "item l" "px_resume ops r c" sh l] resume_returns by (metis insertE snd_conv)
qed

lemma elsewhere:
  assumes "wait_step ops a e sh l = Inr (sh', l')" and "local_ok l"
    and "pc l \<notin> {W_Counter, W_Recount, W_Recheck, W_Load, W_Unlock, W_Clock, W_Park}"
  shows "\<not> armed l' \<and> \<not> agreed l' \<and> pc l' \<noteq> W_Parked"
proof (cases "pc l = W_Parked \<or> pc l = W_Woken")
  case True
  then show ?thesis
    using resume_reached [OF True assms(1)] by (auto simp: armed_def agreed_def)
next
  case False
  then show ?thesis
    using assms
    by (cases "pc l")
      (auto simp: wait_step_def local_step_def w_start_def w_reload_def w_acquire_lock_def lock_step_def
        hash_table_lock_def w_find_def w_tail_def w_release_def res_bind_Inr_iff armed_def agreed_def
        Let_def split: option.splits if_splits)
qed

lemma view_payload:
  assumes inv: "sys_inv (\<lambda>_. True) N s" and t: "threads s t = Waiting a l"
    and i: "item l \<noteq> NULL" "pc l \<noteq> W_Tail_Unlock" "pc l \<noteq> W_Done"
    and pl: "payload (item l) (shr s) = Inr c" and v: "view (wld (shr s)) (object a) = Some (p, n, c')"
  shows "c' = c"
proof -
  have "registered (object a) (threads s t)"
    using t i by simp
  then obtain m b where "view (wld (shr s)) (object a) = Some (item l, m, b)"
    using registered_in_view [OF inv, of "object a" t] t by auto
  then show ?thesis
    using v pl payload_of_view by fastforce
qed

text \<open>The counter has moved by the wakes seen; if it is back at the captured value there was none.\<close>

lemma park_observes:
  assumes inv: "sys_inv (\<lambda>_. True) N s" and wi: "wake_inv s" and t: "threads s t = Waiting a l"
    and park: "pc l = W_Park" and st: "wait_step ops a e (shr s) l = Inr (sh, l')"
    and l': "pc l' = W_Parked" and few: "bumps s t < 2 ^ 32"
  shows "observes s a l"
proof -
  have w: "waiter_ok s t a l"
    using wi t by (simp add: wake_inv_def)
  have item: "item l \<noteq> NULL"
    using local_ok_item [of l] sys_inv_parts(5) [OF inv, of t] t park by simp
  have r: "payload (item l) (shr s) = Inr (item_counter l)"
    using park_reached [OF park st l'] by simp
  obtain p n c where v: "view (wld (shr s)) (object a) = Some (p, n, c)"
    using registered_in_view [OF inv, of "object a" t] t park item by auto
  have "c = item_counter l"
    using view_payload [OF inv t item _ _ r v] park by simp
  moreover have "c = item_counter l + of_nat (bumps s t)"
    using w park v by (simp add: waiter_ok_def counter_ok_def armed_def)
  ultimately have "(of_nat (bumps s t) :: u32) = 0"
    by simp
  then have "bumps s t = 0"
    using few by (auto simp: word_of_nat_eq_0_iff dest: dvd_imp_le)
  then show ?thesis
    using w park by (simp add: waiter_ok_def agreed_def)
qed

lemma own_step:
  assumes inv: "sys_inv (\<lambda>_. True) N s" and wi: "wake_inv s" and t: "threads s t = Waiting a l"
    and st: "wait_step ops a e (shr s) l = Inr (sh, l')"
  shows "waiter_ok (after_wait_step t a l sh l' s) t a l'"
proof -
  have ok: "valid_call a" "local_ok l"
    using sys_inv_parts(5) [OF inv, of t] t by simp_all
  have w: "waiter_ok s t a l"
    using wi t by (simp add: wake_inv_def)
  have item: "item l \<noteq> NULL" if "pc l \<in> {W_Counter, W_Recount, W_Park}"
    using local_ok_item [OF ok(2)] that by blast
  consider (counter) "pc l = W_Counter \<or> pc l = W_Recount" | (load) "pc l = W_Recheck \<or> pc l = W_Load"
    | (unlock) "pc l = W_Unlock \<or> pc l = W_Clock" | (park) "pc l = W_Park"
    | (other) "pc l \<notin> {W_Counter, W_Recount, W_Recheck, W_Load, W_Unlock, W_Clock, W_Park}"
    by blast
  then show ?thesis
  proof cases
    case counter
    note r = counter_reached [OF counter st]
    have "c = item_counter l'" if "view (wld sh) (object a) = Some (p, n, c)" for p n c
      using view_payload [OF inv t item] counter r that by auto
    then show ?thesis
      using r counter by (auto simp: waiter_ok_def counter_ok_def after_wait_step_def)
  next
    case load
    have "armed l' \<or> agreed l' \<or> pc l' = W_Parked \<Longrightarrow> ?thesis"
      using load_reached [OF load st] ok(1) w load
      by (auto simp: waiter_ok_def counter_ok_def observes_def after_wait_step_def valid_call_def)
    then show ?thesis
      by (auto simp: waiter_ok_def)
  next
    case unlock
    then have "armed l" "agreed l"
      by (auto simp: armed_def agreed_def)
    then show ?thesis
      using unlock_reached [OF unlock st] w unlock
      by (auto simp: waiter_ok_def counter_ok_def observes_def after_wait_step_def)
  next
    case park
    have sh: "sh = shr s"
      using blocking_quiet [OF _ st] park by simp
    have np: "\<not> armed l' \<and> \<not> agreed l'"
      using park st by (auto simp: wait_step_def w_park_def blocked_def after_wait_def res_bind_Inr_iff
          armed_def agreed_def split: option.splits if_splits)
    have "observes s a l" if "pc l' = W_Parked" "bumps s t < 2 ^ 32"
      using park_observes [OF inv wi t park st that] .
    then show ?thesis
      using np park park_reached [OF park st]
      by (auto simp: waiter_ok_def observes_def after_wait_step_def sh)
  next
    case other
    then show ?thesis
      using elsewhere [OF st ok(2)] by (simp add: waiter_ok_def)
  qed
qed

section \<open>The steps of the others\<close>

lemma waiter_registered:
  assumes "local_ok l" and "armed l \<or> agreed l \<or> pc l = W_Parked"
  shows "registered (object a) (Waiting a l)"
  using assms local_ok_item [OF assms(1)] by (auto simp: armed_def agreed_def)

lemma waiter_frame:
  assumes "waiter_ok s t a l" and "local_ok l" and "bumps s' t = bumps s t"
    and "\<And>p n c. registered (object a) (Waiting a l) \<Longrightarrow>
           view (wld (shr s')) (object a) = Some (p, n, c) \<Longrightarrow>
           \<exists>p n. view (wld (shr s)) (object a) = Some (p, n, c)"
    and "registered (object a) (Waiting a l) \<Longrightarrow> observes s a l \<Longrightarrow> observes s' a l"
  shows "waiter_ok s' t a l"
proof -
  have r: "registered (object a) (Waiting a l)" if "armed l \<or> agreed l \<or> pc l = W_Parked"
    using waiter_registered [OF assms(2) that] .
  have "counter_ok s' t a l" if "armed l"
    using assms(1,3,4) r that unfolding waiter_ok_def counter_ok_def by metis
  moreover have "observes s' a l" if "agreed l \<and> bumps s t = 0 \<or> pc l = W_Parked \<and> bumps s t < 2 ^ 32"
    using assms(1,5) r that unfolding waiter_ok_def by metis
  ultimately show ?thesis
    using assms(3) by (simp add: waiter_ok_def)
qed

lemma wake_inv_wait:
  assumes inv: "sys_inv (\<lambda>_. True) N s" and N: "int N < INT_MAX" and wi: "wake_inv s"
    and t: "threads s t = Waiting a l" and e: "valid_env e"
    and st: "wait_step ops a e (shr s) l = Inr (sh, l')"
  shows "wake_inv (after_wait_step t a l sh l' s)"
  unfolding wake_inv_def
proof (intro allI impI)
  let ?s = "after_wait_step t a l sh l' s"
  fix u b m assume u: "threads ?s u = Waiting b m"
  show "waiter_ok ?s u b m"
  proof (cases "u = t")
    case True
    then show ?thesis
      using own_step [OF inv wi t st] u by (simp add: after_wait_step_def)
  next
    case False
    then have um: "threads s u = Waiting b m"
      using u by (simp add: after_wait_step_def)
    then have ok: "waiter_ok s u b m" "local_ok m"
      using wi sys_inv_parts(5) [OF inv, of u] by (simp_all add: wake_inv_def)
    have "mem sh = mem (shr s)"
      using wait_step_eff [OF wait_pre [OF inv N t] e] st
      by (simp add: step_eff_def)
    moreover have "\<exists>p n. view (wld (shr s)) (object b) = Some (p, n, c)"
      if "registered (object b) (Waiting b m)" "view (wld sh) (object b) = Some (p, n, c)" for p n c
      using registered_in_view [OF inv, of "object b" u] um that payload_stable [OF inv N t e st]
      by fastforce
    ultimately show ?thesis
      using False by (intro waiter_frame [OF ok]) (auto simp: after_wait_step_def observes_def)
  qed
qed

lemma wake_inv_store:
  assumes inv: "sys_inv (\<lambda>_. True) N s" and wi: "wake_inv s"
  shows "wake_inv (after_store m s)"
  unfolding wake_inv_def
proof (intro allI impI)
  fix u b l assume "threads (after_store m s) u = Waiting b l"
  then have u: "threads s u = Waiting b l"
    by (simp add: after_store_def)
  then have ok: "waiter_ok s u b l" "local_ok l" "wait_width (bytes b)"
    using wi sys_inv_parts(5) [OF inv, of u] by (simp_all add: wake_inv_def valid_call_def)
  have "observes (after_store m s) b l" if "observes s b l"
    using observes_store [OF that ok(3)] .
  then show "waiter_ok (after_store m s) u b l"
    by (intro waiter_frame [OF ok(1,2)]) (simp_all add: after_store_def)
qed

lemma wake_inv_turn:
  assumes wi: "wake_inv s" and th: "\<And>a l. th = Waiting a l \<Longrightarrow> pc l = W_Start"
  shows "wake_inv (s\<lparr>threads := (threads s)(t := th)\<rparr>)"
  unfolding wake_inv_def
proof (intro allI impI)
  let ?s = "s\<lparr>threads := (threads s)(t := th)\<rparr>"
  fix u a l assume u: "threads ?s u = Waiting a l"
  show "waiter_ok ?s u a l"
  proof (cases "u = t")
    case True
    then show ?thesis
      using th u by (simp add: waiter_ok_def armed_def agreed_def)
  next
    case False
    then show ?thesis
      using wi u by (simp add: wake_inv_def waiter_ok_def counter_ok_def observes_def)
  qed
qed

section \<open>Notifiers\<close>

lemma wake_inv_notify:
  assumes inv: "sys_inv (\<lambda>_. True) N s" and wi: "wake_inv s"
    and t: "threads s t = Notifying l" "npc l \<noteq> N_Wake"
    and st: "notify_step ops (shr s) l = Inr (sh, l')"
  shows "wake_inv (after_notify_step t l sh l' s)"
  unfolding wake_inv_def
proof (intro allI impI)
  let ?s = "after_notify_step t l sh l' s"
  fix u b m assume "threads ?s u = Waiting b m"
  then have u: "threads s u = Waiting b m"
    by (auto simp: after_notify_step_def split: if_splits)
  then have ok: "waiter_ok s u b m" "local_ok m"
    using wi sys_inv_parts(5) [OF inv, of u] by (simp_all add: wake_inv_def)
  have q: "view (wld sh) = view (wld (shr s))" "mem sh = mem (shr s)"
    using notify_quiet [OF inv t st] by simp_all
  have "dirty ?s (object b) = dirty s (object b)" if "registered (object b) (Waiting b m)"
    using registered_in_view [OF inv, of "object b" u] that u notify_none [OF inv t(1) _ st]
    by (auto simp: after_notify_step_def)
  then show "waiter_ok ?s u b m"
    by (intro waiter_frame [OF ok]) (auto simp: after_notify_step_def observes_def q)
qed

text \<open>The wake, on the map.\<close>

lemma n_wake_view:
  assumes inv: "sys_inv (\<lambda>_. True) N s" and t: "threads s t = Notifying l" "npc l = N_Wake"
    and st: "n_wake ops os parked (shr s) l = Inr (sh, l', n)"
  shows "\<exists>m c. view (wld (shr s)) (nobject l) = Some (nitem l, m, c)
           \<and> view (wld sh) = (view (wld (shr s)))(nobject l \<mapsto> (nitem l, m, c + 1))
           \<and> mem sh = mem (shr s)"
proof -
  obtain m c where v: "view (wld (shr s)) (nobject l) = Some (nitem l, m, c)"
    using sys_inv_parts(4) [OF inv] t unfolding wakers_agree_def by blast
  then obtain px where px: "heap (wld (shr s)) (nitem l) = Some px" "atomic px = c"
    by (auto simp: view_Some)
  have "sh = (shr s)\<lparr>wld := poke (nitem l) (c + 1) (wld (shr s))\<rparr>"
    using st px wake_bump [of os "nmax l" "use_count px" parked c]
    by (auto simp: n_wake_def split: prod.splits)
  then show ?thesis
    using v poke_good [OF sys_inv_parts(1) [OF inv] v, of "c + 1"] by simp
qed

text \<open>How many threads a wake that succeeds unblocks; a wake-all unblocks everyone.\<close>

lemma wake_counts:
  assumes st: "n_wake ops os parked sh l = Inr (sh', l', n)" and os: "valid_os os"
    and ret: "0 \<le> nret l'" and few: "int parked < INT_MAX"
  shows "min (unat (nmax l)) parked \<le> n \<and> n \<le> parked"
proof -
  obtain px where px: "heap (wld sh) (nitem l) = Some px"
    using st by (auto simp: n_wake_def split: option.splits)
  obtain r k c where w: "px_wake ops os (nmax l) (use_count px) parked (atomic px) = (r, k, c)"
    by (metis prod_cases3)
  then have "r = nret l'" "k = n"
    using st px by (auto simp: n_wake_def)
  then show ?thesis
    using wake_law [OF os few, of "nmax l" "use_count px" "atomic px"] w ret by simp
qed

lemma wake_all_counts:
  assumes st: "n_wake ops os parked sh l = Inr (sh', l', n)" and os: "valid_os os" and all: "nmax l = WAKE_ALL"
    and ret: "0 \<le> nret l'" and few: "int parked < INT_MAX"
  shows "n = parked"
proof -
  have "parked \<le> unat WAKE_ALL"
    using few by (simp add: INT_MAX_def unsigned_minus_1_eq_mask mask_eq_exp_minus_1)
  then show ?thesis
    using wake_counts [OF st os ret few] all by simp
qed

lemma wake_unblocks:
  assumes inv: "sys_inv (\<lambda>_. True) N s" and N: "int N < INT_MAX"
    and t: "threads s t = Notifying l" and os: "valid_os os" "0 \<le> nret l'"
    and st: "n_wake ops os (card {u. parked_on (nitem l) (threads s u)}) (shr s) l = Inr (sh, l', n)"
    and S: "S \<subseteq> {u. parked_on (nitem l) (threads s u)}" "card S = n"
  defines "P \<equiv> {u. parked_on (nitem l) (threads s u)}"
    and "P' \<equiv> {u. parked_on (nitem l) (threads (after_wake t l sh l' S s) u)}"
  shows "card P' + min (unat (nmax l)) (card P) \<le> card P \<and> (nmax l = WAKE_ALL \<longrightarrow> P' = {})"
proof -
  have P: "finite P" "int (card P) < INT_MAX"
    using parked_few [OF inv, of "nitem l"] N by (simp_all add: P_def)
  have "parked_on (nitem l) (threads (after_wake t l sh l' S s) u) \<longleftrightarrow> u \<in> P - S" for u
    using t by (cases "threads s u") (auto simp: after_wake_def P_def)
  then have P': "P' = P - S"
    by (auto simp: P'_def)
  have c: "card P' = card P - n" "n \<le> card P"
    using S P(1) by (auto simp: P' P_def card_Diff_subset finite_subset card_mono)
  have "min (unat (nmax l)) (card P) \<le> n"
    using wake_counts [OF st os] P(2) by (simp add: P_def)
  moreover have "P' = {}" if "nmax l = WAKE_ALL"
  proof -
    have "card P' = 0" "finite P'"
      using wake_all_counts [OF st os(1) that os(2)] P c by (simp_all add: P_def [symmetric] P')
    then show ?thesis
      by simp
  qed
  ultimately show ?thesis
    using c by simp
qed

text \<open>A thread that a wake neither unblocks nor overtakes: what it observes is unchanged.\<close>

lemma wake_dirty:
  assumes inv: "sys_inv (\<lambda>_. True) N s" and N: "int N < INT_MAX" and os: "valid_os os"
    and P: "P = {u. parked_on (nitem l) (threads s u)}"
    and st: "n_wake ops os (card P) (shr s) l = Inr (sh, l', n)" and S: "S \<subseteq> P" "card S = n"
    and u: "u \<notin> S" "threads s u = Waiting b m" "\<not> overtaken (nitem l) (threads s u)"
    and same: "object b = nobject l \<longleftrightarrow> item m = nitem l"
  shows "dirty (after_wake t l sh l' S s) (object b) = dirty s (object b)"
proof (cases "item m = nitem l")
  case True
  then have "u \<in> P"
    using u by (simp add: P)
  moreover have "S = P" if "nmax l = WAKE_ALL" "0 \<le> nret l'"
  proof -
    have "finite P" "int (card P) < INT_MAX"
      using parked_few [OF inv, of "nitem l"] N by (simp_all add: P)
    then show ?thesis
      using wake_all_counts [OF st os that] S by (simp add: card_subset_eq)
  qed
  ultimately show ?thesis
    using u(1) by (auto simp: after_wake_def)
next
  case False
  then show ?thesis
    using same by (simp add: after_wake_def)
qed

lemma wake_bystander:
  assumes inv: "sys_inv (\<lambda>_. True) N s" and N: "int N < INT_MAX" and wi: "wake_inv s"
    and t: "threads s t = Notifying l" "npc l = N_Wake" and os: "valid_os os"
    and P: "P = {u. parked_on (nitem l) (threads s u)}"
    and st: "n_wake ops os (card P) (shr s) l = Inr (sh, l', n)" and S: "S \<subseteq> P" "card S = n"
    and u: "u \<notin> S" "threads s u = Waiting b m"
  shows "waiter_ok (after_wake t l sh l' S s) u b m"
proof -
  let ?s = "after_wake t l sh l' S s"
  obtain k c where v: "view (wld (shr s)) (nobject l) = Some (nitem l, k, c)"
      "view (wld sh) = (view (wld (shr s)))(nobject l \<mapsto> (nitem l, k, c + 1))" "mem sh = mem (shr s)"
    using n_wake_view [OF inv t st] by blast
  have ok: "waiter_ok s u b m" "local_ok m"
    using wi u sys_inv_parts(5) [OF inv, of u] by (simp_all add: wake_inv_def)
  have same: "object b = nobject l \<longleftrightarrow> item m = nitem l" if "registered (object b) (Waiting b m)"
    using registered_in_view [OF inv, of "object b" u] that u(2) v(1)
      view_unique [OF sys_inv_parts(1) [OF inv]] by auto
  note reg = waiter_registered [OF ok(2)]
  show ?thesis
  proof (cases "overtaken (nitem l) (threads s u)")
    case True
    then show ?thesis
      using ok same [OF reg] v(1,2) u(2)
      by (auto simp: waiter_ok_def counter_ok_def after_wake_def add.assoc)
  next
    case nov: False
    have obs: "observes s b m \<Longrightarrow> observes ?s b m" if "registered (object b) (Waiting b m)"
      using wake_dirty [OF inv N os P st S u nov same [OF that], of t] v(3)
      by (simp add: observes_def after_wake_def)
    have bs: "bumps ?s u = bumps s u"
      using nov by (simp add: after_wake_def)
    show ?thesis
    proof (cases "item m = nitem l")
      case True
      then have "pc m = W_Parked"
        using nov u by simp
      then show ?thesis
        using ok(1) obs [OF reg] bs by (simp add: waiter_ok_def armed_def agreed_def)
    next
      case False
      then show ?thesis
        using same v(2) by (intro waiter_frame [OF ok bs] obs) (auto simp: after_wake_def)
    qed
  qed
qed

lemma wake_inv_wake:
  assumes inv: "sys_inv (\<lambda>_. True) N s" and N: "int N < INT_MAX" and wi: "wake_inv s"
    and t: "threads s t = Notifying l" "npc l = N_Wake" and os: "valid_os os"
    and P: "P = {u. parked_on (nitem l) (threads s u)}"
    and st: "n_wake ops os (card P) (shr s) l = Inr (sh, l', n)"
    and S: "S \<subseteq> P" "card S = n"
  shows "wake_inv (after_wake t l sh l' S s)"
  unfolding wake_inv_def
proof (intro allI impI)
  let ?s = "after_wake t l sh l' S s"
  fix u b m assume um: "threads ?s u = Waiting b m"
  then have ut: "u \<noteq> t"
    by (auto simp: after_wake_def)
  show "waiter_ok ?s u b m"
  proof (cases "u \<in> S")
    case True
    then have "parked_on (nitem l) (threads s u)"
      using S P by auto
    then have "pc m = W_Woken"
      using um True ut by (cases "threads s u") (auto simp: after_wake_def)
    then show ?thesis
      by (simp add: waiter_ok_def armed_def agreed_def)
  next
    case False
    then have "threads s u = Waiting b m"
      using um ut by (simp add: after_wake_def)
    then show ?thesis
      using wake_bystander [OF inv N wi t os P st S False] by blast
  qed
qed

theorem wake_inv_preserved:
  assumes step: "sys_step ops N s s'" and inv: "sys_inv (\<lambda>_. True) N s" and N: "int N < INT_MAX"
    and wi: "wake_inv s"
  shows "wake_inv s'"
  using step
proof cases
  case (call_wait t a e)
  then show ?thesis
    using wake_inv_turn [OF wi, of "Waiting a (wait_enter a e)" t] by (simp add: wait_enter_def)
next
  case (wait t a l e sh l')
  then show ?thesis
    using wake_inv_wait [OF inv N wi] by simp
next
  case (notify t l sh l')
  then show ?thesis
    using wake_inv_notify [OF inv wi] by simp
next
  case (wake t l P os sh l' n S)
  then show ?thesis
    using wake_inv_wake [OF inv N wi] by simp
next
  case (store m)
  then show ?thesis
    using wake_inv_store [OF inv wi] by simp
qed (auto intro!: wake_inv_turn [OF wi])

theorem reachable_wake_inv:
  assumes "reachable ops (\<lambda>_. True) N s" and N: "int N < INT_MAX"
  shows "wake_inv s"
  using assms(1)
proof induction
  case (init s)
  then show ?case
    by (simp add: sys_init_def wake_inv_def)
next
  case (step s s')
  then show ?case
    using wake_inv_preserved reachable_inv N by blast
qed

text \<open>
  A thread that is blocked has been told of every store: either the object still has the value it
  waits to change, or no wake-all has completed since the last store.
\<close>

lemma blocked_has_expected:
  assumes "reachable ops (\<lambda>_. True) N s" and "int N < INT_MAX"
    and "threads s t = Waiting a l" and "pc l = W_Parked" and "bumps s t < 2 ^ 32"
    and "\<not> dirty s (object a)"
  shows "load_bytes (mem (shr s)) (object a) (bytes a) = expected l"
proof -
  have "waiter_ok s t a l"
    using reachable_wake_inv [OF assms(1,2)] assms(3) by (simp add: wake_inv_def)
  then show ?thesis
    using assms(4-6) by (simp add: waiter_ok_def observes_def)
qed

end

section \<open>The native proxies\<close>

lemma valid_os_next: "valid_os os \<Longrightarrow> 0 \<le> fst (os_next os)"
  by (cases os) (auto simp: os_next_def valid_os_def)

lemma nominal_woken_less: "nominal_woken m < INT_MAX"
  by (simp add: nominal_woken_def INT_MAX_def)

lemma error_less: "0 \<le> e \<Longrightarrow> - e < INT_MAX"
  by (simp add: INT_MAX_def)

lemma clamped_less: "int parked < INT_MAX \<Longrightarrow> int (nat (min k (int parked))) < INT_MAX"
  by (simp add: min_def)

text \<open>Clamping the count to \<open>INT_MAX\<close> does not matter, as fewer threads can be blocked.\<close>

lemma nr_wake_enough:
  assumes "int parked < INT_MAX"
  shows "min (unat m) parked \<le> nat (min (nr_wake m) (int parked)) \<and> nat (min (nr_wake m) (int parked)) \<le> parked"
  using assms by (auto simp: nr_wake_def min_def nat_le_iff zle_int [symmetric] simp del: zle_int)

lemma one_or_all_enough: "min (unat m) parked \<le> one_or_all m parked \<and> one_or_all m parked \<le> parked"
  by (auto simp: one_or_all_def)

lemma WAKE_ALL_not_1 [simp]: "WAKE_ALL \<noteq> 1"
  by simp

interpretation futex_gen: generation_counter futex_ops
  by unfold_locales
    (auto simp: futex_counter_def futex_park_def futex_resume_def futex_wake_def Let_def nr_wake_enough nominal_woken_less clamped_less
      split: if_splits dest: valid_os_next intro!: error_less)

interpretation umtx_gen: generation_counter umtx_ops
  by unfold_locales
    (auto simp: native_ops_defs futex_counter_def address_park_def futex_resume_def umtx_wake_def Let_def
      nr_wake_enough nominal_woken_less clamped_less split: if_splits dest: valid_os_next intro!: error_less)

interpretation ulock_gen: generation_counter ulock_ops
  by unfold_locales
    (auto simp: native_ops_defs futex_counter_def address_park_def futex_resume_def ulock_wake_def Let_def
      one_or_all_enough nominal_woken_less clamped_less split: if_splits dest: valid_os_next intro!: error_less)

interpretation waitaddr_gen: generation_counter waitaddr_ops
  by unfold_locales
    (auto simp: native_ops_defs futex_counter_def address_park_def futex_resume_def waitaddr_wake_def
      one_or_all_enough nominal_woken_less clamped_less split: if_splits)

lemma native_counter: "ops \<in> native_proxies \<Longrightarrow> generation_counter ops"
  using futex_gen.generation_counter_axioms umtx_gen.generation_counter_axioms
    ulock_gen.generation_counter_axioms waitaddr_gen.generation_counter_axioms
  by (auto simp: native_proxies_def)

lemma futex_native: "futex_ops \<in> native_proxies"
  by (simp add: native_proxies_def)

lemma native_waits: "ops \<in> native_proxies \<Longrightarrow> wait_backend ops (\<lambda>_. True)"
  using native_counter generation_counter.axioms(1) by blast

lemma native_refs: "ops \<in> native_proxies \<Longrightarrow> proxy_backend ops (\<lambda>_. True)"
  using native_waits wait_backend.axioms by blast

lemma native_resumes: "ops \<in> native_proxies \<Longrightarrow> fst (px_resume ops e c) = Some (- e)"
  by (auto simp: native_proxies_def native_ops_defs futex_resume_def)

end
