(* ===== verification/Wait_Results.thy ===== *)
theory Wait_Results
  imports Lost_Wake
begin

text \<open>
  What \<open>atomic_wait_generic\<close> returns: the return value, the value written back through
  \<open>expected\<close>, errno, and the memory order of the last load, for every way through the function,
  every backend and every interleaving. \<open>outcome\<close> is the contract; \<open>result_inv\<close> carries it through
  the program points.
\<close>

section \<open>The contract\<close>

text \<open>
  The wait saw a change (and returns 1 if it had entered a wait cycle, 0 if not), or timed out, or
  failed; \<open>e\<close> is the errno value it leaves.
\<close>

definition saw_change :: "wait_args \<Rightarrow> wait_local \<Rightarrow> int \<Rightarrow> bool" where
  "saw_change a l e \<longleftrightarrow>
     ret l \<in> {0, 1} \<and> expected l \<noteq> expected0 a \<and> (failure a, expected l) \<in> set (loads l) \<and>
     e = entry_errno l \<and> (ret l = 1 \<and> failure a < success a \<longrightarrow> fst (last (loads l)) = success a)"

definition timed_out :: "wait_args \<Rightarrow> wait_local \<Rightarrow> int \<Rightarrow> bool" where
  "timed_out a l e \<longleftrightarrow>
     ret l = 0 \<and> expected l = expected0 a \<and> duration a \<noteq> None \<and> e = ETIMEDOUT"

definition failed :: "wait_args \<Rightarrow> wait_local \<Rightarrow> int \<Rightarrow> bool" where
  "failed a l e \<longleftrightarrow>
     ret l = -1 \<and> expected l = expected0 a \<and>
     (item l = NULL \<or> 0 < e \<and> e \<noteq> EAGAIN \<and> e \<noteq> EINTR \<and> e \<noteq> ETIMEDOUT)"

definition outcome :: "wait_args \<Rightarrow> wait_local \<Rightarrow> int \<Rightarrow> bool" where
  "outcome a l e \<longleftrightarrow> saw_change a l e \<or> timed_out a l e \<or> failed a l e"

section \<open>The invariant\<close>

definition going :: "wait_args \<Rightarrow> wait_local \<Rightarrow> bool" where
  "going a l \<longleftrightarrow> expected l = expected0 a \<and> \<not> errno_is_set l"

definition result_inv :: "wait_args \<Rightarrow> wait_local \<Rightarrow> bool" where
  "result_inv a l \<longleftrightarrow>
     (case pc l of
        W_Start \<Rightarrow> expected l = expected0 a
      | W_Load \<Rightarrow> going a l \<and> ret l = (if item l = NULL then 0 else 1)
                  \<and> (item l = NULL \<longrightarrow> terrno l = entry_errno l)
      | W_Reload \<Rightarrow> expected l \<noteq> expected0 a \<and> \<not> errno_is_set l \<and> ret l = 1 \<and> item l \<noteq> NULL
                    \<and> (failure a, expected l) \<in> set (loads l)
      | W_Lock \<Rightarrow> going a l \<and> ret l = 0 \<and> item l = NULL
      | W_Find \<Rightarrow> going a l \<and> ret l = 0 \<and> item l = NULL
      | W_Fail \<Rightarrow> going a l \<and> ret l = 0 \<and> item l = NULL
      | W_Counter \<Rightarrow> going a l \<and> ret l = 0 \<and> item l \<noteq> NULL
      | W_Recheck \<Rightarrow> going a l \<and> ret l = 0 \<and> item l \<noteq> NULL
      | W_Reload_Locked \<Rightarrow> False
      | W_Unlock \<Rightarrow> going a l \<and> ret l = 0 \<and> item l \<noteq> NULL
      | W_Clock \<Rightarrow> going a l \<and> ret l = 1 \<and> item l \<noteq> NULL
      | W_Park \<Rightarrow> going a l \<and> ret l = 1 \<and> item l \<noteq> NULL
      | W_Parked \<Rightarrow> going a l \<and> ret l = 1 \<and> item l \<noteq> NULL
      | W_Woken \<Rightarrow> going a l \<and> ret l = 1 \<and> item l \<noteq> NULL
      | W_Recount \<Rightarrow> going a l \<and> ret l = 1 \<and> item l \<noteq> NULL
      | W_Tail \<Rightarrow> outcome a l (if errno_is_set l then terrno l else entry_errno l)
                  \<and> (item l = NULL \<longrightarrow> \<not> errno_is_set l \<and> terrno l = entry_errno l)
      | W_Tail_Lock \<Rightarrow> outcome a l (save_errno l)
      | W_Release \<Rightarrow> outcome a l (save_errno l)
      | W_Tail_Unlock \<Rightarrow> outcome a l (save_errno l)
      | W_Done \<Rightarrow> outcome a l (terrno l))"

lemmas outcome_defs = outcome_def saw_change_def timed_out_def failed_def going_def

lemma result_inv_enter: "result_inv a (wait_enter a e)"
  by (simp add: result_inv_def wait_enter_def)

lemma result_inv_woken: "result_inv a l \<Longrightarrow> pc l = W_Parked \<Longrightarrow> result_inv a (l\<lparr>pc := W_Woken\<rparr>)"
  by (simp add: result_inv_def going_def)

lemma result_inv_start: "result_inv a l \<Longrightarrow> pc l = W_Start \<Longrightarrow> w_start a e l = Inr l' \<Longrightarrow> result_inv a l'"
  by (auto simp: result_inv_def w_start_def going_def res_bind_Inr_iff Let_def split: option.splits)

lemma result_inv_load:
  assumes inv: "result_inv a l" and pc: "pc l = W_Load" and st: "w_load a sh l = Inr l'"
  shows "result_inv a l'"
proof -
  obtain v where v: "atomic_load_generic (mem sh) (object a) (bytes a) = Inr v"
    using st by (auto simp: w_load_def res_bind_Inr_iff)
  have i: "expected l = expected0 a" "\<not> errno_is_set l" "ret l = (if item l = NULL then 0 else 1)"
      "item l = NULL \<longrightarrow> terrno l = entry_errno l"
    using inv pc by (simp_all add: result_inv_def going_def)
  have l': "l' = (let l1 = l\<lparr>loads := loads l @ [(failure a, v)]\<rparr> in
      if v \<noteq> expected l
      then l1\<lparr>expected := v, pc := if ret l \<noteq> 0 \<and> success a > failure a then W_Reload else W_Tail\<rparr>
      else l1\<lparr>pc := if item l = NULL then W_Lock else W_Clock\<rparr>)"
    using st v by (auto simp: w_load_def Let_def)
  show ?thesis
    using i by (cases "v = expected l"; cases "item l = NULL")
      (simp_all add: l' result_inv_def outcome_defs)
qed

lemma result_inv_recheck:
  assumes inv: "result_inv a l" and pc: "pc l = W_Recheck" and st: "w_recheck a sh l = Inr l'"
  shows "result_inv a l'"
proof -
  obtain v where v: "atomic_load_generic (mem sh) (object a) (bytes a) = Inr v"
    using st by (auto simp: w_recheck_def res_bind_Inr_iff)
  have i: "expected l = expected0 a" "\<not> errno_is_set l" "ret l = 0" "item l \<noteq> NULL"
    using inv pc by (simp_all add: result_inv_def going_def)
  have l': "l' = (let l1 = l\<lparr>loads := loads l @ [(failure a, v)]\<rparr> in
      if v \<noteq> expected l then l1\<lparr>expected := v, lock_is_held := True, pc := W_Tail\<rparr>
      else l1\<lparr>pc := W_Unlock\<rparr>)"
    using st v i(3) by (auto simp: w_recheck_def Let_def)
  show ?thesis
    using i by (cases "v = expected l") (simp_all add: l' result_inv_def outcome_defs)
qed

lemma result_inv_reload:
  "result_inv a l \<Longrightarrow> pc l = W_Reload \<Longrightarrow> w_reload a sh l = Inr l' \<Longrightarrow> result_inv a l'"
  by (auto simp: result_inv_def w_reload_def res_bind_Inr_iff outcome_defs)

lemma result_inv_clock: "result_inv a l \<Longrightarrow> pc l = W_Clock \<Longrightarrow> w_clock a e l = Inr l' \<Longrightarrow> result_inv a l'"
  by (auto simp: result_inv_def w_clock_def res_bind_Inr_iff outcome_defs split: option.splits if_splits)

lemma result_inv_blocked:
  assumes "going a l" "ret l = 1" "item l \<noteq> NULL" and "blocked p r sh l = (sh', l')"
  shows "result_inv a l'"
  using assms
  by (auto simp: result_inv_def blocked_def after_wait_def outcome_defs split: option.splits if_splits)

lemma result_inv_tail: "result_inv a l \<Longrightarrow> pc l = W_Tail \<Longrightarrow> result_inv a (w_tail l)"
  by (auto simp: result_inv_def w_tail_def outcome_defs)

lemma local_step_Inr: "local_step sh r = Inr (sh', l') \<longleftrightarrow> r = Inr l' \<and> sh' = sh"
  by (auto simp: local_step_def res_bind_Inr_iff)

text \<open>The steps that touch only the locals, those of the lock, those that use a proxy.\<close>

lemma result_inv_local:
  assumes inv: "result_inv a l" and st: "wait_step ops a e sh l = Inr (sh', l')"
    and pc: "pc l \<in> {W_Start, W_Load, W_Reload, W_Recheck, W_Clock, W_Tail, W_Done, W_Reload_Locked}"
  shows "result_inv a l'"
proof -
  have "\<not> result_inv a l" if "pc l = W_Reload_Locked"
    using that by (simp add: result_inv_def)
  then show ?thesis
    using pc st inv result_inv_start [OF inv] result_inv_load [OF inv] result_inv_reload [OF inv]
      result_inv_recheck [OF inv] result_inv_clock [OF inv] result_inv_tail [OF inv]
    by (auto simp: wait_step_def local_step_Inr)
qed

lemma result_inv_lock:
  assumes inv: "result_inv a l" and st: "wait_step ops a e sh l = Inr (sh', l')"
    and pc: "pc l \<in> {W_Lock, W_Tail_Lock, W_Unlock, W_Fail, W_Tail_Unlock}"
  shows "result_inv a l'"
proof -
  have "l' = l \<or> l' = l\<lparr>pc := if pc l = W_Lock then W_Find else W_Release\<rparr>"
    if "pc l = W_Lock \<or> pc l = W_Tail_Lock"
    using that st by (auto simp: wait_step_def w_acquire_lock_def split: prod.splits)
  moreover have "l' = l\<lparr>ret := 1, pc := W_Clock\<rparr>" if "pc l = W_Unlock"
    using that st by (simp add: wait_step_def)
  moreover have "l' = l\<lparr>ret := -1, pc := W_Done\<rparr>" if "pc l = W_Fail"
    using that st by (simp add: wait_step_def)
  moreover have "l' = l\<lparr>terrno := save_errno l, pc := W_Done\<rparr>" if "pc l = W_Tail_Unlock"
    using that st by (simp add: wait_step_def)
  ultimately show ?thesis
    using pc inv by (elim insertE emptyE) (auto simp: result_inv_def outcome_defs)
qed

lemma result_inv_find:
  assumes inv: "result_inv a l" and pc: "pc l = W_Find" and st: "w_find ops a sh l = Inr (sh', l')"
  shows "result_inv a l'"
proof -
  obtain p n where l': "l' = l\<lparr>item := p, terrno := n, pc := if p = NULL then W_Fail else W_Counter\<rparr>"
    using st by (auto simp: w_find_def res_bind_Inr_iff)
  show ?thesis
    using inv pc by (simp add: l' result_inv_def going_def)
qed

lemma result_inv_counter:
  assumes inv: "result_inv a l" and st: "w_counter ops next sh l = Inr l'"
    and pc: "pc l = W_Counter \<and> next = W_Recheck \<or> pc l = W_Recount \<and> next = W_Load"
  shows "result_inv a l'"
proof -
  obtain c where l': "l' = l\<lparr>item_counter := c, pc := next\<rparr>"
    using st by (auto simp: w_counter_def res_bind_Inr_iff)
  show ?thesis
    using inv pc by (auto simp: l' result_inv_def going_def)
qed

lemma result_inv_release:
  assumes inv: "result_inv a l" and pc: "pc l = W_Release" and st: "w_release ops a sh l = Inr (sh', l')"
  shows "result_inv a l'"
proof -
  obtain n where l': "l' = l\<lparr>terrno := n, pc := W_Tail_Unlock\<rparr>"
    using st by (auto simp: w_release_def res_bind_Inr_iff)
  show ?thesis
    using inv pc by (simp add: l' result_inv_def outcome_defs)
qed

lemma result_inv_proxy:
  assumes inv: "result_inv a l" and st: "wait_step ops a e sh l = Inr (sh', l')"
    and pc: "pc l \<in> {W_Find, W_Counter, W_Recount, W_Release}"
  shows "result_inv a l'"
  using pc st result_inv_find [OF inv] result_inv_counter [OF inv, of ops W_Recheck sh]
    result_inv_counter [OF inv, of ops W_Load sh] result_inv_release [OF inv]
  by (auto simp: wait_step_def local_step_Inr)

lemma result_inv_blocking:
  assumes inv: "result_inv a l" and st: "wait_step ops a e sh l = Inr (sh', l')"
    and pc: "pc l \<in> {W_Park, W_Parked, W_Woken}"
  shows "result_inv a l'"
proof -
  have "going a l" "ret l = 1" "item l \<noteq> NULL"
    using inv pc by (auto simp: result_inv_def)
  moreover have "\<exists>r. blocked (item l) r sh l = (sh', l')"
    using st pc by (auto simp: wait_step_def w_park_def w_resume_def res_bind_Inr_iff simp del: split_paired_Ex)
  ultimately show ?thesis
    using result_inv_blocked by blast
qed

theorem result_inv_step:
  assumes "result_inv a l" and "wait_step ops a e sh l = Inr (sh', l')"
  shows "result_inv a l'"
  using result_inv_local [OF assms] result_inv_lock [OF assms] result_inv_proxy [OF assms]
    result_inv_blocking [OF assms]
  by (cases "pc l") simp_all

text \<open>Every interleaving.\<close>

theorem reachable_result:
  assumes "reachable ops calm N s"
  shows "threads s t = Waiting a l \<Longrightarrow> result_inv a l"
  using assms
proof (induction arbitrary: t a l)
  case (init s)
  then show ?case
    by (simp add: sys_init_def)
next
  case (step s s')
  from step.hyps(2) step.prems show ?case
  proof cases
    case (wait u b k e sh k')
    then show ?thesis
      using step.IH step.prems result_inv_step [of b k ops e "shr s" sh k']
      by (auto simp: after_wait_step_def split: if_splits)
  next
    case (wake u m P os sh m' n S)
    then have "threads s t = Waiting a l \<or>
        (\<exists>k. threads s t = Waiting a k \<and> pc k = W_Parked \<and> l = k\<lparr>pc := W_Woken\<rparr>)"
      using step.prems by (cases "threads s t") (auto simp: after_wake_def split: if_splits)
    then show ?thesis
      using step.IH result_inv_woken by blast
  qed (use step.IH step.prems result_inv_enter in
      \<open>auto simp: after_notify_step_def after_store_def split: if_splits\<close>)
qed

lemma reachable_outcome:
  "reachable ops calm N s \<Longrightarrow> threads s t = Waiting a l \<Longrightarrow> pc l = W_Done \<Longrightarrow> outcome a l (terrno l)"
  using reachable_result by (fastforce simp: result_inv_def)

text \<open>
  The reload under the table lock is dead code: when the second comparison sees a change the thread has
  not entered a wait cycle, so its result is still 0 and the reload is skipped.
\<close>

lemma locked_reload_unreachable:
  "reachable ops calm N s \<Longrightarrow> threads s t = Waiting a l \<Longrightarrow>
   pc l \<noteq> W_Reload_Locked \<and> (pc l = W_Recheck \<longrightarrow> ret l = 0)"
  using reachable_result by (fastforce simp: result_inv_def)

text \<open>
  The numeric comparison of memory orders takes release for stronger than acquire: a wait with success
  order release and failure order acquire that sees a change after a wait cycle reloads the object with
  order release, which C does not allow for a load and which orders less than the load already made.
\<close>

lemma release_reload:
  assumes "success a = Release" and "failure a = Acquire" and "ret l \<noteq> 0" and "wait_width (bytes a)"
    and "load_bytes (mem sh) (object a) (bytes a) \<noteq> expected l"
  shows "\<exists>l1 l2. w_load a sh l = Inr l1 \<and> pc l1 = W_Reload \<and> w_reload a sh l1 = Inr l2
    \<and> fst (last (loads l2)) = Release"
  using assms by (simp add: w_load_def w_reload_def atomic_load_generic_ok Let_def memory_order_less)

end
