(* ===== verification/Schedules.thy ===== *)
theory Schedules
  imports Wait_Results
begin

text \<open>
  Executable runs of the system of \<open>Wait_System\<close>: a schedule is a list of actions, \<open>run\<close> plays it
  and every state it ends in is reachable. The small program at the end (one byte at one address,
  two threads) is the subject of the concrete runs of this development.
\<close>

section \<open>Playing a schedule\<close>

datatype action =
    Call_Wait nat wait_args int
  | Step_Wait nat env
  | Return_Wait nat
  | Call_Notify nat ptr u32 int
  | Step_Notify nat
  | Wake nat "int list" "nat list"
  | Return_Notify nat
  | Store "ptr \<Rightarrow> u8"

definition parked_list :: "nat \<Rightarrow> ptr \<Rightarrow> (nat \<Rightarrow> thread) \<Rightarrow> nat list" where
  "parked_list N p ths = filter (\<lambda>u. parked_on p (ths u)) [0..<N]"

fun act :: "('p, 'o) wait_ops_scheme \<Rightarrow> nat \<Rightarrow> action \<Rightarrow> 'p sys \<Rightarrow> 'p sys option" where
  "act ops N (Call_Wait t a e) s =
     (if t < N \<and> valid_call a then
        case threads s t of
          Idle \<Rightarrow> Some (s\<lparr>threads := (threads s)(t := Waiting a (wait_enter a e))\<rparr>)
        | _ \<Rightarrow> None
      else None)"
| "act ops N (Step_Wait t e) s =
     (case threads s t of
        Waiting a l \<Rightarrow>
          if valid_env e then
            case wait_step ops a e (shr s) l of
              Inr (sh, l') \<Rightarrow> Some (after_wait_step t a l sh l' s)
            | Inl f \<Rightarrow> None
          else None
      | _ \<Rightarrow> None)"
| "act ops N (Return_Wait t) s =
     (case threads s t of
        Waiting a l \<Rightarrow> if pc l = W_Done then Some (s\<lparr>threads := (threads s)(t := Idle)\<rparr>) else None
      | _ \<Rightarrow> None)"
| "act ops N (Call_Notify t k m e) s =
     (if t < N \<and> valid_key k then
        case threads s t of
          Idle \<Rightarrow> Some (s\<lparr>threads := (threads s)(t := Notifying (notify_enter k m e))\<rparr>)
        | _ \<Rightarrow> None
      else None)"
| "act ops N (Step_Notify t) s =
     (case threads s t of
        Notifying l \<Rightarrow>
          if npc l \<noteq> N_Wake then
            case notify_step ops (shr s) l of
              Inr (sh, l') \<Rightarrow> Some (after_notify_step t l sh l' s)
            | Inl f \<Rightarrow> None
          else None
      | _ \<Rightarrow> None)"
| "act ops N (Wake t os us) s =
     (case threads s t of
        Notifying l \<Rightarrow>
          if npc l = N_Wake \<and> valid_os os then
            case n_wake ops os (length (parked_list N (nitem l) (threads s))) (shr s) l of
              Inr (sh, l', n) \<Rightarrow>
                if distinct us \<and> length us = n
                  \<and> list_all (\<lambda>u. u < N \<and> parked_on (nitem l) (threads s u)) us
                then Some (after_wake t l sh l' (set us) s) else None
            | Inl f \<Rightarrow> None
          else None
      | _ \<Rightarrow> None)"
| "act ops N (Return_Notify t) s =
     (case threads s t of
        Notifying l \<Rightarrow> if npc l = N_Done then Some (s\<lparr>threads := (threads s)(t := Idle)\<rparr>) else None
      | _ \<Rightarrow> None)"
| "act ops N (Store m) s = Some (after_store m s)"

fun run :: "('p, 'o) wait_ops_scheme \<Rightarrow> nat \<Rightarrow> action list \<Rightarrow> 'p sys \<Rightarrow> 'p sys option" where
  "run ops N [] s = Some s"
| "run ops N (x # xs) s = (case act ops N x s of None \<Rightarrow> None | Some s' \<Rightarrow> run ops N xs s')"

lemma parked_list_card:
  assumes "\<forall>t\<ge>N. ths t = Idle"
  shows "length (parked_list N p ths) = card {u. parked_on p (ths u)}"
proof -
  have "{u. parked_on p (ths u)} = set (parked_list N p ths)"
    using assms by (fastforce simp: parked_list_def not_le [symmetric])
  moreover have "distinct (parked_list N p ths)"
    by (simp add: parked_list_def)
  ultimately show ?thesis
    by (simp add: distinct_card)
qed

lemma act_sound:
  assumes "act ops N x s = Some s'" and "\<forall>t\<ge>N. threads s t = Idle"
  shows "sys_step ops N s s'"
proof (cases x)
  case (Call_Wait t a e)
  then show ?thesis
    using assms by (auto split: if_splits thread.splits intro: sys_step.call_wait)
next
  case (Step_Wait t e)
  then show ?thesis
    using assms by (auto split: if_splits thread.splits sum.splits intro: sys_step.wait)
next
  case (Return_Wait t)
  then show ?thesis
    using assms by (auto split: if_splits thread.splits intro: sys_step.return_wait)
next
  case (Call_Notify t k m e)
  then show ?thesis
    using assms by (auto split: if_splits thread.splits intro: sys_step.call_notify)
next
  case (Step_Notify t)
  then show ?thesis
    using assms by (auto split: if_splits thread.splits sum.splits intro: sys_step.notify)
next
  case (Wake t os us)
  then obtain l sh l' where l: "threads s t = Notifying l" "npc l = N_Wake" "valid_os os"
      "n_wake ops os (length (parked_list N (nitem l) (threads s))) (shr s) l = Inr (sh, l', length us)"
      "distinct us" "list_all (\<lambda>u. u < N \<and> parked_on (nitem l) (threads s u)) us"
      "s' = after_wake t l sh l' (set us) s"
    using assms(1) by (auto split: if_splits thread.splits sum.splits)
  let ?P = "{u. parked_on (nitem l) (threads s u)}"
  have "set us \<subseteq> ?P" "card (set us) = length us"
    using l(5,6) by (auto simp: list_all_iff distinct_card)
  then show ?thesis
    using sys_step.wake [OF l(1,2) refl l(3) _ _ _, of ops sh l' "length us" "set us" N] l(4)
    by (simp add: parked_list_card [OF assms(2)] l(7))
next
  case (Return_Notify t)
  then show ?thesis
    using assms by (auto split: if_splits thread.splits intro: sys_step.return_notify)
next
  case (Store m)
  then show ?thesis
    using assms by (auto intro: sys_step.store)
qed

lemma sys_step_idle:
  assumes "sys_step ops N s s'" and "\<forall>t\<ge>N. threads s t = Idle"
  shows "\<forall>t\<ge>N. threads s' t = Idle"
  using assms
  by cases (auto simp: after_wait_step_def after_notify_step_def after_wake_def after_store_def)

lemma run_reachable:
  assumes "reachable ops calm N s" and "\<forall>t\<ge>N. threads s t = Idle" and "run ops N xs s = Some s'"
  shows "reachable ops calm N s'"
  using assms
proof (induction xs arbitrary: s)
  case (Cons x xs)
  then obtain s1 where s1: "act ops N x s = Some s1" "run ops N xs s1 = Some s'"
    by (auto split: option.splits)
  then have "sys_step ops N s s1"
    using act_sound Cons.prems(2) by blast
  then show ?case
    using Cons.IH [of s1] Cons.prems s1 sys_step_idle reachable.step by blast
qed simp

lemma run_from_init:
  assumes "sys_init calm s" and "run ops N xs s \<noteq> None"
  shows "reachable ops calm N (the (run ops N xs s))"
proof -
  have "\<forall>t\<ge>N. threads s t = Idle"
    using assms(1) by (simp add: sys_init_def)
  then show ?thesis
    using run_reachable [OF reachable.init [OF assms(1)]] assms(2) by auto
qed

section \<open>A small program\<close>

definition K :: ptr where
  "K = 4096"

text \<open>The byte at \<open>K\<close> has the value \<open>v\<close>; the allocator can answer twice.\<close>

definition start_sys :: "u8 \<Rightarrow> 'p sys" where
  "start_sys v =
     \<lparr>shr = \<lparr>wld = \<lparr>table = shared_global_hash_table, heap = Map.empty,
                   alloc_script = [(65536, 0), (131072, 0)], free_script = [], os_script = all_succeed,
                   errno = 0\<rparr>,
            mem = (\<lambda>_. 0)(K := v)\<rparr>,
      threads = (\<lambda>_. Idle), dirty = (\<lambda>_. False), bumps = (\<lambda>_. 0)\<rparr>"

lemma start_sys_init: "calm all_succeed \<Longrightarrow> sys_init calm (start_sys v)"
  by (simp add: start_sys_def sys_init_def)

definition the_env :: env where
  "the_env = \<lparr>env_clock_ret = 0, env_now = \<lparr>tv_sec = 0, tv_nsec = 0\<rparr>, env_os = 0\<rparr>"

text \<open>A wait on the byte without a time limit.\<close>

definition byte_wait :: "u8 \<Rightarrow> wait_args" where
  "byte_wait v =
     \<lparr>object = K, bytes = 1, expected0 = [v], duration = None, success = Seq_Cst,
      failure = Relaxed\<rparr>"

text \<open>Thread 0 waits for the value 1 to change and is about to block, or blocked.\<close>

definition to_park :: "action list" where
  "to_park = Call_Wait 0 (byte_wait 1) 0 # replicate 8 (Step_Wait 0 the_env)"

definition to_parked :: "action list" where
  "to_parked = to_park @ [Step_Wait 0 the_env]"

text \<open>Thread 1 stores 0 and wakes all.\<close>

definition store_and_wake :: "nat list \<Rightarrow> action list" where
  "store_and_wake us =
     [Store (\<lambda>_. 0), Call_Notify 1 K WAKE_ALL 0, Step_Notify 1, Step_Notify 1, Wake 1 [] us,
      Step_Notify 1, Return_Notify 1]"

fun wargs_of :: "thread \<Rightarrow> wait_args" where
  "wargs_of (Waiting a l) = a"
| "wargs_of _ = byte_wait 0"

fun wlocal_of :: "thread \<Rightarrow> wait_local" where
  "wlocal_of (Waiting a l) = l"
| "wlocal_of _ = wait_enter (byte_wait 0) 0"

text \<open>What a run is observed for: a thread, the byte, and the observer variables.\<close>

definition snap :: "nat \<Rightarrow> 'p sys \<Rightarrow>
  bool \<times> wait_args \<times> wait_pc \<times> u8 list \<times> bool \<times> int \<times> bool \<times> nat \<times> u8 list" where
  "snap t s =
     (case threads s t of Waiting a l \<Rightarrow> True | _ \<Rightarrow> False, wargs_of (threads s t),
      pc (wlocal_of (threads s t)), expected (wlocal_of (threads s t)),
      item (wlocal_of (threads s t)) \<noteq> NULL, ret (wlocal_of (threads s t)), dirty s K, bumps s t,
      load_bytes (mem (shr s)) K 1)"

lemma snapD:
  assumes "snap t s = (True, a, q, v, i, r, d, b, m)"
  shows "\<exists>l. threads s t = Waiting a l \<and> pc l = q \<and> expected l = v \<and> (item l \<noteq> NULL) = i \<and> ret l = r
    \<and> dirty s K = d \<and> bumps s t = b \<and> load_bytes (mem (shr s)) K 1 = m"
  using assms by (cases "threads s t") (auto simp: snap_def)

lemma observed:
  assumes "calm all_succeed" and "map_option f (run ops N xs (start_sys v)) = Some y"
  shows "reachable ops calm N (the (run ops N xs (start_sys v)))"
    "f (the (run ops N xs (start_sys v))) = y"
  using run_from_init [OF start_sys_init [of calm v]] assms by auto

text \<open>Thread 0 blocked on the byte, on the generation counter and on the pthreads proxy.\<close>

definition parked_sys :: "u32 sys" where
  "parked_sys = the (run futex_ops 2 to_parked (start_sys 1))"

lemma parked_run:
  "map_option (snap 0) (run futex_ops 2 to_parked (start_sys 1)) =
     Some (True, byte_wait 1, W_Parked, [1], True, 1, False, 0, [1])"
  by code_simp

lemmas parked = observed [where calm = "\<lambda>_. True", OF TrueI parked_run, folded parked_sys_def]

text \<open>The same with a time limit of one nanosecond.\<close>

definition timed_wait_args :: wait_args where
  "timed_wait_args = (byte_wait 1)\<lparr>duration := Some \<lparr>tv_sec = 0, tv_nsec = 1\<rparr>\<rparr>"

definition to_timed :: "action list" where
  "to_timed = Call_Wait 0 timed_wait_args 0 # replicate 9 (Step_Wait 0 the_env)"

definition timed_sys :: "u32 sys" where
  "timed_sys = the (run futex_ops 2 to_timed (start_sys 1))"

lemma timed_run:
  "map_option (\<lambda>s. (snap 0 s, end_time (wlocal_of (threads s 0)), threads s 1)) (run futex_ops 2 to_timed (start_sys 1)) =
     Some ((True, timed_wait_args, W_Parked, [1], True, 1, False, 0, [1]), \<lparr>tv_sec = 0, tv_nsec = 1\<rparr>, Idle)"
  by code_simp

lemmas timed = observed [where calm = "\<lambda>_. True", OF TrueI timed_run, folded timed_sys_def]

text \<open>A second has passed.\<close>

definition late :: "int \<Rightarrow> env" where
  "late e = \<lparr>env_clock_ret = 0, env_now = \<lparr>tv_sec = 1, tv_nsec = 0\<rparr>, env_os = e\<rparr>"

text \<open>With two threads, neither of them in the critical section.\<close>

lemma none_critical:
  assumes "reachable futex_ops (\<lambda>_. True) 2 s" and "\<not> critical (threads s 0)" and "\<not> critical (threads s 1)"
  shows "\<forall>u. \<not> critical (threads s u)"
proof
  fix u
  have "u = 0 \<or> u = 1 \<or> threads s u = Idle"
    using sys_inv_parts(6) [OF futex_sys.reachable_inv [OF assms(1)], of u]
    by (simp add: INT_MAX_def) linarith
  then show "\<not> critical (threads s u)"
    using assms(2,3) by auto
qed

definition pparked_sys :: "pthreads_proxy sys" where
  "pparked_sys = the (run pthread_ops 2 to_parked (start_sys 1))"

lemma pparked_run:
  "map_option (snap 0) (run pthread_ops 2 to_parked (start_sys 1)) =
     Some (True, byte_wait 1, W_Parked, [1], True, 1, False, 0, [1])"
  by code_simp

lemma os_calm_succeed: "os_calm all_succeed" "os_succeeds all_succeed"
  by (simp_all add: os_calm_def os_succeeds_def)

lemmas pparked = observed [where calm = os_calm, OF os_calm_succeed(1) pparked_run, folded pparked_sys_def]

text \<open>
  Thread 1 stores and wakes all while thread 0 is between its last comparison and its blocking
  call, then waits for the new value to change; then thread 0 makes its blocking call.
\<close>

definition steal :: "action list" where
  "steal = to_park @ store_and_wake [] @ [Call_Wait 1 (byte_wait 0) 0]
           @ replicate 13 (Step_Wait 1 the_env) @ [Step_Wait 0 the_env]"

definition stolen_sys :: "pthreads_proxy sys" where
  "stolen_sys = the (run pthread_ops 2 steal (start_sys 1))"

lemma stolen_run:
  "map_option (\<lambda>s. (snap 0 s, snap 1 s)) (run pthread_ops 2 steal (start_sys 1)) =
     Some ((True, byte_wait 1, W_Parked, [1], True, 1, False, 1, [0]),
           (True, byte_wait 0, W_Parked, [0], True, 1, False, 0, [0]))"
  by code_simp

lemmas stolen = observed [where calm = os_succeeds, OF os_calm_succeed(2) stolen_run, folded stolen_sys_def]

text \<open>Thread 0 has been woken and is about to look at the byte, which has changed.\<close>

definition woken_sys :: "u32 sys" where
  "woken_sys = the (run futex_ops 2 (to_parked @ store_and_wake [0] @ replicate 2 (Step_Wait 0 the_env))
                     (start_sys 1))"

lemma woken_run:
  "map_option (\<lambda>s. (snap 0 s, threads s 1))
     (run futex_ops 2 (to_parked @ store_and_wake [0] @ replicate 2 (Step_Wait 0 the_env)) (start_sys 1)) =
     Some ((True, byte_wait 1, W_Load, [1], True, 1, False, 0, [0]), Idle)"
  by code_simp

lemmas woken = observed [where calm = "\<lambda>_. True", OF TrueI woken_run, folded woken_sys_def]

text \<open>The whole wait, up to its return; and a wake-all about to happen with thread 0 blocked.\<close>

definition done_sys :: "u32 sys" where
  "done_sys = the (run futex_ops 2 (to_parked @ store_and_wake [0] @ replicate 8 (Step_Wait 0 the_env))
                    (start_sys 1))"

lemma done_run:
  "map_option (snap 0)
     (run futex_ops 2 (to_parked @ store_and_wake [0] @ replicate 8 (Step_Wait 0 the_env)) (start_sys 1)) =
     Some (True, byte_wait 1, W_Done, [0], True, 1, False, 0, [0])"
  by code_simp

lemmas finished = observed [where calm = "\<lambda>_. True", OF TrueI done_run, folded done_sys_def]

definition ready_to_wake :: "nat \<Rightarrow> 'p sys \<Rightarrow> bool" where
  "ready_to_wake t s = (case threads s t of Notifying l \<Rightarrow> npc l = N_Wake \<and> nmax l = WAKE_ALL | _ \<Rightarrow> False)"

definition waking_sys :: "u32 sys" where
  "waking_sys = the (run futex_ops 2 (to_parked @ take 4 (store_and_wake [0])) (start_sys 1))"

lemma waking_run:
  "map_option (ready_to_wake 1) (run futex_ops 2 (to_parked @ take 4 (store_and_wake [0])) (start_sys 1)) =
     Some True"
  by code_simp

lemmas waking = observed [where calm = "\<lambda>_. True", OF TrueI waking_run, folded waking_sys_def]

lemma waking_ready: "\<exists>l. threads waking_sys 1 = Notifying l \<and> npc l = N_Wake \<and> nmax l = WAKE_ALL"
  using waking(2) by (cases "threads waking_sys 1") (simp_all add: ready_to_wake_def)

text \<open>The byte has changed and thread 1 has just called the notification of all waiters; thread 0 is blocked.\<close>

definition calling_sys :: "u32 sys" where
  "calling_sys = the (run futex_ops 2 (to_parked @ take 2 (store_and_wake [0])) (start_sys 1))"

lemma calling_run:
  "map_option (\<lambda>s. (snap 0 s, threads s 1)) (run futex_ops 2 (to_parked @ take 2 (store_and_wake [0])) (start_sys 1)) =
     Some ((True, byte_wait 1, W_Parked, [1], True, 1, True, 0, [0]), Notifying (notify_enter K WAKE_ALL 0))"
  by code_simp

lemmas calling = observed [where calm = "\<lambda>_. True", OF TrueI calling_run, folded calling_sys_def]

text \<open>The same notification on the pthreads proxy, at its end.\<close>

definition notify_result :: "thread \<Rightarrow> (notify_pc \<times> bool \<times> int) option" where
  "notify_result th = (case th of Notifying l \<Rightarrow> Some (npc l, nitem l = NULL, nret l) | _ \<Rightarrow> None)"

definition pnotified_sys :: "pthreads_proxy sys" where
  "pnotified_sys = the (run pthread_ops 2 (to_parked @ take 6 (store_and_wake [0])) (start_sys 1))"

lemma pnotified_run:
  "map_option (\<lambda>s. notify_result (threads s 1)) (run pthread_ops 2 (to_parked @ take 6 (store_and_wake [0])) (start_sys 1)) =
     Some (Some (N_Done, False, 1))"
  by code_simp

lemmas pnotified = observed [where calm = os_calm, OF os_calm_succeed(1) pnotified_run, folded pnotified_sys_def]

text \<open>The whole wait on the pthreads proxy, up to and including its return.\<close>

definition pdone_sys :: "pthreads_proxy sys" where
  "pdone_sys = the (run pthread_ops 2
     (to_parked @ store_and_wake [0] @ replicate 8 (Step_Wait 0 the_env) @ [Return_Wait 0]) (start_sys 1))"

lemma pdone_run:
  "map_option (\<lambda>s. map (threads s) [0, 1]) (run pthread_ops 2
     (to_parked @ store_and_wake [0] @ replicate 8 (Step_Wait 0 the_env) @ [Return_Wait 0]) (start_sys 1)) =
     Some [Idle, Idle]"
  by code_simp

lemmas pdone = observed [where calm = os_calm, OF os_calm_succeed(1) pdone_run, folded pdone_sys_def]

lemma pdone_idle: "threads pdone_sys t = Idle"
proof -
  have "threads pdone_sys u = Idle" if "2 \<le> u" for u
    using sys_inv_parts(6) [OF pthread_sys.reachable_inv [OF pdone(1)]] that
    by (simp add: INT_MAX_def)
  moreover have "t = 0 \<or> t = 1 \<or> 2 \<le> t"
    by linarith
  ultimately show ?thesis
    using pdone(2) by auto
qed

text \<open>A wait on the pthreads proxy whose mutex cannot be initialised: it fails with the error.\<close>

definition refusing_sys :: "pthreads_proxy sys" where
  "refusing_sys = (start_sys 1)\<lparr>shr := (shr (start_sys 1))
     \<lparr>wld := (wld (shr (start_sys 1)))\<lparr>os_script := \<lparr>init_answers = [12], destroy_answers = []\<rparr>\<rparr>\<rparr>\<rparr>"

definition to_refused :: "action list" where
  "to_refused = Call_Wait 0 (byte_wait 1) 0 # replicate 5 (Step_Wait 0 the_env)"

definition refused_sys :: "pthreads_proxy sys" where
  "refused_sys = the (run pthread_ops 2 to_refused refusing_sys)"

lemma refused_run:
  "map_option (\<lambda>s. (snap 0 s, terrno (wlocal_of (threads s 0)), threads s 1)) (run pthread_ops 2 to_refused refusing_sys) =
     Some ((True, byte_wait 1, W_Done, [1], False, - 1, False, 0, [1]), 12, Idle)"
  by code_simp

lemma refused:
  "reachable pthread_ops os_calm 2 refused_sys"
  "snap 0 refused_sys = (True, byte_wait 1, W_Done, [1], False, - 1, False, 0, [1])"
  "terrno (wlocal_of (threads refused_sys 0)) = 12" "threads refused_sys 1 = Idle"
proof -
  have "sys_init os_calm refusing_sys"
    by (simp add: refusing_sys_def start_sys_def sys_init_def os_calm_def)
  then show "reachable pthread_ops os_calm 2 refused_sys"
    unfolding refused_sys_def using refused_run by (intro run_from_init) auto
qed (use refused_run in \<open>auto simp: refused_sys_def\<close>)

lemma refused_unregistered: "\<not> registered k (threads refused_sys t)"
proof -
  have "threads refused_sys u = Idle" if "2 \<le> u" for u
    using sys_inv_parts(6) [OF pthread_sys.reachable_inv [OF refused(1)]] that
    by (simp add: INT_MAX_def)
  moreover have "t = 0 \<or> t = 1 \<or> 2 \<le> t"
    by linarith
  moreover have "\<not> registered k (threads refused_sys 0)"
    using snapD [OF refused(2)] by auto
  ultimately show ?thesis
    using refused(4) by auto
qed

section \<open>Tables\<close>

lemma valid_K: "valid_key K"
  by (simp add: valid_key_def K_def HASH_BUCKET_DELETED_def)

lemma start_good: "good_world (\<lambda>_. True) (wld (shr (start_sys v)))"
  by (simp add: start_sys_def good_world_def refs_inv_def world_inv_def table_inv_def heap_inv_def lookup_def
      shared_global_hash_table_def)

lemma start_world_inv: "world_inv (wld (shr (start_sys v)))"
  using start_good by (auto simp: good_world_def refs_inv_def)

definition acquired :: "(ptr \<times> 'p world) res \<Rightarrow> bool" where
  "acquired r = (case r of Inl f \<Rightarrow> False | Inr (p, w) \<Rightarrow> p \<noteq> NULL)"

lemma start_acquires:
  "\<exists>p w. hash_table_find_or_create futex_ops K True (wld (shr (start_sys 1))) = Inr (p, w) \<and> p \<noteq> NULL"
proof -
  have "acquired (hash_table_find_or_create futex_ops K True (wld (shr (start_sys 1))))"
    by code_simp
  then show ?thesis
    by (auto simp: acquired_def split: sum.splits)
qed

lemma parked_good: "good_world (\<lambda>_. True) (wld (shr parked_sys))"
  using sys_inv_parts(1) [OF futex_sys.reachable_inv [OF parked(1)]] by (simp add: INT_MAX_def)

lemma parked_view: "\<exists>p n c. view (wld (shr parked_sys)) K = Some (p, Suc n, c) \<and> int n < INT_MAX"
proof -
  have inv: "sys_inv (\<lambda>_. True) 2 parked_sys"
    using futex_sys.reachable_inv [OF parked(1)] by (simp add: INT_MAX_def)
  obtain l where "threads parked_sys 0 = Waiting (byte_wait 1) l" "pc l = W_Parked" "item l \<noteq> NULL"
    using snapD [OF parked(2)] by auto
  then have "registered K (threads parked_sys 0)"
    by (simp add: byte_wait_def)
  then obtain p n c where v: "view (wld (shr parked_sys)) K = Some (p, n, c)"
    using registered_in_view [OF inv] by blast
  moreover have "0 < n" "int n < INT_MAX"
    using futex.view_proper [OF parked_good v] sys_inv_small [OF inv] v
    by (auto simp: counts_small_def INT_MAX_def)
  ultimately show ?thesis
    by (cases n) auto
qed

text \<open>The largest table, full of tombstones.\<close>

definition tomb_world :: "u32 world" where
  "tomb_world =
     \<lparr>table = \<lparr>buckets = Some (replicate (2 ^ 20) \<lparr>proxy = NULL, key = HASH_BUCKET_DELETED\<rparr>),
               bucket_count = 2 ^ 20, count = 0, lock = True\<rparr>,
      heap = Map.empty, alloc_script = [(65536, 0)], free_script = [], os_script = all_succeed, errno = 0\<rparr>"

lemma tomb_world_ok: "world_inv tomb_world \<and> lookup tomb_world = Map.empty"
  using all_tombstones [of 20]
  by (simp add: tomb_world_def world_inv_def table_inv_def heap_inv_def lookup_def)

end
