(* ===== verification/Pthread_Counts.thy ===== *)
theory Pthread_Counts
  imports Wait_Safety
begin

text \<open>
  The two counters of the pthreads proxy of \<^verbatim>\<open>atomic_wait_pthreads.c.ipp\<close>, in every reachable state of
  the threaded system: \<open>waiting\<close> is the number of threads inside the blocking call on that proxy
  (blocked, or woken and not yet running), and the pile of tokens \<open>pending\<close> is between zero and the
  number of threads. Both therefore stay inside the range of \<open>int\<close>.
\<close>

section \<open>The invariant\<close>

fun sleeping :: "ptr \<Rightarrow> thread \<Rightarrow> bool" where
  "sleeping k (Waiting a l) \<longleftrightarrow> object a = k \<and> (pc l = W_Parked \<or> pc l = W_Woken)"
| "sleeping k _ \<longleftrightarrow> False"

definition sleepers :: "(nat \<Rightarrow> thread) \<Rightarrow> ptr \<Rightarrow> nat set" where
  "sleepers ths k = {t. sleeping k (ths t)}"

definition nsleep :: "(nat \<Rightarrow> thread) \<Rightarrow> ptr \<Rightarrow> int" where
  "nsleep ths k = int (card (sleepers ths k))"

definition tokens_ok :: "nat \<Rightarrow> pthreads_proxy \<Rightarrow> bool" where
  "tokens_ok N c \<longleftrightarrow> 0 \<le> pending c \<and> pending c \<le> int N"

definition counts_inv :: "nat \<Rightarrow> pthreads_proxy sys \<Rightarrow> bool" where
  "counts_inv N s \<longleftrightarrow>
     (\<forall>k p n c. view (wld (shr s)) k = Some (p, n, c) \<longrightarrow> tokens_ok N c \<and> waiting c = nsleep (threads s) k)"

lemma counts_invD:
  "counts_inv N s \<Longrightarrow> view (wld (shr s)) k = Some (p, n, c) \<Longrightarrow> tokens_ok N c \<and> waiting c = nsleep (threads s) k"
  by (simp add: counts_inv_def)

lemma sleepers_registered:
  assumes "sys_inv calm N s" and "sleeping k (threads s t)"
  shows "registered k (threads s t)"
proof -
  obtain a l where t: "threads s t = Waiting a l" "object a = k" "pc l = W_Parked \<or> pc l = W_Woken"
    using assms(2) by (cases "threads s t") auto
  moreover have "item l \<noteq> NULL"
    using local_ok_item [of l] sys_inv_parts(5) [OF assms(1), of t] t by auto
  ultimately show ?thesis
    by auto
qed

lemma finite_sleepers:
  assumes "sys_inv calm N s"
  shows "finite (sleepers (threads s) k)"
proof (rule finite_subset)
  show "sleepers (threads s) k \<subseteq> users_of (threads s) k"
    using sleepers_registered [OF assms] by (auto simp: sleepers_def users_of_def)
  show "finite (users_of (threads s) k)"
    using sys_inv_finite [OF assms] .
qed

lemma no_entry_no_sleepers:
  assumes "sys_inv calm N s" and "view (wld (shr s)) k = None"
  shows "nsleep (threads s) k = 0"
proof -
  have "\<not> sleeping k (threads s t)" for t
    using sleepers_registered [OF assms(1)] registered_in_view [OF assms(1), of k t] assms(2) by auto
  then show ?thesis
    by (simp add: nsleep_def sleepers_def)
qed

lemma nsleep_upd:
  assumes "finite (sleepers ths k)"
  shows "nsleep (ths(t := th)) k = nsleep ths k + of_bool (sleeping k th) - of_bool (sleeping k (ths t))"
proof -
  let ?S = "sleepers ths k"
  have "sleepers (ths(t := th)) k = (if sleeping k th then insert t ?S else ?S - {t})"
    by (auto simp: sleepers_def)
  moreover have "t \<in> ?S \<longleftrightarrow> sleeping k (ths t)"
    by (simp add: sleepers_def)
  ultimately show ?thesis
    using assms card_Suc_Diff1 [OF assms, of t]
    by (auto simp: nsleep_def card_insert_if insert_absorb)
qed

lemma nsleep_cong: "(\<And>t. sleeping k (ths' t) = sleeping k (ths t)) \<Longrightarrow> nsleep ths' k = nsleep ths k"
  by (simp add: nsleep_def sleepers_def)

section \<open>The blocking call\<close>

lemma park_counts:
  assumes "pthread_proxy_park r cnt c = (res, c')" and "tokens_ok N c"
  shows "tokens_ok N c' \<and> waiting c' = waiting c + of_bool (res = None)"
  using assms by (auto simp: pthread_proxy_park_def tokens_ok_def split: if_splits)

lemma resume_counts:
  assumes "pthread_proxy_resume r c = (res, c')" and "tokens_ok N c"
  shows "tokens_ok N c' \<and> waiting c' = waiting c + of_bool (res = None) - 1"
  using assms by (auto simp: pthread_proxy_resume_def tokens_ok_def split: if_splits)

lemma blocked_sleeping:
  assumes "blocked p r sh l = (sh', l')"
  shows "sleeping k (Waiting a l') \<longleftrightarrow> object a = k \<and> fst r = None"
  using assms by (auto simp: blocked_def after_wait_def split: option.splits if_splits)

text \<open>The blocking steps change the payload of the thread's own proxy only.\<close>

lemma blocking_step:
  assumes inv: "sys_inv os_calm N s" and N: "int N < INT_MAX" and ci: "counts_inv N s"
    and t: "threads s t = Waiting a l"
    and pc: "pc l \<in> {W_Park, W_Parked, W_Woken}"
    and st: "wait_step pthread_ops a e (shr s) l = Inr (sh, l')"
  shows "\<exists>n c c'. view (wld (shr s)) (object a) = Some (item l, n, c)
    \<and> view (wld sh) = (view (wld (shr s)))(object a \<mapsto> (item l, n, c')) \<and> tokens_ok N c'
    \<and> waiting c' = waiting c + of_bool (sleeping (object a) (Waiting a l'))
                 - of_bool (sleeping (object a) (Waiting a l))"
proof -
  obtain n c where v: "view (wld (shr s)) (object a) = Some (item l, n, c)"
    using pthread_sys.registered_view [OF pthread_sys.wait_pre [OF inv N t]] pc by blast
  then have pl: "payload (item l) (shr s) = Inr c"
    by (rule payload_of_view)
  have ok: "tokens_ok N c"
    using counts_invD [OF ci v] by simp
  obtain r where b: "blocked (item l) r (shr s) l = (sh, l')" "tokens_ok N (snd r)"
      "waiting (snd r) = waiting c + of_bool (fst r = None) - of_bool (pc l \<noteq> W_Park)"
  proof (cases "pc l = W_Park")
    case True
    let ?r = "pthread_proxy_park (env_os e) (item_counter l) c"
    show ?thesis
      by (rule that [of ?r])
        (use st True pl park_counts [of _ _ c "fst ?r" "snd ?r", OF _ ok] in
          \<open>simp_all add: wait_step_def w_park_def\<close>)
  next
    case False
    then obtain r where r: "blocked (item l) (pthread_proxy_resume r c) (shr s) l = (sh, l')"
      using st pc pl by (auto simp: wait_step_def w_resume_def)
    let ?r = "pthread_proxy_resume r c"
    show ?thesis
      by (rule that [of ?r])
        (use r False resume_counts [of _ c "fst ?r" "snd ?r", OF _ ok] in simp_all)
  qed
  have "sh = (shr s)\<lparr>wld := poke (item l) (snd r) (wld (shr s))\<rparr>"
    using b(1) by (simp add: blocked_def)
  then have "view (wld sh) = (view (wld (shr s)))(object a \<mapsto> (item l, n, snd r))"
    using pthread.poke_good [OF sys_inv_parts(1) [OF inv] v, of "snd r"] by simp
  moreover have "sleeping (object a) (Waiting a l) \<longleftrightarrow> pc l \<noteq> W_Park"
    using pc by auto
  ultimately show ?thesis
    using v b blocked_sleeping [OF b(1), of "object a" a] by auto
qed

section \<open>The other steps of a waiter\<close>

lemma not_sleeping_step:
  assumes "pc l \<notin> {W_Park, W_Parked, W_Woken}" and "wait_step ops a e sh l = Inr (sh', l')"
  shows "\<not> sleeping k (Waiting a l) \<and> \<not> sleeping k (Waiting a l')"
  using assms
  by (cases "pc l")
    (auto simp: wait_step_def local_step_def w_start_def w_load_def w_recheck_def w_reload_def w_clock_def
      w_acquire_lock_def lock_step_def hash_table_lock_def w_find_def w_counter_def w_tail_def w_release_def
      res_bind_Inr_iff Let_def split: option.splits if_splits)

text \<open>A new entry carries a fresh payload.\<close>

lemma init_payload:
  assumes "pthread_proxy_init s \<lparr>pending = 0, waiting = 0\<rparr> = (r, c, s')"
  shows "pending c = 0 \<and> waiting c = 0"
proof -
  obtain r1 s1 r2 s2 r3 s3 where "init_next s = (r1, s1)" "init_next s1 = (r2, s2)" "init_next s2 = (r3, s3)"
    by (metis surj_pair)
  then show ?thesis
    using assms by (auto simp: pthread_proxy_init_def split: if_splits)
qed

lemma find_fresh:
  assumes inv: "sys_inv os_calm N s" and N: "int N < INT_MAX" and t: "threads s t = Waiting a l"
    and pc: "pc l = W_Find" and st: "wait_step pthread_ops a e (shr s) l = Inr (sh, l')"
    and v: "view (wld (shr s)) k = None" "view (wld sh) k = Some (p, n, c)"
  shows "pending c = 0 \<and> waiting c = 0"
proof -
  let ?w = "(wld (shr s))\<lparr>errno := terrno l\<rparr>"
  have key: "valid_key (object a)"
    using sys_inv_parts(5) [OF inv, of t] t by (simp add: valid_call_def)
  have small: "\<forall>k p n c. view ?w k = Some (p, n, c) \<longrightarrow> int n < INT_MAX"
    using sys_inv_small [OF inv N] by (simp add: counts_small_def)
  obtain q w where f: "hash_table_find_or_create pthread_ops (object a) True ?w = Inr (q, w)"
    and c: "q = NULL \<and> view w = view ?w \<or>
      q \<noteq> NULL \<and> (\<exists>n b. view ?w (object a) = Some (q, n, b) \<and> view w = (view ?w)(object a \<mapsto> (q, Suc n, b))) \<or>
      q \<noteq> NULL \<and> view ?w (object a) = None \<and>
        (\<exists>b. init_value pthread_ops b \<and> view w = (view ?w)(object a \<mapsto> (q, 1, b)))"
    using pthread.acquire_law [OF _ key small] sys_inv_parts(1) [OF inv] by auto
  have "sh = (shr s)\<lparr>wld := w\<rparr>"
    using st pc f by (auto simp: wait_step_def w_find_def)
  then have "init_value pthread_ops c"
    using c v by (auto split: if_splits)
  then show ?thesis
    by (auto simp: init_value_def dest: init_payload)
qed

lemma item_kept:
  assumes "pc l \<noteq> W_Find" and "wait_step ops a e sh l = Inr (sh', l')"
  shows "item l' = item l \<or> item l' = NULL"
  using assms
  by (cases "pc l")
    (auto simp: wait_step_def local_step_def w_start_def w_load_def w_recheck_def w_reload_def w_clock_def
      w_acquire_lock_def w_counter_def w_tail_def w_release_def w_park_def w_resume_def blocked_def
      after_wait_def res_bind_Inr_iff Let_def split: option.splits prod.splits if_splits)

lemma done_kept:
  assumes "wait_step ops a e sh l = Inr (sh', l')" and "pc l = W_Tail_Unlock \<or> pc l = W_Done"
  shows "pc l' = W_Done"
  using assms by (auto simp: wait_step_def)

lemma quiet_step:
  assumes inv: "sys_inv os_calm N s" and N: "int N < INT_MAX"
    and t: "threads s t = Waiting a l" and e: "valid_env e"
    and pc: "pc l \<notin> {W_Park, W_Parked, W_Woken}"
    and st: "wait_step pthread_ops a e (shr s) l = Inr (sh, l')"
    and v: "view (wld sh) k = Some (p, n, c)"
  shows "(\<exists>p n. view (wld (shr s)) k = Some (p, n, c))
    \<or> view (wld (shr s)) k = None \<and> pending c = 0 \<and> waiting c = 0"
proof -
  have eff: "step_eff os_calm (object a) (shr s) (Waiting a l) sh (Waiting a l')"
    using pthread_sys.wait_step_eff [OF pthread_sys.wait_pre [OF inv N t] e] st by simp
  consider (same) "view (wld sh) = view (wld (shr s))"
    | (leaves) "view_leaves (view (wld (shr s))) (object a) (view (wld sh))"
    | (joins) "view_joins (view (wld (shr s))) (object a) (item l') (view (wld sh))"
        "\<not> registered (object a) (Waiting a l)" "registered (object a) (Waiting a l')"
    using eff pc unfolding step_eff_def by auto
  then show ?thesis
  proof cases
    case joins
    have "pc l = W_Find"
    proof (rule ccontr)
      assume "pc l \<noteq> W_Find"
      then show False
        using item_kept [OF _ st] done_kept [OF st] joins(2,3) by auto
    qed
    then show ?thesis
      using joins(1) v find_fresh [OF inv N t _ st, of k p n c]
      by (auto simp: view_joins_def split: if_splits)
  qed (use v in \<open>auto simp: view_leaves_def split: if_splits\<close>)
qed

lemma counts_inv_wait:
  assumes inv: "sys_inv os_calm N s" and N: "int N < INT_MAX" and ci: "counts_inv N s"
    and t: "threads s t = Waiting a l" and e: "valid_env e"
    and st: "wait_step pthread_ops a e (shr s) l = Inr (sh, l')"
  shows "counts_inv N (after_wait_step t a l sh l' s)"
  unfolding counts_inv_def
proof (intro allI impI)
  fix k p n c assume "view (wld (shr (after_wait_step t a l sh l' s))) k = Some (p, n, c)"
  then have v: "view (wld sh) k = Some (p, n, c)"
    by (simp add: after_wait_step_def)
  have ns: "nsleep (threads (after_wait_step t a l sh l' s)) k = nsleep (threads s) k
      + of_bool (sleeping k (Waiting a l')) - of_bool (sleeping k (Waiting a l))"
    using nsleep_upd [OF finite_sleepers [OF inv], of t "Waiting a l'"] t by (simp add: after_wait_step_def)
  show "tokens_ok N c \<and> waiting c = nsleep (threads (after_wait_step t a l sh l' s)) k"
  proof (cases "pc l \<in> {W_Park, W_Parked, W_Woken}")
    case True
    then show ?thesis
      using blocking_step [OF inv N ci t True st] v counts_invD [OF ci] ns
      by (cases "k = object a") auto
  next
    case False
    then show ?thesis
      using quiet_step [OF inv N t e False st v] counts_invD [OF ci] no_entry_no_sleepers [OF inv, of k]
        not_sleeping_step [OF False st, of k] ns
      by (auto simp: tokens_ok_def)
  qed
qed

section \<open>Notifiers\<close>

lemma pthread_wake_counts:
  assumes "pthread_proxy_wake os m n parked c = (r, j, c')" and "tokens_ok N c" and "0 < n" and "n \<le> int N"
  shows "tokens_ok N c' \<and> waiting c' = waiting c"
  using assms pthread_tokens_bound [of c m n]
  by (auto simp: pthread_proxy_wake_def tokens_ok_def pthread_cap_def Let_def split: prod.splits if_splits)

lemma users_at_most:
  assumes inv: "sys_inv calm N s" and v: "view (wld (shr s)) k = Some (p, n, c)"
  shows "n \<le> N"
proof -
  have "ref_entry (view (wld (shr s)) k) (users_of (threads s) k) (threads s)"
    using sys_inv_parts(3) [OF inv] by (simp add: refs_agree_def)
  then have "n = card (users_of (threads s) k)"
    by (simp add: v)
  moreover have "users_of (threads s) k \<subseteq> {..<N}"
    by (rule users_of_bound) (use sys_inv_parts(6) [OF inv] in blast)
  ultimately show ?thesis
    using card_mono [of "{..<N}" "users_of (threads s) k"] by simp
qed

lemma wake_step_view:
  assumes inv: "sys_inv os_calm N s" and ci: "counts_inv N s"
    and t: "threads s t = Notifying l" "npc l = N_Wake"
    and st: "n_wake pthread_ops os parked (shr s) l = Inr (sh, l', n)"
  shows "\<exists>m c c'. view (wld (shr s)) (nobject l) = Some (nitem l, m, c)
    \<and> view (wld sh) = (view (wld (shr s)))(nobject l \<mapsto> (nitem l, m, c')) \<and> tokens_ok N c'
    \<and> waiting c' = waiting c"
proof -
  obtain m c where v: "view (wld (shr s)) (nobject l) = Some (nitem l, m, c)"
    using sys_inv_parts(4) [OF inv] t unfolding wakers_agree_def by blast
  then obtain px where px: "heap (wld (shr s)) (nitem l) = Some px" "nat (use_count px) = m" "atomic px = c"
    by (auto simp: view_Some)
  have m: "0 < use_count px" "use_count px \<le> int N"
    using pthread.view_proper [OF sys_inv_parts(1) [OF inv] v] users_at_most [OF inv v] px(2) by linarith+
  obtain r j c' where w: "pthread_proxy_wake os (nmax l) (use_count px) parked c = (r, j, c')"
    by (metis prod_cases3)
  then have "sh = (shr s)\<lparr>wld := poke (nitem l) c' (wld (shr s))\<rparr>"
    using st px by (auto simp: n_wake_def)
  then have "view (wld sh) = (view (wld (shr s)))(nobject l \<mapsto> (nitem l, m, c'))"
    using pthread.poke_good [OF sys_inv_parts(1) [OF inv] v, of c'] by simp
  then show ?thesis
    using v pthread_wake_counts [OF w _ m] counts_invD [OF ci v] by blast
qed

lemma sleeping_woken: "sleeping k (wake_thread th) \<longleftrightarrow> sleeping k th" if "parked_on p th"
  using that by (cases th) auto

lemma counts_inv_wake:
  assumes inv: "sys_inv os_calm N s" and ci: "counts_inv N s"
    and t: "threads s t = Notifying l" "npc l = N_Wake"
    and st: "n_wake pthread_ops os parked (shr s) l = Inr (sh, l', n)"
    and S: "S \<subseteq> {u. parked_on (nitem l) (threads s u)}"
  shows "counts_inv N (after_wake t l sh l' S s)"
proof -
  have "sleeping k (threads (after_wake t l sh l' S s) u) = sleeping k (threads s u)" for k u
    using t S sleeping_woken [of "nitem l" "threads s u" k] by (auto simp: after_wake_def)
  then have "nsleep (threads (after_wake t l sh l' S s)) k = nsleep (threads s) k" for k
    by (rule nsleep_cong)
  then show ?thesis
    using wake_step_view [OF inv ci t st] counts_invD [OF ci]
    by (fastforce simp: counts_inv_def after_wake_def split: if_splits)
qed

lemma counts_inv_same:
  assumes ci: "counts_inv N s" and "view (wld (shr s')) = view (wld (shr s))"
    and "\<And>k u. sleeping k (threads s' u) = sleeping k (threads s u)"
  shows "counts_inv N s'"
proof -
  have "nsleep (threads s') k = nsleep (threads s) k" for k
    by (rule nsleep_cong) (rule assms(3))
  then show ?thesis
    using ci assms(2) by (simp add: counts_inv_def)
qed

section \<open>Every reachable state\<close>

theorem counts_inv_preserved:
  assumes step: "sys_step pthread_ops N s s'" and inv: "sys_inv os_calm N s" and N: "int N < INT_MAX"
    and ci: "counts_inv N s"
  shows "counts_inv N s'"
  using step
proof cases
  case (wait t a l e sh l')
  then show ?thesis
    using counts_inv_wait [OF inv N ci] by simp
next
  case (notify t l sh l')
  then show ?thesis
    using pthread_sys.notify_quiet [OF inv] by (intro counts_inv_same [OF ci]) (auto simp: after_notify_step_def)
next
  case (wake t l P os sh l' n S)
  then show ?thesis
    using counts_inv_wake [OF inv ci] by simp
next
  case (wait_fault t a l e f)
  then show ?thesis
    using pthread_sys.wait_step_eff [OF pthread_sys.wait_pre [OF inv N wait_fault(2)] wait_fault(3)] by auto
qed (auto intro!: counts_inv_same [OF ci] simp: wait_enter_def after_store_def split: if_splits)

theorem reachable_counts:
  assumes "reachable pthread_ops os_calm N s" and N: "int N < INT_MAX"
  shows "counts_inv N s"
  using assms(1)
proof induction
  case (init s)
  then have "view (wld (shr s)) = Map.empty"
    by (auto simp: sys_init_def view_def lookup_def shared_global_hash_table_def fun_eq_iff)
  then show ?case
    by (simp add: counts_inv_def)
next
  case (step s s')
  then show ?case
    using counts_inv_preserved pthread_sys.reachable_inv N by blast
qed

end
