(* ===== verification/Pthread_Wakes.thy ===== *)
theory Pthread_Wakes
  imports Schedules Pthread_Counts
begin

text \<open>
  When the pthreads proxy loses no wake. A wake leaves a token per registered waiter, and any waiter may
  take it: with several waiters on one object a token can be taken by the wrong one (\<open>stolen\<close> in
  \<open>Schedules\<close>). Here it is shown that this is the only way: as long as no two threads are registered on the
  same object, a blocked thread has been told of every store. The argument: from its last comparison to
  its blocking call either the object still has the expected value (or is \<open>dirty\<close>), or a token is there.
\<close>

section \<open>One waiter per object\<close>

definition single :: "'p sys \<Rightarrow> bool" where
  "single s \<longleftrightarrow> (\<forall>k t u. registered k (threads s t) \<and> registered k (threads s u) \<longrightarrow> t = u)"

inductive lone :: "nat \<Rightarrow> pthreads_proxy sys \<Rightarrow> bool" for N :: nat where
  lone_init: "sys_init os_calm s \<Longrightarrow> lone N s"
| lone_step: "lone N s \<Longrightarrow> sys_step pthread_ops N s s' \<Longrightarrow> single s' \<Longrightarrow> lone N s'"

lemma lone_reachable: "lone N s \<Longrightarrow> reachable pthread_ops os_calm N s"
  by (induction rule: lone.induct) (auto intro: reachable.intros)

lemma lone_single: "lone N s \<Longrightarrow> single s"
  by (cases rule: lone.cases) (auto simp: sys_init_def single_def)

definition token :: "pthreads_proxy sys \<Rightarrow> ptr \<Rightarrow> bool" where
  "token s k \<longleftrightarrow> (\<exists>p n c. view (wld (shr s)) k = Some (p, n, c) \<and> 0 < pending c)"

definition lone_ok :: "pthreads_proxy sys \<Rightarrow> wait_args \<Rightarrow> wait_local \<Rightarrow> bool" where
  "lone_ok s a l \<longleftrightarrow>
     (agreed l \<or> pc l = W_Woken \<longrightarrow> observes s a l \<or> token s (object a)) \<and>
     (pc l = W_Parked \<longrightarrow> observes s a l)"

definition lone_inv :: "pthreads_proxy sys \<Rightarrow> bool" where
  "lone_inv s \<longleftrightarrow> (\<forall>t a l. threads s t = Waiting a l \<longrightarrow> lone_ok s a l)"

text \<open>The states of a thread the invariant speaks of, all registered.\<close>

definition concerned :: "wait_local \<Rightarrow> bool" where
  "concerned l \<longleftrightarrow> agreed l \<or> pc l = W_Woken \<or> pc l = W_Parked"

lemma lone_ok_trivial: "\<not> concerned l \<Longrightarrow> lone_ok s a l"
  by (auto simp: lone_ok_def concerned_def)

lemma concerned_registered:
  assumes "local_ok l" and "concerned l"
  shows "registered (object a) (Waiting a l)"
  using assms local_ok_item [OF assms(1)] by (auto simp: concerned_def agreed_def)

lemma lone_frame:
  assumes "lone_ok s a l" and "observes s a l \<Longrightarrow> observes s' a l" and "token s (object a) \<Longrightarrow> token s' (object a)"
  shows "lone_ok s' a l"
  using assms by (auto simp: lone_ok_def)

section \<open>The waiter's own steps\<close>

lemma elsewhere_unconcerned:
  assumes "wait_step ops a e sh l = Inr (sh', l')"
    and "pc l \<notin> {W_Recheck, W_Load, W_Unlock, W_Clock, W_Park, W_Parked, W_Woken}"
  shows "\<not> concerned l'"
  using assms not_sleeping_step [of l ops a e sh sh' l' "object a"]
  by (cases "pc l")
    (auto simp: wait_step_def local_step_def w_start_def w_reload_def w_acquire_lock_def lock_step_def
      hash_table_lock_def w_find_def w_counter_def w_tail_def w_release_def res_bind_Inr_iff concerned_def
      agreed_def Let_def split: option.splits if_splits)

text \<open>A thread blocks only when it finds no token.\<close>

lemma blocks_without_token:
  assumes inv: "sys_inv os_calm N s" and N: "int N < INT_MAX" and t: "threads s t = Waiting a l"
    and pc: "pc l \<in> {W_Park, W_Parked, W_Woken}" and st: "wait_step pthread_ops a e (shr s) l = Inr (sh, l')"
    and l': "concerned l'"
  shows "pc l' = W_Parked \<and> \<not> token s (object a) \<and> expected l' = expected l \<and> mem sh = mem (shr s)"
proof -
  obtain n c where v: "view (wld (shr s)) (object a) = Some (item l, n, c)"
    using pthread_sys.registered_view [OF pthread_sys.wait_pre [OF inv N t]] pc by blast
  then have pl: "payload (item l) (shr s) = Inr c"
    by (rule payload_of_view)
  obtain r where r: "blocked (item l) r (shr s) l = (sh, l')" "fst r = None \<longrightarrow> \<not> 0 < pending c"
    using st pc pl
    by (auto simp: wait_step_def w_park_def w_resume_def pthread_proxy_park_def pthread_proxy_resume_def
        split: if_splits)
  have "pc l' = W_Parked"
    using l' blocked_pc(2) [of "item l" r "shr s" l] r(1) by (auto simp: concerned_def agreed_def)
  then show ?thesis
    using r v blocked_pc(1,3) [of "item l" r "shr s" l] by (auto simp: token_def blocked_def)
qed

lemma lone_own:
  assumes inv: "sys_inv os_calm N s" and N: "int N < INT_MAX" and li: "lone_inv s"
    and t: "threads s t = Waiting a l" and st: "wait_step pthread_ops a e (shr s) l = Inr (sh, l')"
  shows "lone_ok (after_wait_step t a l sh l' s) a l'"
proof (cases "concerned l'")
  case False
  then show ?thesis
    by (rule lone_ok_trivial)
next
  case con: True
  let ?s = "after_wait_step t a l sh l' s"
  have ok: "lone_ok s a l" "wait_width (bytes a)"
    using li t sys_inv_parts(5) [OF inv, of t] by (simp_all add: lone_inv_def valid_call_def)
  consider (load) "pc l = W_Recheck \<or> pc l = W_Load" | (unlock) "pc l = W_Unlock \<or> pc l = W_Clock"
    | (block) "pc l \<in> {W_Park, W_Parked, W_Woken}"
    using elsewhere_unconcerned [OF st] con by blast
  then show ?thesis
  proof cases
    case load
    then have "pc l' \<noteq> W_Woken"
      using not_sleeping_step [OF _ st, of "object a"] by auto
    then have "sh = shr s" "load_bytes (mem sh) (object a) (bytes a) = expected l'" "pc l' \<noteq> W_Parked"
      using load_reached [OF load st ok(2)] con by (auto simp: concerned_def)
    then show ?thesis
      by (auto simp: lone_ok_def observes_def after_wait_step_def)
  next
    case unlock
    have agr: "agreed l"
      using unlock by (auto simp: agreed_def)
    note u = unlock_reached [OF unlock st]
    have "observes ?s a l' \<or> token ?s (object a)"
      using ok(1) agr u by (auto simp: lone_ok_def observes_def token_def after_wait_step_def)
    then show ?thesis
      using u by (auto simp: lone_ok_def)
  next
    case block
    note b = blocks_without_token [OF inv N t block st con]
    have "observes s a l"
      using ok(1) b block by (auto simp: lone_ok_def agreed_def)
    then show ?thesis
      using b by (auto simp: lone_ok_def observes_def after_wait_step_def agreed_def)
  qed
qed

section \<open>The steps of the others\<close>

text \<open>No other waiter touches the proxy of a registered thread.\<close>

lemma others_proxy:
  assumes inv: "sys_inv os_calm N s" and N: "int N < INT_MAX" and one: "single s"
    and t: "threads s t = Waiting a l" and e: "valid_env e"
    and st: "wait_step pthread_ops a e (shr s) l = Inr (sh, l')"
    and one': "single (after_wait_step t a l sh l' s)"
    and u: "u \<noteq> t" "registered k (threads s u)"
  shows "view (wld sh) k = view (wld (shr s)) k \<and> mem sh = mem (shr s)"
proof -
  have eff: "step_eff os_calm (object a) (shr s) (Waiting a l) sh (Waiting a l')"
    using pthread_sys.wait_step_eff [OF pthread_sys.wait_pre [OF inv N t] e] st by simp
  have before: "\<not> registered k (Waiting a l)"
    using one u t unfolding single_def by metis
  have after: "\<not> registered k (Waiting a l')"
  proof
    let ?s = "after_wait_step t a l sh l' s"
    assume "registered k (Waiting a l')"
    then have "registered k (threads ?s t)" "registered k (threads ?s u)"
      using u by (simp_all add: after_wait_step_def)
    then show False
      using one' u(1) unfolding single_def by blast
  qed
  have poke: "registered (object a) (Waiting a l)" if "may_poke (Waiting a l)"
    using that local_ok_item [of l] sys_inv_parts(5) [OF inv, of t] t by auto
  have "view (wld sh) = view (wld (shr s))
      \<or> may_poke (Waiting a l) \<and> view_keeps (view (wld (shr s))) (object a) (view (wld sh))
      \<or> view_joins (view (wld (shr s))) (object a) (item l') (view (wld sh)) \<and> registered (object a) (Waiting a l')
      \<or> view_leaves (view (wld (shr s))) (object a) (view (wld sh)) \<and> registered (object a) (Waiting a l)"
    using eff unfolding step_eff_def by (auto simp del: registered.simps)
  moreover have "k \<noteq> object a" if "registered (object a) (Waiting a l) \<or> registered (object a) (Waiting a l')"
    using that before after by blast
  ultimately have "view (wld sh) k = view (wld (shr s)) k"
    using poke by (auto simp: view_keeps_def view_joins_def view_leaves_def simp del: registered.simps may_poke.simps)
  then show ?thesis
    using eff by (simp add: step_eff_def)
qed

lemma lone_wait:
  assumes inv: "sys_inv os_calm N s" and N: "int N < INT_MAX" and li: "lone_inv s" and one: "single s"
    and t: "threads s t = Waiting a l" and e: "valid_env e"
    and st: "wait_step pthread_ops a e (shr s) l = Inr (sh, l')"
    and one': "single (after_wait_step t a l sh l' s)"
  shows "lone_inv (after_wait_step t a l sh l' s)"
  unfolding lone_inv_def
proof (intro allI impI)
  let ?s = "after_wait_step t a l sh l' s"
  fix u b m assume u: "threads ?s u = Waiting b m"
  show "lone_ok ?s b m"
  proof (cases "u = t")
    case True
    then show ?thesis
      using lone_own [OF inv N li t st] u by (simp add: after_wait_step_def)
  next
    case False
    then have um: "threads s u = Waiting b m"
      using u by (simp add: after_wait_step_def)
    then have ok: "lone_ok s b m" "local_ok m"
      using li sys_inv_parts(5) [OF inv, of u] by (simp_all add: lone_inv_def)
    show ?thesis
    proof (cases "concerned m")
      case True
      then have "registered (object b) (threads s u)"
        using concerned_registered [OF ok(2)] um by simp
      then show ?thesis
        using others_proxy [OF inv N one t e st one' False]
        by (intro lone_frame [OF ok(1)]) (auto simp: observes_def token_def after_wait_step_def)
    qed (rule lone_ok_trivial)
  qed
qed

lemma lone_store:
  assumes inv: "sys_inv os_calm N s" and li: "lone_inv s"
  shows "lone_inv (after_store m s)"
  unfolding lone_inv_def
proof (intro allI impI)
  fix u b l assume "threads (after_store m s) u = Waiting b l"
  then have u: "threads s u = Waiting b l"
    by (simp add: after_store_def)
  then have ok: "lone_ok s b l" "wait_width (bytes b)"
    using li sys_inv_parts(5) [OF inv, of u] by (simp_all add: lone_inv_def valid_call_def)
  then show "lone_ok (after_store m s) b l"
    using observes_store [OF _ ok(2)] by (intro lone_frame [OF ok(1)]) (auto simp: token_def after_store_def)
qed

lemma lone_turn:
  assumes li: "lone_inv s" and th: "\<And>a l. th = Waiting a l \<Longrightarrow> pc l = W_Start"
  shows "lone_inv (s\<lparr>threads := (threads s)(t := th)\<rparr>)"
  using li th
  by (auto simp: lone_inv_def lone_ok_def observes_def token_def agreed_def split: if_splits)

lemma lone_notify:
  assumes inv: "sys_inv os_calm N s" and li: "lone_inv s" and t: "threads s t = Notifying l" "npc l \<noteq> N_Wake"
    and st: "notify_step pthread_ops (shr s) l = Inr (sh, l')"
  shows "lone_inv (after_notify_step t l sh l' s)"
  unfolding lone_inv_def
proof (intro allI impI)
  let ?s = "after_notify_step t l sh l' s"
  fix u b m assume "threads ?s u = Waiting b m"
  then have u: "threads s u = Waiting b m"
    by (auto simp: after_notify_step_def split: if_splits)
  then have ok: "lone_ok s b m" "local_ok m"
    using li sys_inv_parts(5) [OF inv, of u] by (simp_all add: lone_inv_def)
  have q: "view (wld sh) = view (wld (shr s))" "mem sh = mem (shr s)"
    using pthread_sys.notify_quiet [OF inv t st] by simp_all
  show "lone_ok ?s b m"
  proof (cases "concerned m")
    case True
    then have "registered (object b) (threads s u)"
      using concerned_registered [OF ok(2)] u by simp
    then have "dirty ?s (object b) = dirty s (object b)"
      using registered_in_view [OF inv, of "object b" u] pthread_sys.notify_none [OF inv t(1) _ st]
      by (auto simp: after_notify_step_def simp del: registered.simps)
    then show ?thesis
      by (intro lone_frame [OF ok(1)]) (auto simp: after_notify_step_def observes_def token_def q)
  qed (rule lone_ok_trivial)
qed

section \<open>The wake\<close>

text \<open>A wake never takes a token away, and a wake-all that succeeds leaves one and signals everyone.\<close>

lemma wake_leaves_token:
  assumes "pthread_proxy_wake os m n parked c = (r, j, c')" and "valid_os os" and "0 < n"
  shows "(0 < pending c \<longrightarrow> 0 < pending c') \<and> (m = WAKE_ALL \<and> 0 \<le> r \<longrightarrow> 0 < pending c' \<and> j = parked)"
proof -
  obtain r1 os1 where o: "os_next os = (r1, os1)"
    by fastforce
  have "0 \<le> r1" "valid_os os1"
    using o assms(2) by (auto simp: os_next_def valid_os_def split: list.splits)
  moreover have "0 \<le> fst (os_next os1)"
    using valid_os_next [OF calculation(2)] .
  moreover have "0 < pending c \<Longrightarrow> 0 < pending c + uint m"
    by (simp add: add_pos_nonneg)
  ultimately show ?thesis
    using assms(1,3) o
    by (auto simp: pthread_proxy_wake_def pthread_tokens_def pthread_cap_def Let_def split: if_splits)
qed

lemma wake_step_tokens:
  assumes inv: "sys_inv os_calm N s" and t: "threads s t = Notifying l" "npc l = N_Wake" and os: "valid_os os"
    and st: "n_wake pthread_ops os parked (shr s) l = Inr (sh, l', n)"
  shows "\<exists>k c c'. view (wld (shr s)) (nobject l) = Some (nitem l, k, c)
    \<and> view (wld sh) = (view (wld (shr s)))(nobject l \<mapsto> (nitem l, k, c')) \<and> mem sh = mem (shr s)
    \<and> (0 < pending c \<longrightarrow> 0 < pending c')
    \<and> (nmax l = WAKE_ALL \<and> 0 \<le> nret l' \<longrightarrow> 0 < pending c' \<and> n = parked)"
proof -
  obtain k c where v: "view (wld (shr s)) (nobject l) = Some (nitem l, k, c)"
    using sys_inv_parts(4) [OF inv] t unfolding wakers_agree_def by blast
  then obtain px where px: "heap (wld (shr s)) (nitem l) = Some px" "nat (use_count px) = k" "atomic px = c"
    by (auto simp: view_Some)
  have pos: "0 < use_count px"
    using pthread.view_proper [OF sys_inv_parts(1) [OF inv] v] px(2) by linarith
  obtain r j c' where w: "pthread_proxy_wake os (nmax l) (use_count px) parked c = (r, j, c')"
    by (metis prod_cases3)
  then have "sh = (shr s)\<lparr>wld := poke (nitem l) c' (wld (shr s))\<rparr>" "nret l' = r" "n = j"
    using st px by (auto simp: n_wake_def)
  then show ?thesis
    using v wake_leaves_token [OF w os pos] pthread.poke_good [OF sys_inv_parts(1) [OF inv] v, of c'] by auto
qed

lemma lone_wake:
  assumes inv: "sys_inv os_calm N s" and li: "lone_inv s"
    and t: "threads s t = Notifying l" "npc l = N_Wake" and os: "valid_os os"
    and P: "P = {u. parked_on (nitem l) (threads s u)}"
    and st: "n_wake pthread_ops os (card P) (shr s) l = Inr (sh, l', n)" and S: "S \<subseteq> P" "card S = n"
  shows "lone_inv (after_wake t l sh l' S s)"
  unfolding lone_inv_def
proof (intro allI impI)
  let ?s = "after_wake t l sh l' S s"
  fix u b m' assume um': "threads ?s u = Waiting b m'"
  then have ut: "u \<noteq> t"
    by (auto simp: after_wake_def)
  obtain m where um: "threads s u = Waiting b m" "m' = (if u \<in> S then m\<lparr>pc := W_Woken\<rparr> else m)"
    using um' ut S(1) P by (cases "threads s u") (auto simp: after_wake_def split: if_splits)
  then have ok: "lone_ok s b m" "local_ok m"
    using li sys_inv_parts(5) [OF inv, of u] by (simp_all add: lone_inv_def)
  have wk: "u \<in> S \<Longrightarrow> pc m = W_Parked \<and> item m = nitem l"
    using S(1) P um(1) by auto
  obtain k c c' where w: "view (wld (shr s)) (nobject l) = Some (nitem l, k, c)"
      "view (wld sh) = (view (wld (shr s)))(nobject l \<mapsto> (nitem l, k, c'))" "mem sh = mem (shr s)"
      "0 < pending c \<longrightarrow> 0 < pending c'" "nmax l = WAKE_ALL \<and> 0 \<le> nret l' \<longrightarrow> 0 < pending c' \<and> n = card P"
    using wake_step_tokens [OF inv t os st] by blast
  show "lone_ok ?s b m'"
  proof (cases "concerned m")
    case False
    then have "m' = m"
      using um(2) wk by (auto simp: concerned_def)
    then show ?thesis
      using False lone_ok_trivial by simp
  next
    case True
    then have "registered (object b) (threads s u)"
      using concerned_registered [OF ok(2)] um(1) by simp
    then have same: "object b = nobject l \<longleftrightarrow> item m = nitem l"
      using registered_in_view [OF inv, of "object b" u] um(1) w(1)
        pthread.view_unique [OF sys_inv_parts(1) [OF inv]] by (auto simp del: registered.simps)
    have tok: "token s (object b) \<Longrightarrow> token ?s (object b)"
      using w(1,2,4) by (auto simp: token_def after_wake_def)
    show ?thesis
    proof (cases "nmax l = WAKE_ALL \<and> 0 \<le> nret l' \<and> object b = nobject l")
      case True
      then have "token ?s (object b)"
        using w(2,5) by (auto simp: token_def after_wake_def)
      moreover have "S = P"
        using w(5) True S parked_few [OF inv, of "nitem l"] by (simp add: P card_subset_eq)
      then have "pc m' \<noteq> W_Parked"
        using True same um by (auto simp: P split: if_splits)
      ultimately show ?thesis
        by (simp add: lone_ok_def)
    next
      case False
      then have obs: "observes s b m \<Longrightarrow> observes ?s b m"
        using w(3) by (auto simp: observes_def after_wake_def)
      show ?thesis
      proof (cases "u \<in> S")
        case True
        then have "observes ?s b m"
          using ok(1) wk obs by (simp add: lone_ok_def)
        then show ?thesis
          using True um(2) by (simp add: lone_ok_def observes_def agreed_def)
      next
        case False
        then show ?thesis
          using lone_frame [OF ok(1) obs tok] um(2) by simp
      qed
    qed
  qed
qed

section \<open>Every state with one waiter per object\<close>

theorem lone_preserved:
  assumes step: "sys_step pthread_ops N s s'" and inv: "sys_inv os_calm N s" and N: "int N < INT_MAX"
    and li: "lone_inv s" and one: "single s" "single s'"
  shows "lone_inv s'"
  using step
proof cases
  case (call_wait t a e)
  then show ?thesis
    using lone_turn [OF li, of "Waiting a (wait_enter a e)" t] by (simp add: wait_enter_def)
next
  case (wait t a l e sh l')
  then show ?thesis
    using lone_wait [OF inv N li one(1)] one(2) by simp
next
  case (notify t l sh l')
  then show ?thesis
    using lone_notify [OF inv li] by simp
next
  case (wake t l P os sh l' n S)
  then show ?thesis
    using lone_wake [OF inv li] by simp
next
  case (store m)
  then show ?thesis
    using lone_store [OF inv li] by simp
qed (auto intro!: lone_turn [OF li])

theorem lone_lone_inv:
  assumes "lone N s" and N: "int N < INT_MAX"
  shows "lone_inv s"
  using assms(1)
proof induction
  case (lone_init s)
  then show ?case
    by (simp add: sys_init_def lone_inv_def)
next
  case (lone_step s s')
  then show ?case
    using lone_preserved pthread_sys.reachable_inv [OF lone_reachable N] lone_single N by blast
qed

lemma lone_blocked:
  assumes "lone N s" and "int N < INT_MAX" and "threads s t = Waiting a l" and "pc l = W_Parked"
    and "\<not> dirty s (object a)"
  shows "load_bytes (mem (shr s)) (object a) (bytes a) = expected l"
  using lone_lone_inv [OF assms(1,2)] assms(3-5) by (auto simp: lone_inv_def lone_ok_def observes_def)

section \<open>A run\<close>

definition at_most_one :: "nat \<Rightarrow> 'p sys \<Rightarrow> bool" where
  "at_most_one N s \<longleftrightarrow>
     length (filter (\<lambda>t. case threads s t of Waiting a l \<Rightarrow> True | _ \<Rightarrow> False) [0..<N]) \<le> 1"

fun lone_run :: "nat \<Rightarrow> action list \<Rightarrow> pthreads_proxy sys \<Rightarrow> pthreads_proxy sys option" where
  "lone_run N [] s = Some s"
| "lone_run N (x # xs) s =
     (case act pthread_ops N x s of
        None \<Rightarrow> None
      | Some s1 \<Rightarrow> if at_most_one N s1 then lone_run N xs s1 else None)"

lemma at_most_one_single:
  assumes "at_most_one N s" and idle: "\<forall>t\<ge>N. threads s t = Idle"
  shows "single s"
  unfolding single_def
proof (intro allI impI, rule ccontr)
  fix k t u assume r: "registered k (threads s t) \<and> registered k (threads s u)" and "t \<noteq> u"
  let ?w = "\<lambda>t. case threads s t of Waiting a l \<Rightarrow> True | _ \<Rightarrow> False"
  have "?w v \<and> v < N" if "registered k (threads s v)" for v
    using that idle by (cases "threads s v"; cases "v < N") auto
  then have "{t, u} \<subseteq> set (filter ?w [0..<N])"
    using r by auto
  then have "card {t, u} \<le> card (set (filter ?w [0..<N]))"
    by (intro card_mono) simp_all
  also have "\<dots> \<le> length (filter ?w [0..<N])"
    by (rule card_length)
  finally show False
    using assms(1) \<open>t \<noteq> u\<close> by (simp add: at_most_one_def)
qed

lemma lone_run_lone:
  assumes "lone N s" and "\<forall>t\<ge>N. threads s t = Idle" and "lone_run N xs s = Some s'"
  shows "lone N s'"
  using assms
proof (induction xs arbitrary: s)
  case (Cons x xs)
  then obtain s1 where s1: "act pthread_ops N x s = Some s1" "at_most_one N s1" "lone_run N xs s1 = Some s'"
    by (auto split: option.splits if_splits)
  have st: "sys_step pthread_ops N s s1"
    using act_sound s1(1) Cons.prems(2) by blast
  note idle = sys_step_idle [OF st Cons.prems(2)]
  show ?case
    using Cons.IH [OF lone_step [OF Cons.prems(1) st at_most_one_single [OF s1(2) idle]] idle s1(3)] .
qed simp

text \<open>
  A wake-all comes between the comparison and the blocking call of thread 0; the thread takes the token,
  compares again and blocks.
\<close>

definition lone_sys :: "pthreads_proxy sys" where
  "lone_sys = the (lone_run 2 (to_park @ tl (store_and_wake []) @ replicate 6 (Step_Wait 0 the_env)) (start_sys 1))"

lemma lone_sys_run:
  "map_option (snap 0)
     (lone_run 2 (to_park @ tl (store_and_wake []) @ replicate 6 (Step_Wait 0 the_env)) (start_sys 1)) =
     Some (True, byte_wait 1, W_Parked, [1], True, 1, False, 0, [1])"
  by code_simp

lemma lone_sys_lone: "lone 2 lone_sys"
proof -
  let ?s = "start_sys 1 :: pthreads_proxy sys"
  have "lone 2 ?s" "\<forall>t\<ge>2. threads ?s t = Idle"
    using start_sys_init [of os_calm 1, OF os_calm_succeed(1)] by (auto intro: lone_init simp: start_sys_def)
  then show ?thesis
    using lone_run_lone lone_sys_run unfolding lone_sys_def by fastforce
qed

lemma lone_sys_snap: "snap 0 lone_sys = (True, byte_wait 1, W_Parked, [1], True, 1, False, 0, [1])"
  using lone_sys_run by (auto simp: lone_sys_def)

end
