(* ===== verification/Configuration.thy ===== *)
theory Configuration
  imports Main
begin

text \<open>
  What is compiled: the configuration macros of \<^verbatim>\<open>config.h\<close>, the choice of the backend at the end of
  \<^verbatim>\<open>atomic_wait.h\<close>, the \<open>#error\<close> guards at the top of the five backend files, the translation units under
  \<^verbatim>\<open>src/wg14_atomic_waits\<close> and the way \<^verbatim>\<open>CMakeLists.txt\<close> picks one. The macros the compiler, the operating
  system headers and the command line define are a record.
\<close>

section \<open>Backends\<close>

datatype backend = Linux | FreeBSD | MacOS | Windows bool | Pthreads

text \<open>The \<open>WG14_ATOMIC_WAITS_HAVE_*\<close> macros, by the number of bits. \<open>Windows True\<close> is 64-bit Windows.\<close>

fun have_wait_on_address :: "backend \<Rightarrow> nat \<Rightarrow> bool" where
  "have_wait_on_address Linux n \<longleftrightarrow> n = 32"
| "have_wait_on_address FreeBSD n \<longleftrightarrow> n \<in> {32, 64}"
| "have_wait_on_address MacOS n \<longleftrightarrow> n \<in> {32, 64}"
| "have_wait_on_address (Windows win64) n \<longleftrightarrow> n \<in> {8, 16, 32} \<or> win64 \<and> n = 64"
| "have_wait_on_address Pthreads n \<longleftrightarrow> False"

fun have_wake_by_address :: "backend \<Rightarrow> nat \<Rightarrow> bool" where
  "have_wake_by_address Linux n \<longleftrightarrow> n = 32"
| "have_wake_by_address FreeBSD n \<longleftrightarrow> n \<in> {32, 64}"
| "have_wake_by_address MacOS n \<longleftrightarrow> n \<in> {32, 64}"
| "have_wake_by_address (Windows win64) n \<longleftrightarrow> n \<in> {8, 16, 32} \<or> win64 \<and> n = 64"
| "have_wake_by_address Pthreads n \<longleftrightarrow> False"

section \<open>The preprocessor's view\<close>

text \<open>
  A macro of the library that the command line may define carries its value; of the predefined macros
  only \<open>__FreeBSD__\<close> and \<open>_WIN32_WINNT\<close> are looked at for their value.
\<close>

record platform =
  user_header_only :: "int option"
  user_always_pthreads :: "int option"
  user_source :: "int option"
  def_WIN32 :: bool
  def_WIN64 :: bool
  def_WIN32_WINNT :: "nat option"
  def_linux :: bool
  def_FreeBSD :: "nat option"
  def_FreeBSD_kernel :: bool
  def_APPLE :: bool

definition enable_header_only :: "platform \<Rightarrow> bool" where
  "enable_header_only p = (case user_header_only p of None \<Rightarrow> False | Some v \<Rightarrow> v \<noteq> 0)"

definition always_use_pthreads :: "platform \<Rightarrow> bool" where
  "always_use_pthreads p = (case user_always_pthreads p of None \<Rightarrow> False | Some v \<Rightarrow> v \<noteq> 0)"

text \<open>How the public functions are declared.\<close>

datatype linkage = Extern | Extern_Dllexport | Extern_Visible | Static_Inline

definition extern_impl :: "platform \<Rightarrow> linkage" where
  "extern_impl p =
     (if (case user_source p of None \<Rightarrow> False | Some v \<Rightarrow> v \<noteq> 0)
      then if def_WIN32 p then Extern_Dllexport else Extern_Visible
      else Extern)"

definition extern_linkage :: "platform \<Rightarrow> linkage" where
  "extern_linkage p = (if enable_header_only p then Static_Inline else extern_impl p)"

section \<open>The choice of the backend\<close>

text \<open>The header's choice; it takes effect in header-only mode.\<close>

definition select_backend :: "platform \<Rightarrow> backend" where
  "select_backend p =
     (if always_use_pthreads p then Pthreads
      else if def_WIN32 p \<or> def_WIN64 p then Windows (def_WIN64 p)
      else if def_linux p then Linux
      else if def_FreeBSD p \<noteq> None then FreeBSD
      else if def_APPLE p then MacOS
      else Pthreads)"

text \<open>
  Whatever is selected, the proxy of the generic machine can be built: there is a native 32-bit wait to
  put the generation counter on, or the backend brings its own proxy.
\<close>

lemma proxy_always_available:
  "have_wait_on_address (select_backend p) 32 \<and> have_wake_by_address (select_backend p) 32
   \<or> select_backend p = Pthreads"
  by (simp add: select_backend_def)

text \<open>The \<open>#error\<close> directives of the backend files.\<close>

definition linux_guard :: "platform \<Rightarrow> bool" where
  "linux_guard p \<longleftrightarrow> \<not> def_linux p"

definition freebsd_guard :: "platform \<Rightarrow> bool" where
  "freebsd_guard p \<longleftrightarrow>
     def_FreeBSD p = None \<and> \<not> def_FreeBSD_kernel p
     \<or> (case def_FreeBSD p of None \<Rightarrow> False | Some v \<Rightarrow> v < 12)"

definition macos_guard :: "platform \<Rightarrow> bool" where
  "macos_guard p \<longleftrightarrow> \<not> def_APPLE p"

definition windows_guard :: "platform \<Rightarrow> bool" where
  "windows_guard p \<longleftrightarrow>
     \<not> def_WIN32 p \<and> \<not> def_WIN64 p
     \<or> (case def_WIN32_WINNT p of None \<Rightarrow> True | Some v \<Rightarrow> v < 0x0602)"

definition pthreads_guard :: "platform \<Rightarrow> bool" where
  "pthreads_guard p \<longleftrightarrow> \<not> def_linux p \<and> def_FreeBSD p = None \<and> \<not> def_APPLE p"

fun guard_error :: "backend \<Rightarrow> platform \<Rightarrow> bool" where
  "guard_error Linux p = linux_guard p"
| "guard_error FreeBSD p = freebsd_guard p"
| "guard_error MacOS p = macos_guard p"
| "guard_error (Windows _) p = windows_guard p"
| "guard_error Pthreads p = pthreads_guard p"

lemmas guard_defs = linux_guard_def freebsd_guard_def macos_guard_def windows_guard_def pthreads_guard_def

section \<open>Translation units\<close>

text \<open>
  The backend files a translation unit takes in. A library unit starts with its own backend, whose
  include guard makes a second inclusion through the header empty; a unit of a user starts with the
  header.
\<close>

definition included :: "backend option \<Rightarrow> platform \<Rightarrow> backend list" where
  "included tu p =
     (let chosen = (if enable_header_only p then [select_backend p] else [])
      in case tu of None \<Rightarrow> chosen | Some b \<Rightarrow> b # filter (\<lambda>c. c \<noteq> b) chosen)"

text \<open>Two backends in one unit define the same functions twice.\<close>

definition compiles :: "backend option \<Rightarrow> platform \<Rightarrow> bool" where
  "compiles tu p \<longleftrightarrow> length (included tu p) \<le> 1 \<and> (\<forall>b\<in>set (included tu p). \<not> guard_error b p)"

section \<open>The build\<close>

datatype platform_id = Id_Windows | Id_Darwin | Id_Linux | Id_FreeBSD | Id_Other

definition library_source :: "platform_id \<Rightarrow> bool \<Rightarrow> bool \<Rightarrow> backend" where
  "library_source i win64 forced =
     (if forced then Pthreads
      else (case i of Id_Windows \<Rightarrow> Windows win64 | Id_Darwin \<Rightarrow> MacOS | Id_Linux \<Rightarrow> Linux
              | Id_FreeBSD \<Rightarrow> FreeBSD | Id_Other \<Rightarrow> Pthreads))"

text \<open>
  The definitions the build adds for the library (\<open>lib\<close>) and for its users: \<open>-D\<close> without a value defines a
  macro as 1, and \<open>WG14_ATOMIC_WAITS_SOURCE\<close> is private to the library.
\<close>

definition build_defines :: "platform_id \<Rightarrow> bool \<Rightarrow> bool \<Rightarrow> bool \<Rightarrow> platform \<Rightarrow> platform" where
  "build_defines i header_only forced lib p =
     p\<lparr>user_header_only := if header_only then Some 1 else None,
       user_always_pthreads := if forced then Some 1 else None,
       user_source := if lib then Some 1 else None,
       def_WIN32_WINNT := if i = Id_Windows then Some 0x0602 else def_WIN32_WINNT p\<rparr>"

text \<open>The macros of a compiler for one of these platforms.\<close>

definition compiler_for :: "platform_id \<Rightarrow> platform \<Rightarrow> bool" where
  "compiler_for i p \<longleftrightarrow>
     (def_WIN32 p \<longleftrightarrow> i = Id_Windows) \<and> (def_WIN64 p \<longrightarrow> i = Id_Windows) \<and>
     (def_linux p \<longleftrightarrow> i = Id_Linux) \<and> (def_APPLE p \<longleftrightarrow> i = Id_Darwin) \<and>
     (def_FreeBSD p \<noteq> None \<longleftrightarrow> i = Id_FreeBSD) \<and>
     (case def_FreeBSD p of None \<Rightarrow> True | Some v \<Rightarrow> 12 \<le> v)"

definition linux_platform :: platform where
  "linux_platform =
     \<lparr>user_header_only = None, user_always_pthreads = None, user_source = None, def_WIN32 = False,
      def_WIN64 = False, def_WIN32_WINNT = None, def_linux = True, def_FreeBSD = None,
      def_FreeBSD_kernel = False, def_APPLE = False\<rparr>"

lemma linux_platform_ok: "compiler_for Id_Linux linux_platform"
  by (simp add: compiler_for_def linux_platform_def)

lemmas build_simps =
  included_def compiles_def library_source_def build_defines_def compiler_for_def select_backend_def
  enable_header_only_def always_use_pthreads_def extern_linkage_def extern_impl_def guard_defs

text \<open>The library and its users agree on the backend, and no guard fails, where a guard can pass.\<close>

lemma build_agrees:
  assumes "compiler_for i p" and "i \<noteq> Id_Other" and "forced \<longrightarrow> i \<noteq> Id_Windows"
  shows "compiles (Some (library_source i (def_WIN64 p) forced)) (build_defines i ho forced True p)
    \<and> compiles None (build_defines i ho forced False p)
    \<and> select_backend (build_defines i ho forced False p) = library_source i (def_WIN64 p) forced"
  using assms by (cases i; cases forced; cases ho) (auto simp: build_simps split: option.splits)

text \<open>Every public function of the header has one definition in reach of a user's unit.\<close>

lemma build_links:
  fixes ho forced :: bool
  assumes "compiler_for i p"
  defines "user \<equiv> build_defines i ho forced False p" and "lib \<equiv> build_defines i ho forced True p"
  shows "if ho then included None user = [select_backend user] \<and> extern_linkage user = Static_Inline
    else included None user = [] \<and> extern_linkage user = Extern
      \<and> extern_linkage lib = (if i = Id_Windows then Extern_Dllexport else Extern_Visible)"
  using assms(1) by (auto simp: user_def lib_def build_simps)

text \<open>
  The guard of the pthreads file fails on exactly the platforms the file is meant for: those that are
  neither Linux nor FreeBSD nor Apple.
\<close>

lemma pthreads_never_compiles:
  assumes "compiler_for i p" and "i = Id_Other \<or> i = Id_Windows \<and> forced"
  shows "\<not> compiles (Some (library_source i (def_WIN64 p) forced)) (build_defines i ho forced True p)
    \<and> (ho \<longrightarrow> \<not> compiles None (build_defines i ho forced False p))"
  using assms by (cases i; cases forced) (auto simp: build_simps split: option.splits)

end
