(* ===== verification/Pthread_Resources.thy ===== *)
theory Pthread_Resources
  imports Proxy_Kinds Deadline Configuration
begin

text \<open>
  The synchronisation objects of the pthreads proxy. \<open>Proxy_Kinds\<close> keeps of the proxy the two counts;
  here the mutex, the condition variable and the attribute object of \<open>pthread_proxy_init\<close> are there too, with
  the clock a condition variable measures time on, and using one that is not initialised, or
  initialising one that is, is a fault. The results of the calls are a record. Shown: nothing is used
  wrongly, a failed initialisation leaves nothing behind, initialisation and destruction are inverse, the
  time limit is computed on the clock of the condition variable, and the counts and results are those of
  \<open>Proxy_Kinds\<close>.
\<close>

section \<open>Objects\<close>

datatype clock = Clock_Monotonic | Clock_Realtime

text \<open>\<open>Some c\<close> is a condition variable, or an attribute object, for clock \<open>c\<close>; the default is the realtime clock.\<close>

record pt_proxy =
  pt_mutex :: bool
  pt_cond :: "clock option"
  pt_attr :: "clock option"
  pt_counts :: pthreads_proxy

definition pthread_mutex_init :: "int \<Rightarrow> pt_proxy \<Rightarrow> pt_proxy res" where
  "pthread_mutex_init r x =
     (if pt_mutex x then Inl Bad_Sync else Inr (if r = 0 then x\<lparr>pt_mutex := True\<rparr> else x))"

definition pthread_mutex_destroy :: "int \<Rightarrow> pt_proxy \<Rightarrow> pt_proxy res" where
  "pthread_mutex_destroy r x =
     (if \<not> pt_mutex x then Inl Bad_Sync else Inr (if r = 0 then x\<lparr>pt_mutex := False\<rparr> else x))"

definition pthread_condattr_init :: "int \<Rightarrow> pt_proxy \<Rightarrow> pt_proxy res" where
  "pthread_condattr_init r x =
     (if pt_attr x \<noteq> None then Inl Bad_Sync
      else Inr (if r = 0 then x\<lparr>pt_attr := Some Clock_Realtime\<rparr> else x))"

definition pthread_condattr_setclock :: "int \<Rightarrow> clock \<Rightarrow> pt_proxy \<Rightarrow> pt_proxy res" where
  "pthread_condattr_setclock r c x =
     (if pt_attr x = None then Inl Bad_Sync else Inr (if r = 0 then x\<lparr>pt_attr := Some c\<rparr> else x))"

definition pthread_condattr_destroy :: "pt_proxy \<Rightarrow> pt_proxy res" where
  "pthread_condattr_destroy x = (if pt_attr x = None then Inl Bad_Sync else Inr (x\<lparr>pt_attr := None\<rparr>))"

text \<open>With \<open>None\<close> for the attributes the condition variable gets the default clock.\<close>

definition pthread_cond_init :: "int \<Rightarrow> clock option \<Rightarrow> pt_proxy \<Rightarrow> pt_proxy res" where
  "pthread_cond_init r attr x =
     (if pt_cond x \<noteq> None then Inl Bad_Sync
      else Inr (if r = 0 then x\<lparr>pt_cond := Some (case attr of None \<Rightarrow> Clock_Realtime | Some c \<Rightarrow> c)\<rparr> else x))"

definition pthread_cond_destroy :: "int \<Rightarrow> pt_proxy \<Rightarrow> pt_proxy res" where
  "pthread_cond_destroy r x =
     (if pt_cond x = None then Inl Bad_Sync else Inr (if r = 0 then x\<lparr>pt_cond := None\<rparr> else x))"

lemmas sync_defs =
  pthread_mutex_init_def pthread_mutex_destroy_def pthread_condattr_init_def pthread_condattr_setclock_def
  pthread_condattr_destroy_def pthread_cond_init_def pthread_cond_destroy_def

section \<open>The functions of the proxy\<close>

text \<open>\<open>WG14_ATOMIC_WAITS_PTHREADS_MONOTONIC\<close>; \<open>has_clock\<close> says that the headers define \<open>CLOCK_MONOTONIC\<close>.\<close>

definition pthreads_monotonic :: "bool \<Rightarrow> platform \<Rightarrow> bool" where
  "pthreads_monotonic has_clock p \<longleftrightarrow> has_clock \<and> \<not> def_APPLE p"

record init_calls =
  r_mutex_init :: int
  r_attr_init :: int
  r_setclock :: int
  r_cond_init :: int
  r_mutex_destroy :: int

text \<open>The attributes and the condition variable: the value of \<open>ret\<close> after it.\<close>

definition pt_cond_part :: "bool \<Rightarrow> init_calls \<Rightarrow> pt_proxy \<Rightarrow> (int \<times> pt_proxy) res" where
  "pt_cond_part clk_mono c x =
     (if clk_mono then
        res_bind (pthread_condattr_init (r_attr_init c) x) (\<lambda>x1.
          if r_attr_init c \<noteq> 0 then Inr (r_attr_init c, x1)
          else
            res_bind (pthread_condattr_setclock (r_setclock c) Clock_Monotonic x1) (\<lambda>x2.
            res_bind (pthread_cond_init (r_cond_init c) (pt_attr x2) x2) (\<lambda>x3.
            res_bind (pthread_condattr_destroy x3) (\<lambda>x4. Inr (r_cond_init c, x4)))))
      else res_bind (pthread_cond_init (r_cond_init c) None x) (\<lambda>x1. Inr (r_cond_init c, x1)))"

definition pt_init :: "bool \<Rightarrow> init_calls \<Rightarrow> pt_proxy \<Rightarrow> (int \<times> pt_proxy) res" where
  "pt_init clk_mono c x =
     res_bind (pthread_mutex_init (r_mutex_init c) x) (\<lambda>x1.
       if r_mutex_init c \<noteq> 0 then Inr (- r_mutex_init c, x1)
       else
         res_bind (pt_cond_part clk_mono c x1) (\<lambda>(r, x2).
           if r \<noteq> 0 then res_bind (pthread_mutex_destroy (r_mutex_destroy c) x2) (\<lambda>x3. Inr (- r, x3))
           else Inr (0, x2\<lparr>pt_counts := (pt_counts x2)\<lparr>pending := 0, waiting := 0\<rparr>\<rparr>)))"

definition pt_destroy :: "int \<Rightarrow> int \<Rightarrow> pt_proxy \<Rightarrow> (int \<times> pt_proxy) res" where
  "pt_destroy ret1 ret2 x =
     res_bind (pthread_cond_destroy ret1 x) (\<lambda>x1.
     res_bind (pthread_mutex_destroy ret2 x1) (\<lambda>x2. Inr (if ret1 \<noteq> 0 then ret1 else ret2, x2)))"

text \<open>The clock \<open>pthread_proxy_wait\<close> reads, and the absolute time it blocks until.\<close>

definition pt_clock :: "bool \<Rightarrow> clock" where
  "pt_clock clk_mono = (if clk_mono then Clock_Monotonic else Clock_Realtime)"

definition pt_abstime :: "bool \<Rightarrow> (clock \<Rightarrow> timespec) \<Rightarrow> timespec option \<Rightarrow> timespec option res" where
  "pt_abstime clk_mono now timeout = pthread_abstime (now (pt_clock clk_mono)) timeout"

section \<open>What they do\<close>

definition pt_unused :: "pt_proxy \<Rightarrow> bool" where
  "pt_unused x \<longleftrightarrow> \<not> pt_mutex x \<and> pt_cond x = None \<and> pt_attr x = None"

definition pt_ready :: "clock \<Rightarrow> pt_proxy \<Rightarrow> bool" where
  "pt_ready k x \<longleftrightarrow> pt_mutex x \<and> pt_cond x = Some k \<and> pt_attr x = None"

lemma cond_part_ok:
  assumes "pt_cond x = None" and "pt_attr x = None"
  shows "\<exists>r. pt_cond_part clk_mono c x = Inr (r, x\<lparr>pt_cond := if r = 0
      then Some (if clk_mono \<and> r_setclock c = 0 then Clock_Monotonic else Clock_Realtime) else None\<rparr>)
    \<and> r = (if clk_mono \<and> r_attr_init c \<noteq> 0 then r_attr_init c else r_cond_init c)"
  using assms by (cases clk_mono) (simp_all add: pt_cond_part_def sync_defs)

text \<open>The calls \<open>pthread_proxy_init\<close> of \<open>Proxy_Kinds\<close> asks the system for.\<close>

definition init_script :: "bool \<Rightarrow> init_calls \<Rightarrow> os_answers" where
  "init_script clk_mono c =
     \<lparr>init_answers = [r_mutex_init c, if clk_mono then r_attr_init c else 0, r_cond_init c],
      destroy_answers = []\<rparr>"

lemma pt_init_outcome:
  assumes "pt_unused x"
  shows "\<exists>r x'. pt_init clk_mono c x = Inr (r, x')
    \<and> (r = 0 \<longrightarrow> pt_ready (if clk_mono \<and> r_setclock c = 0 then Clock_Monotonic else Clock_Realtime) x'
         \<and> pt_counts x' = \<lparr>pending = 0, waiting = 0\<rparr>)
    \<and> (r \<noteq> 0 \<longrightarrow> pt_cond x' = None \<and> pt_attr x' = None \<and> (r_mutex_destroy c = 0 \<longrightarrow> \<not> pt_mutex x'))
    \<and> (\<exists>s. pthread_proxy_init (init_script clk_mono c) (pt_counts x) = (r, pt_counts x', s))"
proof (cases "r_mutex_init c = 0")
  case False
  then show ?thesis
    using assms by (simp add: pt_init_def sync_defs pt_unused_def pthread_proxy_init_def init_script_def
        init_next_def os_next_def)
next
  case True
  let ?x = "x\<lparr>pt_mutex := True\<rparr>"
  obtain r where r: "pt_cond_part clk_mono c ?x = Inr (r, ?x\<lparr>pt_cond := if r = 0
      then Some (if clk_mono \<and> r_setclock c = 0 then Clock_Monotonic else Clock_Realtime) else None\<rparr>)"
      "r = (if clk_mono \<and> r_attr_init c \<noteq> 0 then r_attr_init c else r_cond_init c)"
    using cond_part_ok [of ?x clk_mono c] assms by (auto simp: pt_unused_def)
  have "pthread_proxy_init (init_script clk_mono c) (pt_counts x) =
      (if r = 0 then (0, \<lparr>pending = 0, waiting = 0\<rparr>, all_succeed)
       else (- r, pt_counts x, all_succeed\<lparr>init_answers := if clk_mono \<and> r_attr_init c \<noteq> 0 then [r_cond_init c] else []\<rparr>))"
    using True r(2) by (simp add: pthread_proxy_init_def init_script_def init_next_def os_next_def)
  then show ?thesis
    using True r(1) assms
    by (cases "r = 0") (simp_all add: pt_init_def pthread_mutex_init_def pthread_mutex_destroy_def pt_unused_def pt_ready_def)
qed

lemma pt_destroy_unused:
  assumes "pt_ready k x"
  shows "\<exists>x'. pt_destroy 0 0 x = Inr (0, x') \<and> pt_unused x'"
  using assms by (simp add: pt_destroy_def sync_defs pt_ready_def pt_unused_def)

lemma pt_abstime_exact:
  assumes "valid_ts (now (pt_clock clk_mono))" and "valid_ts d"
  shows "\<exists>t. pt_abstime clk_mono now (Some d) = Inr (Some t) \<and> ns t = ns (now (pt_clock clk_mono)) + ns d"
  using pthread_abstime_exact [OF assms] by (auto simp: pt_abstime_def)

end
