(* ===== verification/Native_Backends.thy ===== *)
theory Native_Backends
  imports Proxy_Kinds Deadline
begin

text \<open>
  \<open>wait_on_address*\<close> and \<open>wake_by_address*\<close> of the Linux, FreeBSD, macOS and Windows backends. The
  system call is a parameter: a function from the request and the state of the operating system
  to the result, the errno value (a natural number) it leaves and the new state. What the backends promise their
  callers is the locale \<open>native_wait\<close>: errno is preserved and the result is zero or a negated
  errno value. Every backend keeps it, whatever the system call does.
\<close>

type_synonym ('c, 's) os_call = "'c \<Rightarrow> 's \<Rightarrow> int \<times> nat \<times> 's"

text \<open>Conversion of a \<open>long\<close> to \<open>int\<close>.\<close>

definition int_cast :: "int \<Rightarrow> int" where
  "int_cast n = sint (word_of_int n :: u32)"

section \<open>Linux\<close>

text \<open>The clock is read only for a finite wait; its return value is ignored.\<close>

datatype futex_call =
    FUTEX_WAIT_BITSET ptr int "timespec option"
  | FUTEX_WAKE ptr int

definition linux_abstime ::
  "('s \<Rightarrow> int \<times> timespec \<times> 's) \<Rightarrow> timespec option \<Rightarrow> 's \<Rightarrow> (timespec option \<times> 's) res" where
  "linux_abstime clock duration s =
     (case duration of
        None \<Rightarrow> Inr (None, s)
      | Some d \<Rightarrow>
          (case clock s of (_, now, s') \<Rightarrow>
             res_bind (ts_deadline now d) (\<lambda>abstime. Inr (Some abstime, s'))))"

definition linux_wait_on_address32 ::
  "(futex_call, 's) os_call \<Rightarrow> ('s \<Rightarrow> int \<times> timespec \<times> 's) \<Rightarrow> ptr \<Rightarrow> u32 \<Rightarrow> timespec option \<Rightarrow> int \<Rightarrow> 's \<Rightarrow>
     (int \<times> int \<times> 's) res" where
  "linux_wait_on_address32 futex clock obj expected duration err s =
     (let save_errno = err in
      res_bind (linux_abstime clock duration s) (\<lambda>(abstime, s1).
        case futex (FUTEX_WAIT_BITSET obj (sint expected) abstime) s1 of (ret, e, s') \<Rightarrow>
          if int_cast ret = 0 then Inr (0, save_errno, s') else Inr (- int e, save_errno, s')))"

definition linux_wake_by_address32 ::
  "(futex_call, 's) os_call \<Rightarrow> ptr \<Rightarrow> u32 \<Rightarrow> int \<Rightarrow> 's \<Rightarrow> int \<times> int \<times> 's" where
  "linux_wake_by_address32 futex obj max_threads_to_wake err s =
     (let save_errno = err in
      case futex (FUTEX_WAKE obj (nr_wake max_threads_to_wake)) s of (ret, e, s') \<Rightarrow>
        if ret < 0 then (- int e, save_errno, s') else (int_cast ret, save_errno, s'))"

section \<open>FreeBSD\<close>

record umtx_time =
  umtx_timeout :: timespec
  umtx_flags :: u32
  umtx_clockid :: nat

text \<open>
  The operations: a 32-bit wait, a wait on a \<open>long\<close>, and the wakes of the two queues. A wait carries
  the timeout structure, or nothing for an infinite wait.
\<close>

datatype umtx_call =
    UMTX_OP_WAIT_UINT ptr u32 "umtx_time option"
  | UMTX_OP_WAIT ptr int "umtx_time option"
  | UMTX_OP_WAKE_32BIT ptr int
  | UMTX_OP_WAKE ptr int

definition CLOCK_MONOTONIC :: nat where
  "CLOCK_MONOTONIC = 4"

definition umtx_relative :: "timespec option \<Rightarrow> umtx_time option" where
  "umtx_relative duration =
     map_option (\<lambda>d. \<lparr>umtx_timeout = d, umtx_flags = 0, umtx_clockid = CLOCK_MONOTONIC\<rparr>) duration"

definition freebsd_wait_on_address32 ::
  "(umtx_call, 's) os_call \<Rightarrow> ptr \<Rightarrow> u32 \<Rightarrow> timespec option \<Rightarrow> int \<Rightarrow> 's \<Rightarrow> int \<times> int \<times> 's" where
  "freebsd_wait_on_address32 umtx obj expected duration err s =
     (let save_errno = err in
      case umtx (UMTX_OP_WAIT_UINT obj expected (umtx_relative duration)) s of (ret, e, s') \<Rightarrow>
        if ret = 0 then (0, save_errno, s') else (- int e, save_errno, s'))"

definition freebsd_wait_on_address64 ::
  "(umtx_call, 's) os_call \<Rightarrow> ptr \<Rightarrow> u64 \<Rightarrow> timespec option \<Rightarrow> int \<Rightarrow> 's \<Rightarrow> int \<times> int \<times> 's" where
  "freebsd_wait_on_address64 umtx obj expected duration err s =
     (let save_errno = err in
      case umtx (UMTX_OP_WAIT obj (sint expected) (umtx_relative duration)) s of (ret, e, s') \<Rightarrow>
        if ret = 0 then (0, save_errno, s') else (- int e, save_errno, s'))"

definition freebsd_wake_by_address32 ::
  "(umtx_call, 's) os_call \<Rightarrow> ptr \<Rightarrow> u32 \<Rightarrow> int \<Rightarrow> 's \<Rightarrow> int \<times> int \<times> 's" where
  "freebsd_wake_by_address32 umtx obj max_threads_to_wake err s =
     (let save_errno = err in
      case umtx (UMTX_OP_WAKE_32BIT obj (nr_wake max_threads_to_wake)) s of (ret, e, s') \<Rightarrow>
        if ret < 0 then (- int e, save_errno, s')
        else (nominal_woken max_threads_to_wake, save_errno, s'))"

definition freebsd_wake_by_address64 ::
  "(umtx_call, 's) os_call \<Rightarrow> ptr \<Rightarrow> u32 \<Rightarrow> int \<Rightarrow> 's \<Rightarrow> int \<times> int \<times> 's" where
  "freebsd_wake_by_address64 umtx obj max_threads_to_wake err s =
     (let save_errno = err in
      case umtx (UMTX_OP_WAKE obj (nr_wake max_threads_to_wake)) s of (ret, e, s') \<Rightarrow>
        if ret < 0 then (- int e, save_errno, s')
        else (nominal_woken max_threads_to_wake, save_errno, s'))"

section \<open>macOS\<close>

datatype ulock_call =
    ULOCK_WAIT u32 ptr u64 u32
  | ULOCK_WAKE u32 ptr u64

definition UL_COMPARE_AND_WAIT :: u32 where "UL_COMPARE_AND_WAIT = 1"
definition UL_COMPARE_AND_WAIT64 :: u32 where "UL_COMPARE_AND_WAIT64 = 5"
definition ULF_WAKE_ALL :: u32 where "ULF_WAKE_ALL = 0x100"

text \<open>Whole microseconds, rounded up, in 64-bit arithmetic, clamped to 32 bits; zero would mean no limit.\<close>

definition timeout_us :: "timespec option \<Rightarrow> u32" where
  "timeout_us ts =
     (case ts of
        None \<Rightarrow> 0
      | Some t \<Rightarrow>
          (let us = (word_of_int (tv_sec t) :: u64) * 1000000
                    + (word_of_int (tv_nsec t) + 999) div 1000;
               r = (if us > 0xFFFFFFFF then 0xFFFFFFFF else ucast us)
           in if r = 0 then 1 else r))"

definition macos_wait_on_address32 ::
  "(ulock_call, 's) os_call \<Rightarrow> ptr \<Rightarrow> u32 \<Rightarrow> timespec option \<Rightarrow> int \<Rightarrow> 's \<Rightarrow> int \<times> int \<times> 's" where
  "macos_wait_on_address32 ulock obj expected ts err s =
     (let save_errno = err in
      case ulock (ULOCK_WAIT UL_COMPARE_AND_WAIT obj (ucast expected) (timeout_us ts)) s of (ret, e, s') \<Rightarrow>
        if ret = 0 then (0, save_errno, s') else (- int e, save_errno, s'))"

definition macos_wait_on_address64 ::
  "(ulock_call, 's) os_call \<Rightarrow> ptr \<Rightarrow> u64 \<Rightarrow> timespec option \<Rightarrow> int \<Rightarrow> 's \<Rightarrow> int \<times> int \<times> 's" where
  "macos_wait_on_address64 ulock obj expected ts err s =
     (let save_errno = err in
      case ulock (ULOCK_WAIT UL_COMPARE_AND_WAIT64 obj expected (timeout_us ts)) s of (ret, e, s') \<Rightarrow>
        if ret = 0 then (0, save_errno, s') else (- int e, save_errno, s'))"

definition macos_wake_by_address32 ::
  "(ulock_call, 's) os_call \<Rightarrow> ptr \<Rightarrow> u32 \<Rightarrow> int \<Rightarrow> 's \<Rightarrow> int \<times> int \<times> 's" where
  "macos_wake_by_address32 ulock obj max_threads_to_wake err s =
     (let save_errno = err in
      case ulock (ULOCK_WAKE (UL_COMPARE_AND_WAIT OR (if max_threads_to_wake = 1 then 0 else ULF_WAKE_ALL))
                    obj 0) s of (ret, e, s') \<Rightarrow>
        if ret \<noteq> 0 \<and> int e \<noteq> ENOENT then (- int e, save_errno, s')
        else (nominal_woken max_threads_to_wake, save_errno, s'))"

definition macos_wake_by_address64 ::
  "(ulock_call, 's) os_call \<Rightarrow> ptr \<Rightarrow> u32 \<Rightarrow> int \<Rightarrow> 's \<Rightarrow> int \<times> int \<times> 's" where
  "macos_wake_by_address64 ulock obj max_threads_to_wake err s =
     (let save_errno = err in
      case ulock (ULOCK_WAKE (UL_COMPARE_AND_WAIT64 OR (if max_threads_to_wake = 1 then 0 else ULF_WAKE_ALL))
                    obj 0) s of (ret, e, s') \<Rightarrow>
        if ret \<noteq> 0 \<and> int e \<noteq> ENOENT then (- int e, save_errno, s')
        else (nominal_woken max_threads_to_wake, save_errno, s'))"

section \<open>Windows\<close>

text \<open>
  \<open>WaitOnAddress\<close> (address, bytes compared, their number, timeout) answers with a truth value and
  the \<open>GetLastError\<close> code; the wakes answer nothing. errno is never touched.
\<close>

datatype win_call =
    WaitOnAddress ptr "u8 list" nat u32
  | WakeByAddressSingle ptr
  | WakeByAddressAll ptr

type_synonym 's win_os = "win_call \<Rightarrow> 's \<Rightarrow> bool \<times> u32 \<times> 's"

definition ERROR_SUCCESS :: u32 where "ERROR_SUCCESS = 0"
definition ERROR_ACCESS_DENIED :: u32 where "ERROR_ACCESS_DENIED = 5"
definition ERROR_INVALID_HANDLE :: u32 where "ERROR_INVALID_HANDLE = 6"
definition ERROR_NOT_ENOUGH_MEMORY :: u32 where "ERROR_NOT_ENOUGH_MEMORY = 8"
definition ERROR_OUTOFMEMORY :: u32 where "ERROR_OUTOFMEMORY = 14"
definition ERROR_INVALID_PARAMETER :: u32 where "ERROR_INVALID_PARAMETER = 87"
definition ERROR_NO_SYSTEM_RESOURCES :: u32 where "ERROR_NO_SYSTEM_RESOURCES = 1450"
definition ERROR_TIMEOUT :: u32 where "ERROR_TIMEOUT = 1460"

lemmas win_errors = ERROR_SUCCESS_def ERROR_ACCESS_DENIED_def ERROR_INVALID_HANDLE_def
  ERROR_NOT_ENOUGH_MEMORY_def ERROR_OUTOFMEMORY_def ERROR_INVALID_PARAMETER_def
  ERROR_NO_SYSTEM_RESOURCES_def ERROR_TIMEOUT_def

definition windows_error_to_errno :: "u32 \<Rightarrow> int" where
  "windows_error_to_errno lasterr =
     (if lasterr = ERROR_SUCCESS then 0
      else if lasterr = ERROR_TIMEOUT then ETIMEDOUT
      else if lasterr = ERROR_INVALID_PARAMETER then EINVAL
      else if lasterr = ERROR_NOT_ENOUGH_MEMORY then ENOMEM
      else if lasterr = ERROR_OUTOFMEMORY then ENOMEM
      else if lasterr = ERROR_ACCESS_DENIED then EACCES
      else if lasterr = ERROR_INVALID_HANDLE then EBADF
      else if lasterr = ERROR_NO_SYSTEM_RESOURCES then EAGAIN
      else EIO)"

definition INFINITE :: u32 where
  "INFINITE = 0xFFFFFFFF"

text \<open>Whole milliseconds, rounded up, in 64-bit arithmetic, clamped below \<open>INFINITE\<close>.\<close>

definition timeout_ms :: "timespec option \<Rightarrow> u32" where
  "timeout_ms duration =
     (case duration of
        None \<Rightarrow> INFINITE
      | Some d \<Rightarrow>
          (let ms = (word_of_int (tv_sec d) :: u64) * 1000
                    + (word_of_int (tv_nsec d) + 999999) div 1000000
           in if ms \<ge> 0xFFFFFFFE then 0xFFFFFFFE else ucast ms))"

text \<open>
  The four widths differ in the number of bytes compared. The value is passed by address: its bytes,
  in little-endian order.
\<close>

definition word_bytes :: "nat \<Rightarrow> u64 \<Rightarrow> u8 list" where
  "word_bytes n v = map (\<lambda>i. ucast (drop_bit (8 * i) v)) [0..<n]"

definition windows_wait_on_address ::
  "'s win_os \<Rightarrow> nat \<Rightarrow> ptr \<Rightarrow> u8 list \<Rightarrow> timespec option \<Rightarrow> int \<Rightarrow> 's \<Rightarrow> int \<times> int \<times> 's" where
  "windows_wait_on_address win bytes obj expected duration err s =
     (case win (WaitOnAddress obj expected bytes (timeout_ms duration)) s of (ok, lasterr, s') \<Rightarrow>
        if ok then (0, err, s') else (- windows_error_to_errno lasterr, err, s'))"

definition windows_wait_on_address8 ::
  "'s win_os \<Rightarrow> ptr \<Rightarrow> u8 \<Rightarrow> timespec option \<Rightarrow> int \<Rightarrow> 's \<Rightarrow> int \<times> int \<times> 's" where
  "windows_wait_on_address8 win obj expected =
     windows_wait_on_address win 1 obj (word_bytes 1 (ucast expected))"

definition windows_wait_on_address16 ::
  "'s win_os \<Rightarrow> ptr \<Rightarrow> u16 \<Rightarrow> timespec option \<Rightarrow> int \<Rightarrow> 's \<Rightarrow> int \<times> int \<times> 's" where
  "windows_wait_on_address16 win obj expected =
     windows_wait_on_address win 2 obj (word_bytes 2 (ucast expected))"

definition windows_wait_on_address32 ::
  "'s win_os \<Rightarrow> ptr \<Rightarrow> u32 \<Rightarrow> timespec option \<Rightarrow> int \<Rightarrow> 's \<Rightarrow> int \<times> int \<times> 's" where
  "windows_wait_on_address32 win obj expected =
     windows_wait_on_address win 4 obj (word_bytes 4 (ucast expected))"

definition windows_wait_on_address64 ::
  "'s win_os \<Rightarrow> ptr \<Rightarrow> u64 \<Rightarrow> timespec option \<Rightarrow> int \<Rightarrow> 's \<Rightarrow> int \<times> int \<times> 's" where
  "windows_wait_on_address64 win obj expected =
     windows_wait_on_address win 8 obj (word_bytes 8 expected)"

lemmas windows_waits = windows_wait_on_address8_def windows_wait_on_address16_def
  windows_wait_on_address32_def windows_wait_on_address64_def

text \<open>The wakes of the four widths are the same up to the type of the address.\<close>

definition windows_wake_by_address ::
  "'s win_os \<Rightarrow> ptr \<Rightarrow> u32 \<Rightarrow> int \<Rightarrow> 's \<Rightarrow> int \<times> int \<times> 's" where
  "windows_wake_by_address win obj max_threads_to_wake err s =
     (case win (if max_threads_to_wake = 1 then WakeByAddressSingle obj else WakeByAddressAll obj) s of
        (_, _, s') \<Rightarrow> (nominal_woken max_threads_to_wake, err, s'))"

section \<open>The contract of a wait\<close>

text \<open>Which results end the callers' loops.\<close>

definition hard_error :: "int \<Rightarrow> bool" where
  "hard_error ret2 \<longleftrightarrow> ret2 < 0 \<and> ret2 \<noteq> - EAGAIN \<and> ret2 \<noteq> - EINTR \<and> ret2 \<noteq> - ETIMEDOUT"

locale native_wait =
  fixes wait :: "'v \<Rightarrow> timespec option \<Rightarrow> int \<Rightarrow> 's \<Rightarrow> (int \<times> int \<times> 's) res"
  assumes keeps_errno: "wait v d e s = Inr (r, e', s') \<Longrightarrow> e' = e"
    and nonpositive: "wait v d e s = Inr (r, e', s') \<Longrightarrow> r \<le> 0"
    and infinite: "\<exists>r e' s'. wait v None e s = Inr (r, e', s')"
begin

lemma retry_or_error:
  assumes "wait v d e s = Inr (r, e', s')"
  shows "hard_error r \<longleftrightarrow> r \<notin> {0, - EAGAIN, - EINTR, - ETIMEDOUT}"
  using nonpositive [OF assms] by (auto simp: hard_error_def errno_defs)

end

lemma linux_wait_result:
  assumes "linux_wait_on_address32 futex clock obj v d e s = Inr (r, e', s')"
  shows "e' = e \<and> r \<le> 0"
proof -
  obtain t s1 where "linux_abstime clock d s = Inr (t, s1)"
    using assms by (auto simp: linux_wait_on_address32_def Let_def res_bind_Inr_iff)
  then show ?thesis
    using assms by (cases "futex (FUTEX_WAIT_BITSET obj (sint v) t) s1")
      (auto simp: linux_wait_on_address32_def Let_def split: if_splits)
qed

lemma linux_infinite: "\<exists>r e' s'. linux_wait_on_address32 futex clock obj v None e s = Inr (r, e', s')"
  by (simp add: linux_wait_on_address32_def linux_abstime_def Let_def split: prod.splits if_splits)

interpretation linux32: native_wait "linux_wait_on_address32 futex clock obj" for futex clock obj
  using linux_infinite by unfold_locales (auto dest: linux_wait_result)

interpretation freebsd32: native_wait "\<lambda>v d e s. Inr (freebsd_wait_on_address32 umtx obj v d e s)"
  for umtx obj
  by unfold_locales (auto simp: freebsd_wait_on_address32_def Let_def split: prod.splits if_splits)

interpretation freebsd64: native_wait "\<lambda>v d e s. Inr (freebsd_wait_on_address64 umtx obj v d e s)"
  for umtx obj
  by unfold_locales (auto simp: freebsd_wait_on_address64_def Let_def split: prod.splits if_splits)

interpretation macos32: native_wait "\<lambda>v d e s. Inr (macos_wait_on_address32 ulock obj v d e s)"
  for ulock obj
  by unfold_locales (auto simp: macos_wait_on_address32_def Let_def split: prod.splits if_splits)

interpretation macos64: native_wait "\<lambda>v d e s. Inr (macos_wait_on_address64 ulock obj v d e s)"
  for ulock obj
  by unfold_locales (auto simp: macos_wait_on_address64_def Let_def split: prod.splits if_splits)

lemma windows_error_nonneg: "0 \<le> windows_error_to_errno c"
  by (simp add: windows_error_to_errno_def errno_defs)

interpretation windows: native_wait "\<lambda>v d e s. Inr (windows_wait_on_address win n obj v d e s)"
  for win n obj
  using windows_error_nonneg
  by unfold_locales (auto simp: windows_wait_on_address_def split: prod.splits if_splits)

interpretation windows8: native_wait "\<lambda>v d e s. Inr (windows_wait_on_address8 win obj v d e s)" for win obj
  using windows_error_nonneg
  by unfold_locales (auto simp: windows_waits windows_wait_on_address_def split: prod.splits if_splits)

interpretation windows16: native_wait "\<lambda>v d e s. Inr (windows_wait_on_address16 win obj v d e s)" for win obj
  using windows_error_nonneg
  by unfold_locales (auto simp: windows_waits windows_wait_on_address_def split: prod.splits if_splits)

interpretation windows32: native_wait "\<lambda>v d e s. Inr (windows_wait_on_address32 win obj v d e s)" for win obj
  using windows_error_nonneg
  by unfold_locales (auto simp: windows_waits windows_wait_on_address_def split: prod.splits if_splits)

interpretation windows64: native_wait "\<lambda>v d e s. Inr (windows_wait_on_address64 win obj v d e s)" for win obj
  using windows_error_nonneg
  by unfold_locales (auto simp: windows_waits windows_wait_on_address_def split: prod.splits if_splits)

section \<open>Time limits\<close>

text \<open>The Linux request carries the absolute deadline and the value compared.\<close>

lemma linux_abstime_exact:
  assumes "clock s = (r, now, s1)" and "valid_ts now" and "valid_ts d"
  shows "\<exists>t. linux_abstime clock (Some d) s = Inr (Some t, s1) \<and> ns t = ns now + ns d
           \<and> 0 \<le> tv_nsec t \<and> tv_nsec t < 1000000000"
  using ts_deadline_exact [OF assms(2,3)] assms(1) by (auto simp: linux_abstime_def)

text \<open>Rounding up.\<close>

definition ceil_div :: "int \<Rightarrow> int \<Rightarrow> int" where
  "ceil_div n d = (n + d - 1) div d"

lemma ceil_div_bounds:
  assumes "0 < d"
  shows "n \<le> ceil_div n d * d \<and> ceil_div n d * d < n + d"
proof -
  have "(n + d - 1) div d * d + (n + d - 1) mod d = n + d - 1"
    by simp
  moreover have "0 \<le> (n + d - 1) mod d" "(n + d - 1) mod d < d"
    using assms by simp_all
  ultimately show ?thesis
    unfolding ceil_div_def by linarith
qed

text \<open>The number of units is computed modulo \<open>2 ^ 64\<close>.\<close>

lemma ms_word:
  assumes "0 \<le> nsec" and "nsec < 1000000000"
  shows "uint ((word_of_int sec :: u64) * 1000 + (word_of_int nsec + 999999) div 1000000) =
    ceil_div (sec * 1000000000 + nsec) 1000000 mod 2 ^ 64"
proof -
  have "uint ((word_of_int nsec + 999999 :: u64) div 1000000) = (nsec + 999999) div 1000000"
    using assms by (simp add: uint_div_distrib uint_word_ariths uint_word_of_int take_bit_eq_mod)
  moreover have "uint ((word_of_int sec :: u64) * 1000) = sec * 1000 mod 2 ^ 64"
    by (simp add: uint_word_ariths uint_word_of_int take_bit_eq_mod mod_mult_left_eq)
  moreover have "ceil_div (sec * 1000000000 + nsec) 1000000 = sec * 1000 + (nsec + 999999) div 1000000"
    unfolding ceil_div_def by simp
  ultimately show ?thesis
    by (simp add: uint_word_ariths(1) mod_simps)
qed

lemma us_word:
  assumes "0 \<le> nsec" and "nsec < 1000000000"
  shows "uint ((word_of_int sec :: u64) * 1000000 + (word_of_int nsec + 999) div 1000) =
    ceil_div (sec * 1000000000 + nsec) 1000 mod 2 ^ 64"
proof -
  have "uint ((word_of_int nsec + 999 :: u64) div 1000) = (nsec + 999) div 1000"
    using assms by (simp add: uint_div_distrib uint_word_ariths uint_word_of_int take_bit_eq_mod)
  moreover have "uint ((word_of_int sec :: u64) * 1000000) = sec * 1000000 mod 2 ^ 64"
    by (simp add: uint_word_ariths uint_word_of_int take_bit_eq_mod mod_mult_left_eq)
  moreover have "ceil_div (sec * 1000000000 + nsec) 1000 = sec * 1000000 + (nsec + 999) div 1000"
    unfolding ceil_div_def by simp
  ultimately show ?thesis
    by (simp add: uint_word_ariths(1) mod_simps)
qed

lemma uint_ucast_clamp:
  fixes x :: u64
  assumes "uint x < 2 ^ 32"
  shows "uint (ucast x :: u32) = uint x"
  using assms by (simp add: unsigned_ucast_eq take_bit_eq_mod)

lemma timeout_ms_value:
  assumes "valid_ts d"
  shows "uint (timeout_ms (Some d)) = min (ceil_div (ns d) 1000000 mod 2 ^ 64) 0xFFFFFFFE"
proof -
  let ?x = "(word_of_int (tv_sec d) :: u64) * 1000 + (word_of_int (tv_nsec d) + 999999) div 1000000"
  have x: "uint ?x = ceil_div (ns d) 1000000 mod 2 ^ 64"
    using ms_word assms by (simp add: valid_ts_def ns_def)
  show ?thesis
  proof (cases "?x \<ge> 0xFFFFFFFE")
    case True
    then show ?thesis
      using x by (simp add: timeout_ms_def word_le_def)
  next
    case False
    then have "uint ?x < 0xFFFFFFFE"
      by (simp add: word_le_def)
    then show ?thesis
      using False x uint_ucast_clamp [of ?x] by (simp add: timeout_ms_def)
  qed
qed

lemma clamp_us:
  fixes x :: u64
  defines "r \<equiv> (if x > 0xFFFFFFFF then 0xFFFFFFFF else ucast x :: u32)"
  shows "uint (if r = 0 then 1 else r) = max 1 (min (uint x) 0xFFFFFFFF)"
proof -
  have r: "uint r = min (uint x) 0xFFFFFFFF"
  proof (cases "x > 0xFFFFFFFF")
    case True
    then show ?thesis
      by (simp add: r_def word_less_def)
  next
    case False
    then have "uint x \<le> 0xFFFFFFFF"
      by (simp add: word_less_def)
    then show ?thesis
      using False uint_ucast_clamp [of x] by (simp add: r_def)
  qed
  have z: "uint r = 0" if "r = 0"
    using that by simp
  have nz: "1 \<le> uint r" if "r \<noteq> 0"
  proof -
    have "uint r \<noteq> 0"
      using that by (simp add: unsigned_eq_0_iff)
    then show ?thesis
      using uint_ge_0 [of r] by linarith
  qed
  have "uint (if r = 0 then 1 else r) = max 1 (uint r)"
    using z nz by (simp add: max_def)
  then show ?thesis
    using r by simp
qed

lemma timeout_us_value:
  assumes "valid_ts d"
  shows "uint (timeout_us (Some d)) = max 1 (min (ceil_div (ns d) 1000 mod 2 ^ 64) 0xFFFFFFFF)"
  using clamp_us us_word assms by (simp add: timeout_us_def Let_def valid_ts_def ns_def)

lemma ceil_div_small:
  assumes "0 < d" and "0 \<le> n" and "n \<le> (2 ^ 64 - 1) * d"
  shows "ceil_div n d mod 2 ^ 64 = ceil_div n d"
proof -
  have "ceil_div n d * d < n + d" "n + d \<le> 2 ^ 64 * d"
    using ceil_div_bounds [OF assms(1), of n] assms(3) by (simp_all add: algebra_simps)
  then have "ceil_div n d * d < 2 ^ 64 * d"
    by (rule less_le_trans)
  then have "ceil_div n d < 2 ^ 64"
    using assms(1) by (simp only: mult_less_cancel_right_pos)
  then show ?thesis
    using assms by (intro mod_pos_pos_trivial) (simp_all add: ceil_div_def pos_imp_zdiv_nonneg_iff)
qed

text \<open>Neither conversion turns a finite limit into an infinite one.\<close>

lemma timeout_ms_finite: "timeout_ms (Some d) \<noteq> INFINITE"
proof -
  have "(ucast x :: u32) \<noteq> INFINITE" if "\<not> x \<ge> 0xFFFFFFFE" for x :: u64
  proof
    assume e: "(ucast x :: u32) = INFINITE"
    have "uint x < 0xFFFFFFFE"
      using that by (simp add: word_le_def)
    then have "uint (ucast x :: u32) = uint x"
      by (intro uint_ucast_clamp) simp
    then show False
      using e \<open>uint x < 0xFFFFFFFE\<close> by (simp add: INFINITE_def)
  qed
  then show ?thesis
    by (auto simp: timeout_ms_def Let_def INFINITE_def)
qed

lemma timeout_us_finite: "timeout_us (Some d) \<noteq> 0"
  by (simp add: timeout_us_def Let_def)

end
