(* ===== verification/Native_Proxies.thy ===== *)
theory Native_Proxies
  imports Native_Backends Lost_Wake
begin

text \<open>
  The two levels at which the native backends occur: the proxies of \<open>Proxy_Kinds\<close>, on which the threaded
  system runs, and the functions \<open>wait_on_address32\<close> and \<open>wake_by_address32\<close> of \<open>Native_Backends\<close>, with the
  system call as a parameter. Here the system calls are any that do what their documentation says, as a
  predicate per interface, and the macros \<open>..._WAIT\<close> and \<open>..._WAKE\<close> of
  \<^verbatim>\<open>atomic_wait_common.ipp.ipp\<close> over each backend's functions are shown to be the proxy operations: the
  same result, a thread put to sleep on the counter exactly where the proxy operation blocks, the same
  number of threads unblocked on the counter and on nothing else.
\<close>

section \<open>What the interfaces document\<close>

text \<open>
  The state of an operating system as the calls see it: what is in memory at an address, the width in bits
  of the object there and how many threads are blocked on it; the error the next call meets before it does
  anything, zero for none; how a call that went to sleep ends, zero if it was woken; and a log of the
  threads put to sleep (where, comparing how many bits) and unblocked (where, how many).
\<close>

datatype kernel_event =
    Slept ptr nat
  | Unblocked ptr nat

record kern =
  memory_at :: "ptr \<Rightarrow> u64"
  width_at :: "ptr \<Rightarrow> nat"
  blocked_at :: "ptr \<Rightarrow> nat"
  fault_next :: nat
  sleep_ends :: nat
  log :: "kernel_event list"

text \<open>
  A wait that compares: an error; or a value that differs, which is answered at once with the error
  \<open>differ\<close> (zero: as a success); or the thread sleeps, and the call then succeeds or fails.
\<close>

definition wait_documented :: "bool \<Rightarrow> ptr \<Rightarrow> nat \<Rightarrow> nat \<Rightarrow> kern \<Rightarrow> int \<times> nat \<times> kern \<Rightarrow> bool" where
  "wait_documented same obj bits differ s out \<longleftrightarrow>
     (case out of (r, e, s') \<Rightarrow>
        if fault_next s \<noteq> 0 then r = - 1 \<and> e = fault_next s \<and> log s' = log s
        else if \<not> same
        then (if differ = 0 then r = 0 else r = - 1 \<and> e = differ) \<and> log s' = log s
        else (if sleep_ends s = 0 then r = 0 else r = - 1 \<and> e = sleep_ends s)
             \<and> log s' = log s @ [Slept obj bits])"

text \<open>The threads a wake on \<open>obj\<close> finds, in the queue for objects of that width.\<close>

definition sleepers_at :: "ptr \<Rightarrow> nat \<Rightarrow> kern \<Rightarrow> nat" where
  "sleepers_at obj bits s = (if width_at s obj = bits then blocked_at s obj else 0)"

text \<open>A wake of up to \<open>n\<close> threads, which reports their number or zero.\<close>

definition wake_documented :: "bool \<Rightarrow> int \<Rightarrow> ptr \<Rightarrow> nat \<Rightarrow> kern \<Rightarrow> int \<times> nat \<times> kern \<Rightarrow> bool" where
  "wake_documented reports n obj bits s out \<longleftrightarrow>
     (case out of (r, e, s') \<Rightarrow>
        if fault_next s \<noteq> 0 then r = - 1 \<and> e = fault_next s \<and> log s' = log s
        else (let k = nat (min n (int (sleepers_at obj bits s)))
              in r = (if reports then int k else 0) \<and> log s' = log s @ [Unblocked obj k]))"

text \<open>
  \<open>futex(2)\<close>: the 32-bit word at the address is compared, a different one is \<open>EAGAIN\<close>; the wake reports how
  many threads it woke.
\<close>

definition documented_futex :: "(futex_call, kern) os_call \<Rightarrow> bool" where
  "documented_futex futex \<longleftrightarrow>
     (\<forall>obj v t s. wait_documented (sint (ucast (memory_at s obj) :: u32) = v) obj 32 (nat EAGAIN) s
        (futex (FUTEX_WAIT_BITSET obj v t) s)) \<and>
     (\<forall>obj n s. 0 < n \<longrightarrow> wake_documented True n obj 32 s (futex (FUTEX_WAKE obj n) s))"

text \<open>
  \<open>_umtx_op(2)\<close>: \<open>UMTX_OP_WAIT_UINT\<close> compares 32 bits, \<open>UMTX_OP_WAIT\<close> a \<open>long\<close>; a different value returns at
  once without an error; each wake serves the queue of its width and reports nothing.
\<close>

definition documented_umtx :: "(umtx_call, kern) os_call \<Rightarrow> bool" where
  "documented_umtx umtx \<longleftrightarrow>
     (\<forall>obj v t s. wait_documented (ucast (memory_at s obj) = v) obj 32 0 s (umtx (UMTX_OP_WAIT_UINT obj v t) s)) \<and>
     (\<forall>obj v t s. wait_documented (sint (memory_at s obj) = v) obj 64 0 s (umtx (UMTX_OP_WAIT obj v t) s)) \<and>
     (\<forall>obj n s. 0 < n \<longrightarrow> wake_documented False n obj 32 s (umtx (UMTX_OP_WAKE_32BIT obj n) s)) \<and>
     (\<forall>obj n s. 0 < n \<longrightarrow> wake_documented False n obj 64 s (umtx (UMTX_OP_WAKE obj n) s))"

text \<open>
  \<open>__ulock_wait\<close> and \<open>__ulock_wake\<close>, as the comments of \<^verbatim>\<open>atomic_wait_macos.c.ipp\<close> describe them: the operation
  says how many bits are compared and which queue is woken; a wake that finds no thread answers \<open>ENOENT\<close>.
\<close>

definition ulock_wake_documented :: "bool \<Rightarrow> ptr \<Rightarrow> nat \<Rightarrow> kern \<Rightarrow> int \<times> nat \<times> kern \<Rightarrow> bool" where
  "ulock_wake_documented every obj bits s out \<longleftrightarrow>
     (case out of (r, e, s') \<Rightarrow>
        let k = sleepers_at obj bits s
        in if fault_next s \<noteq> 0 \<and> int (fault_next s) \<noteq> ENOENT then r = - 1 \<and> e = fault_next s \<and> log s' = log s
           else if k = 0 then r = - 1 \<and> int e = ENOENT \<and> log s' = log s
           else r = 0 \<and> log s' = log s @ [Unblocked obj (if every then k else 1)])"

definition documented_ulock :: "(ulock_call, kern) os_call \<Rightarrow> bool" where
  "documented_ulock ulock \<longleftrightarrow>
     (\<forall>obj v t s. wait_documented (take_bit 32 (memory_at s obj) = v) obj 32 0 s
        (ulock (ULOCK_WAIT UL_COMPARE_AND_WAIT obj v t) s)) \<and>
     (\<forall>obj v t s. wait_documented (memory_at s obj = v) obj 64 0 s
        (ulock (ULOCK_WAIT UL_COMPARE_AND_WAIT64 obj v t) s)) \<and>
     (\<forall>obj v s. ulock_wake_documented False obj 32 s (ulock (ULOCK_WAKE UL_COMPARE_AND_WAIT obj v) s)) \<and>
     (\<forall>obj v s. ulock_wake_documented True obj 32 s
        (ulock (ULOCK_WAKE (UL_COMPARE_AND_WAIT OR ULF_WAKE_ALL) obj v) s)) \<and>
     (\<forall>obj v s. ulock_wake_documented False obj 64 s (ulock (ULOCK_WAKE UL_COMPARE_AND_WAIT64 obj v) s)) \<and>
     (\<forall>obj v s. ulock_wake_documented True obj 64 s
        (ulock (ULOCK_WAKE (UL_COMPARE_AND_WAIT64 OR ULF_WAKE_ALL) obj v) s))"

text \<open>
  \<open>WaitOnAddress\<close> compares bytes and fails with a \<open>GetLastError\<close> code; the wakes take only the address and
  cannot fail.
\<close>

definition win_wait_documented :: "bool \<Rightarrow> ptr \<Rightarrow> nat \<Rightarrow> kern \<Rightarrow> bool \<times> u32 \<times> kern \<Rightarrow> bool" where
  "win_wait_documented same obj bits s out \<longleftrightarrow>
     (case out of (ok, lasterr, s') \<Rightarrow>
        if word_of_nat (fault_next s) \<noteq> (0 :: u32) then \<not> ok \<and> lasterr = word_of_nat (fault_next s) \<and> log s' = log s
        else if \<not> same then ok \<and> log s' = log s
        else (if word_of_nat (sleep_ends s) = (0 :: u32) then ok else \<not> ok \<and> lasterr = word_of_nat (sleep_ends s))
             \<and> log s' = log s @ [Slept obj bits])"

definition documented_win :: "kern win_os \<Rightarrow> bool" where
  "documented_win win \<longleftrightarrow>
     (\<forall>obj v n t s. win_wait_documented (word_bytes n (memory_at s obj) = v) obj (8 * n) s
        (win (WaitOnAddress obj v n t) s)) \<and>
     (\<forall>obj s. log (snd (snd (win (WakeByAddressSingle obj) s))) = log s @ [Unblocked obj (min 1 (blocked_at s obj))]) \<and>
     (\<forall>obj s. log (snd (snd (win (WakeByAddressAll obj) s))) = log s @ [Unblocked obj (blocked_at s obj)])"

lemmas documented_defs = documented_futex_def documented_umtx_def documented_ulock_def documented_win_def

section \<open>Agreement\<close>

text \<open>
  A function over a system call agrees with an operation of the threaded systems: it leaves errno alone; a
  wait that returns without blocking returns the same and puts nobody to sleep, one that blocks puts the
  thread to sleep on the object, comparing all of it, and returns what the sleep ends with; a wake returns
  the same and unblocks the same number of threads, on the object.
\<close>

definition wait_agrees :: "int option \<Rightarrow> int \<Rightarrow> ptr \<Rightarrow> nat \<Rightarrow> int \<Rightarrow> kern \<Rightarrow> (int \<times> int \<times> kern) res \<Rightarrow> bool" where
  "wait_agrees parks resumes obj bits err s out \<longleftrightarrow>
     (\<exists>r s'. out = Inr (r, err, s') \<and>
        (case parks of
           Some q \<Rightarrow> r = q \<and> log s' = log s
         | None \<Rightarrow> r = resumes \<and> log s' = log s @ [Slept obj bits]))"

definition unblocks :: "ptr \<Rightarrow> nat \<Rightarrow> kern \<Rightarrow> kern \<Rightarrow> bool" where
  "unblocks obj n s s' \<longleftrightarrow> log s' = log s @ [Unblocked obj n] \<or> n = 0 \<and> log s' = log s"

definition wake_agrees :: "int \<times> nat \<Rightarrow> ptr \<Rightarrow> int \<Rightarrow> kern \<Rightarrow> int \<times> int \<times> kern \<Rightarrow> bool" where
  "wake_agrees w obj err s out \<longleftrightarrow>
     (case w of (q, n) \<Rightarrow> case out of (r, e, s') \<Rightarrow> r = q \<and> e = err \<and> unblocks obj n s s')"

text \<open>The result of a comparing wait up to the point where it blocks.\<close>

definition park_result :: "int \<Rightarrow> int \<Rightarrow> bool \<Rightarrow> int option" where
  "park_result differ e same = (if e \<noteq> 0 then Some (- e) else if \<not> same then Some (- differ) else None)"

lemma park_results:
  "fst (futex_park e cnt a) = park_result EAGAIN e (a = cnt)"
  "fst (address_park e cnt a) = park_result 0 e (a = cnt)"
  by (simp_all add: futex_park_def address_park_def park_result_def)

lemma int_cast_small: "0 \<le> r \<Longrightarrow> r \<le> INT_MAX \<Longrightarrow> int_cast r = r"
  by (simp add: int_cast_def INT_MAX_def signed_of_int signed_take_bit_int_eq_self)

lemma int_cast_minus_one: "int_cast (- 1) = - 1"
  by (simp add: int_cast_def)

lemma nr_wake_pos: "m \<noteq> 0 \<Longrightarrow> 0 < nr_wake m"
  by (auto simp: nr_wake_def INT_MAX_def word_neq_0_conv word_less_def)

text \<open>From what a call documents to what the function over it returns.\<close>

lemma wait_of_documented:
  assumes "wait_documented same obj bits differ s (r, e, s')"
  shows "wait_agrees (park_result (int differ) (int (fault_next s)) same) (- int (sleep_ends s)) obj bits err s
    (Inr (if r = 0 then 0 else - int e, err, s'))"
  using assms by (auto simp: wait_documented_def wait_agrees_def park_result_def split: if_splits)

lemma sint_eq: "sint a = sint b \<longleftrightarrow> a = b"
  by (metis signed_word_eqI)

lemma futex_calls:
  fixes v :: u32
  assumes "documented_futex futex"
  shows "wait_documented (ucast (memory_at s obj) = v) obj 32 (nat EAGAIN) s (futex (FUTEX_WAIT_BITSET obj (sint v) t) s)"
    "0 < n \<Longrightarrow> wake_documented True n obj 32 s (futex (FUTEX_WAKE obj n) s)"
proof -
  have "wait_documented (sint (ucast (memory_at s obj) :: u32) = sint v) obj 32 (nat EAGAIN) s
      (futex (FUTEX_WAIT_BITSET obj (sint v) t) s)"
    using assms unfolding documented_futex_def by blast
  then show "wait_documented (ucast (memory_at s obj) = v) obj 32 (nat EAGAIN) s
      (futex (FUTEX_WAIT_BITSET obj (sint v) t) s)"
    by (simp add: sint_eq)
qed (use assms in \<open>simp add: documented_futex_def\<close>)

lemma umtx_calls:
  assumes "documented_umtx umtx"
  shows "wait_documented (ucast (memory_at s obj) = v) obj 32 0 s (umtx (UMTX_OP_WAIT_UINT obj v t) s)"
    "wait_documented (memory_at s obj = x) obj 64 0 s (umtx (UMTX_OP_WAIT obj (sint x) t) s)"
    "0 < n \<Longrightarrow> wake_documented False n obj 32 s (umtx (UMTX_OP_WAKE_32BIT obj n) s)"
    "0 < n \<Longrightarrow> wake_documented False n obj 64 s (umtx (UMTX_OP_WAKE obj n) s)"
proof -
  have "wait_documented (sint (memory_at s obj) = sint x) obj 64 0 s (umtx (UMTX_OP_WAIT obj (sint x) t) s)"
    using assms unfolding documented_umtx_def by blast
  then show "wait_documented (memory_at s obj = x) obj 64 0 s (umtx (UMTX_OP_WAIT obj (sint x) t) s)"
    by (simp add: sint_eq)
qed (use assms in \<open>simp_all add: documented_umtx_def\<close>)

lemma linux_wait_agrees:
  assumes f: "documented_futex futex" and c: "clock s = (cr, now, s)" "valid_ts now" and d: "\<And>t. d = Some t \<Longrightarrow> valid_ts t"
  shows "wait_agrees (park_result EAGAIN (int (fault_next s)) (ucast (memory_at s obj) = v)) (- int (sleep_ends s))
    obj 32 err s (linux_wait_on_address32 futex clock obj v d err s)"
proof -
  obtain t where t: "linux_abstime clock d s = Inr (t, s)"
    using linux_abstime_exact [of clock s, OF c] d c(1) by (cases d) (auto simp: linux_abstime_def)
  obtain r e s' where r: "futex (FUTEX_WAIT_BITSET obj (sint v) t) s = (r, e, s')"
    by (metis prod_cases3)
  have w: "wait_documented (ucast (memory_at s obj) = v) obj 32 (nat EAGAIN) s (r, e, s')"
    using futex_calls(1) [OF f, of s obj v t] r by simp
  then have "r = 0 \<or> r = - 1"
    by (auto simp: wait_documented_def split: if_splits)
  then have "int_cast r = r"
    by (auto simp: int_cast_minus_one int_cast_small INT_MAX_def)
  then show ?thesis
    using wait_of_documented [OF w, of err] r t
    by (auto simp: linux_wait_on_address32_def Let_def EAGAIN_def)
qed

lemma freebsd_wait_agrees:
  assumes f: "documented_umtx umtx"
  shows "wait_agrees (park_result 0 (int (fault_next s)) (ucast (memory_at s obj) = v)) (- int (sleep_ends s))
      obj 32 err s (Inr (freebsd_wait_on_address32 umtx obj v d err s))"
    "wait_agrees (park_result 0 (int (fault_next s)) (memory_at s obj = x)) (- int (sleep_ends s))
      obj 64 err s (Inr (freebsd_wait_on_address64 umtx obj x d err s))"
proof -
  obtain r e s' where r: "umtx (UMTX_OP_WAIT_UINT obj v (umtx_relative d)) s = (r, e, s')"
    by (metis prod_cases3)
  have "wait_documented (ucast (memory_at s obj) = v) obj 32 0 s (r, e, s')"
    using umtx_calls(1) [OF f, of s obj v "umtx_relative d"] r by simp
  then show "wait_agrees (park_result 0 (int (fault_next s)) (ucast (memory_at s obj) = v)) (- int (sleep_ends s))
      obj 32 err s (Inr (freebsd_wait_on_address32 umtx obj v d err s))"
    using wait_of_documented [where err = err] r by (fastforce simp: freebsd_wait_on_address32_def Let_def)
  obtain q k s1 where q: "umtx (UMTX_OP_WAIT obj (sint x) (umtx_relative d)) s = (q, k, s1)"
    by (metis prod_cases3)
  have "wait_documented (memory_at s obj = x) obj 64 0 s (q, k, s1)"
    using umtx_calls(2) [OF f, of s obj x "umtx_relative d"] q by simp
  then show "wait_agrees (park_result 0 (int (fault_next s)) (memory_at s obj = x)) (- int (sleep_ends s))
      obj 64 err s (Inr (freebsd_wait_on_address64 umtx obj x d err s))"
    using wait_of_documented [where err = err] q by (fastforce simp: freebsd_wait_on_address64_def Let_def)
qed

lemma ucast_take_bit: "(ucast v :: u32) = ucast x \<longleftrightarrow> take_bit 32 v = take_bit 32 (x :: u64)"
proof
  assume e: "take_bit 32 v = take_bit 32 x"
  have "bit (take_bit 32 v) n = bit (take_bit 32 x) n" for n
    by (simp add: e)
  then show "(ucast v :: u32) = ucast x"
    by (intro bit_word_eqI) (auto simp: bit_simps)
next
  assume e: "(ucast v :: u32) = ucast x"
  have "bit (ucast v :: u32) n = bit (ucast x :: u32) n" for n
    by (simp add: e)
  then show "take_bit 32 v = take_bit 32 x"
    by (intro bit_word_eqI) (auto simp: bit_simps)
qed

lemma take_bit_ucast: "take_bit 32 x = (ucast v :: u64) \<longleftrightarrow> ucast x = (v :: u32)"
proof -
  have "take_bit 32 (ucast v :: u64) = ucast v"
    by (rule bit_word_eqI) (auto simp: bit_simps dest: bit_imp_le_length)
  then show ?thesis
    using ucast_take_bit [of x "ucast v"] by (simp add: ucast_up_ucast_id is_up)
qed

lemma ulock_calls:
  fixes v :: u32
  assumes "documented_ulock ulock"
  shows "wait_documented (ucast (memory_at s obj) = v) obj 32 0 s (ulock (ULOCK_WAIT UL_COMPARE_AND_WAIT obj (ucast v) t) s)"
    "wait_documented (memory_at s obj = x) obj 64 0 s (ulock (ULOCK_WAIT UL_COMPARE_AND_WAIT64 obj x t) s)"
    "ulock_wake_documented (m \<noteq> 1) obj 32 s
       (ulock (ULOCK_WAKE (UL_COMPARE_AND_WAIT OR (if m = (1 :: u32) then 0 else ULF_WAKE_ALL)) obj 0) s)"
    "ulock_wake_documented (m \<noteq> 1) obj 64 s
       (ulock (ULOCK_WAKE (UL_COMPARE_AND_WAIT64 OR (if m = (1 :: u32) then 0 else ULF_WAKE_ALL)) obj 0) s)"
proof -
  have "wait_documented (take_bit 32 (memory_at s obj) = ucast v) obj 32 0 s
      (ulock (ULOCK_WAIT UL_COMPARE_AND_WAIT obj (ucast v) t) s)"
    using assms unfolding documented_ulock_def by blast
  then show "wait_documented (ucast (memory_at s obj) = v) obj 32 0 s
      (ulock (ULOCK_WAIT UL_COMPARE_AND_WAIT obj (ucast v) t) s)"
    by (simp only: take_bit_ucast)
qed (use assms in \<open>simp_all add: documented_ulock_def\<close>)

lemma macos_wait_agrees:
  assumes f: "documented_ulock ulock"
  shows "wait_agrees (park_result 0 (int (fault_next s)) (ucast (memory_at s obj) = v)) (- int (sleep_ends s))
      obj 32 err s (Inr (macos_wait_on_address32 ulock obj v d err s))"
    "wait_agrees (park_result 0 (int (fault_next s)) (memory_at s obj = x)) (- int (sleep_ends s))
      obj 64 err s (Inr (macos_wait_on_address64 ulock obj x d err s))"
proof -
  obtain r e s' where r: "ulock (ULOCK_WAIT UL_COMPARE_AND_WAIT obj (ucast v) (timeout_us d)) s = (r, e, s')"
    by (metis prod_cases3)
  have "wait_documented (ucast (memory_at s obj) = v) obj 32 0 s (r, e, s')"
    using ulock_calls(1) [OF f, of s obj v "timeout_us d"] r by simp
  then show "wait_agrees (park_result 0 (int (fault_next s)) (ucast (memory_at s obj) = v)) (- int (sleep_ends s))
      obj 32 err s (Inr (macos_wait_on_address32 ulock obj v d err s))"
    using wait_of_documented [where err = err] r by (fastforce simp: macos_wait_on_address32_def Let_def)
  obtain q k s1 where q: "ulock (ULOCK_WAIT UL_COMPARE_AND_WAIT64 obj x (timeout_us d)) s = (q, k, s1)"
    by (metis prod_cases3)
  have "wait_documented (memory_at s obj = x) obj 64 0 s (q, k, s1)"
    using ulock_calls(2) [OF f, of s obj x "timeout_us d"] q by simp
  then show "wait_agrees (park_result 0 (int (fault_next s)) (memory_at s obj = x)) (- int (sleep_ends s))
      obj 64 err s (Inr (macos_wait_on_address64 ulock obj x d err s))"
    using wait_of_documented [where err = err] q by (fastforce simp: macos_wait_on_address64_def Let_def)
qed

lemma windows_error_zero: "windows_error_to_errno c = 0 \<longleftrightarrow> c = 0"
  by (auto simp: windows_error_to_errno_def win_errors errno_defs)

lemma windows_wait_agrees:
  assumes f: "documented_win win"
  shows "wait_agrees (park_result 0 (windows_error_to_errno (word_of_nat (fault_next s))) (word_bytes n (memory_at s obj) = v))
      (- windows_error_to_errno (word_of_nat (sleep_ends s))) obj (8 * n) err s
      (Inr (windows_wait_on_address win n obj v d err s))"
proof -
  obtain ok c s' where r: "win (WaitOnAddress obj v n (timeout_ms d)) s = (ok, c, s')"
    by (metis prod_cases3)
  have "win_wait_documented (word_bytes n (memory_at s obj) = v) obj (8 * n) s (ok, c, s')"
    using f r unfolding documented_win_def by (simp add: r [symmetric])
  then show ?thesis
    using r windows_error_zero
    by (auto simp: windows_wait_on_address_def win_wait_documented_def wait_agrees_def park_result_def split: if_splits)
qed

text \<open>The wakes.\<close>

lemma linux_wake_agrees:
  assumes f: "documented_futex futex" and m: "m \<noteq> 0" and w: "width_at s obj = 32"
  shows "wake_agrees (let e = int (fault_next s); n = nat (min (nr_wake m) (int (blocked_at s obj)))
      in if e \<noteq> 0 then (- e, 0) else (int n, n)) obj err s (linux_wake_by_address32 futex obj m err s)"
proof -
  obtain r e s' where r: "futex (FUTEX_WAKE obj (nr_wake m)) s = (r, e, s')"
    by (metis prod_cases3)
  have "wake_documented True (nr_wake m) obj 32 s (r, e, s')"
    using futex_calls(2) [OF f nr_wake_pos [OF m], of obj s] r by simp
  then show ?thesis
    using r w nr_wake_bounds [of m]
    by (auto simp: wake_documented_def sleepers_at_def linux_wake_by_address32_def wake_agrees_def unblocks_def
        int_cast_small Let_def split: if_splits)
qed

lemma freebsd_wake_agrees:
  assumes f: "documented_umtx umtx" and m: "m \<noteq> 0"
  defines "w \<equiv> \<lambda>s obj. let e = int (fault_next s)
      in if e \<noteq> 0 then (- e, 0) else (nominal_woken m, nat (min (nr_wake m) (int (blocked_at s obj))))"
  shows "width_at s obj = 32 \<Longrightarrow> wake_agrees (w s obj) obj err s (freebsd_wake_by_address32 umtx obj m err s)"
    "width_at s obj = 64 \<Longrightarrow> wake_agrees (w s obj) obj err s (freebsd_wake_by_address64 umtx obj m err s)"
proof -
  obtain r e s' q k s1 where r: "umtx (UMTX_OP_WAKE_32BIT obj (nr_wake m)) s = (r, e, s')"
      "umtx (UMTX_OP_WAKE obj (nr_wake m)) s = (q, k, s1)"
    by (metis prod_cases3)
  have "wake_documented False (nr_wake m) obj 32 s (r, e, s')" "wake_documented False (nr_wake m) obj 64 s (q, k, s1)"
    using umtx_calls(3,4) [OF f nr_wake_pos [OF m], of obj s] r by simp_all
  then show "width_at s obj = 32 \<Longrightarrow> wake_agrees (w s obj) obj err s (freebsd_wake_by_address32 umtx obj m err s)"
    "width_at s obj = 64 \<Longrightarrow> wake_agrees (w s obj) obj err s (freebsd_wake_by_address64 umtx obj m err s)"
    using r by (auto simp: wake_documented_def sleepers_at_def freebsd_wake_by_address32_def freebsd_wake_by_address64_def
        wake_agrees_def unblocks_def w_def Let_def split: if_splits)
qed

lemma ulock_wake_result:
  assumes "ulock_wake_documented (m \<noteq> 1) obj bits s (r, e, s')" and "width_at s obj = bits"
  shows "wake_agrees (let x = int (fault_next s)
      in if x \<noteq> 0 \<and> x \<noteq> ENOENT then (- x, 0) else (nominal_woken m, one_or_all m (blocked_at s obj))) obj err s
    (if r \<noteq> 0 \<and> int e \<noteq> ENOENT then - int e else nominal_woken m, err, s')"
  using assms by (auto simp: ulock_wake_documented_def sleepers_at_def wake_agrees_def unblocks_def one_or_all_def
      Let_def split: if_splits)

lemma macos_wake_agrees:
  fixes m :: u32
  assumes f: "documented_ulock ulock"
  defines "w \<equiv> \<lambda>s obj. let e = int (fault_next s)
      in if e \<noteq> 0 \<and> e \<noteq> ENOENT then (- e, 0) else (nominal_woken m, one_or_all m (blocked_at s obj))"
  shows "width_at s obj = 32 \<Longrightarrow> wake_agrees (w s obj) obj err s (macos_wake_by_address32 ulock obj m err s)"
    "width_at s obj = 64 \<Longrightarrow> wake_agrees (w s obj) obj err s (macos_wake_by_address64 ulock obj m err s)"
proof -
  let ?f = "if m = 1 then 0 else ULF_WAKE_ALL"
  obtain r e s' q k s1 where r: "ulock (ULOCK_WAKE (UL_COMPARE_AND_WAIT OR ?f) obj 0) s = (r, e, s')"
      "ulock (ULOCK_WAKE (UL_COMPARE_AND_WAIT64 OR ?f) obj 0) s = (q, k, s1)"
    by (metis prod_cases3)
  have d: "ulock_wake_documented (m \<noteq> 1) obj 32 s (ulock (ULOCK_WAKE (UL_COMPARE_AND_WAIT OR ?f) obj 0) s)"
      "ulock_wake_documented (m \<noteq> 1) obj 64 s (ulock (ULOCK_WAKE (UL_COMPARE_AND_WAIT64 OR ?f) obj 0) s)"
    by (rule ulock_calls(3,4) [OF f])+
  show "width_at s obj = 32 \<Longrightarrow> wake_agrees (w s obj) obj err s (macos_wake_by_address32 ulock obj m err s)"
    using ulock_wake_result [OF d(1) [unfolded r(1)], of err] r(1)
    by (auto simp: macos_wake_by_address32_def w_def Let_def)
  show "width_at s obj = 64 \<Longrightarrow> wake_agrees (w s obj) obj err s (macos_wake_by_address64 ulock obj m err s)"
    using ulock_wake_result [OF d(2) [unfolded r(2)], of err] r(2)
    by (auto simp: macos_wake_by_address64_def w_def Let_def)
qed

lemma windows_wake_agrees:
  assumes f: "documented_win win"
  shows "wake_agrees (nominal_woken m, one_or_all m (blocked_at s obj)) obj err s (windows_wake_by_address win obj m err s)"
proof -
  obtain r e s' q k s1 where r: "win (WakeByAddressSingle obj) s = (r, e, s')" "win (WakeByAddressAll obj) s = (q, k, s1)"
    by (metis prod_cases3)
  then have "log s' = log s @ [Unblocked obj (min 1 (blocked_at s obj))]"
      "log s1 = log s @ [Unblocked obj (blocked_at s obj)]"
    using f unfolding documented_win_def by (metis snd_conv)+
  then show ?thesis
    using r by (simp add: windows_wake_by_address_def wake_agrees_def unblocks_def one_or_all_def)
qed

section \<open>The macros\<close>

text \<open>The counter of the proxy is the word at \<open>obj\<close>, \<open>&x->atomic\<close>.\<close>

definition counter_at :: "ptr \<Rightarrow> kern \<Rightarrow> u32" where
  "counter_at obj s = ucast (memory_at s obj)"

definition fetch_add_counter :: "ptr \<Rightarrow> kern \<Rightarrow> kern" where
  "fetch_add_counter obj s = s\<lparr>memory_at := (memory_at s)(obj := ucast (counter_at obj s + 1))\<rparr>"

definition wake_macro :: "(ptr \<Rightarrow> u32 \<Rightarrow> int \<Rightarrow> kern \<Rightarrow> int \<times> int \<times> kern) \<Rightarrow> ptr \<Rightarrow> u32 \<Rightarrow> int \<Rightarrow> kern \<Rightarrow>
    int \<times> int \<times> kern" where
  "wake_macro wake_by_address32 obj max_threads_to_wake err s =
     wake_by_address32 obj max_threads_to_wake err (fetch_add_counter obj s)"

definition wait_macro :: "(ptr \<Rightarrow> u32 \<Rightarrow> timespec option \<Rightarrow> int \<Rightarrow> kern \<Rightarrow> (int \<times> int \<times> kern) res) \<Rightarrow> ptr \<Rightarrow> u32 \<Rightarrow>
    timespec option \<Rightarrow> int \<Rightarrow> kern \<Rightarrow> (int \<times> int \<times> kern) res" where
  "wait_macro wait_on_address32 obj cnt timeout err s = wait_on_address32 obj cnt timeout err s"

text \<open>
  The operations of a proxy agree with the macros over a backend's functions: the wait, blocking or not, and
  the wake, which leaves the counter one higher.
\<close>

definition proxy_wait_agrees :: "u32 wait_ops \<Rightarrow> (nat \<Rightarrow> int) \<Rightarrow>
    (ptr \<Rightarrow> u32 \<Rightarrow> timespec option \<Rightarrow> int \<Rightarrow> kern \<Rightarrow> (int \<times> int \<times> kern) res) \<Rightarrow>
    ptr \<Rightarrow> u32 \<Rightarrow> timespec option \<Rightarrow> int \<Rightarrow> kern \<Rightarrow> bool" where
  "proxy_wait_agrees ops error wait obj cnt d err s \<longleftrightarrow>
     (let c = counter_at obj s; resumes = fst (px_resume ops (error (sleep_ends s)) c)
      in resumes \<noteq> None \<and>
         wait_agrees (fst (px_park ops (error (fault_next s)) cnt c)) (the resumes) obj 32 err s
           (wait_macro wait obj cnt d err s))"

definition proxy_wake_agrees :: "u32 wait_ops \<Rightarrow> (nat \<Rightarrow> int) \<Rightarrow> (ptr \<Rightarrow> u32 \<Rightarrow> int \<Rightarrow> kern \<Rightarrow> int \<times> int \<times> kern) \<Rightarrow>
    ptr \<Rightarrow> u32 \<Rightarrow> int \<Rightarrow> int \<Rightarrow> kern \<Rightarrow> bool" where
  "proxy_wake_agrees ops error wake obj m regs err s \<longleftrightarrow>
     (case px_wake ops [error (fault_next s)] m regs (blocked_at s obj) (counter_at obj s) of (r, n, c) \<Rightarrow>
        c = counter_at obj (fetch_add_counter obj s) \<and>
        wake_agrees (r, n) obj err (fetch_add_counter obj s) (wake_macro wake obj m err s))"

lemma counter_after: "counter_at obj (fetch_add_counter obj s) = counter_at obj s + 1"
  by (simp add: counter_at_def fetch_add_counter_def ucast_up_ucast_id is_up)

lemma fetch_add_frame [simp]:
  "width_at (fetch_add_counter obj s) = width_at s" "blocked_at (fetch_add_counter obj s) = blocked_at s"
  "fault_next (fetch_add_counter obj s) = fault_next s" "log (fetch_add_counter obj s) = log s"
  by (simp_all add: fetch_add_counter_def)

lemmas proxy_agrees_defs = proxy_wait_agrees_def proxy_wake_agrees_def wait_macro_def wake_macro_def counter_after
  park_results native_ops_defs futex_resume_def wake_defs os_next_def Let_def

lemma linux_proxy:
  assumes "documented_futex futex" and c: "clock s = (cr, now, s)" "valid_ts now" and d: "\<And>t. d = Some t \<Longrightarrow> valid_ts t"
  shows "proxy_wait_agrees futex_ops int (linux_wait_on_address32 futex clock) obj cnt d err s"
    "m \<noteq> 0 \<Longrightarrow> width_at s obj = 32 \<Longrightarrow>
       proxy_wake_agrees futex_ops int (linux_wake_by_address32 futex) obj m regs err s"
proof -
  show "proxy_wait_agrees futex_ops int (linux_wait_on_address32 futex clock) obj cnt d err s"
    using linux_wait_agrees [where clock = clock and s = s and obj = obj and v = cnt and err = err, OF assms(1) c d]
    by (simp add: proxy_agrees_defs counter_at_def)
  show "m \<noteq> 0 \<Longrightarrow> width_at s obj = 32 \<Longrightarrow>
      proxy_wake_agrees futex_ops int (linux_wake_by_address32 futex) obj m regs err s"
    using linux_wake_agrees [OF assms(1), of m "fetch_add_counter obj s" obj err]
    by (auto simp: proxy_agrees_defs)
qed

lemma freebsd_proxy:
  assumes "documented_umtx umtx"
  shows "proxy_wait_agrees umtx_ops int (\<lambda>obj v d e s. Inr (freebsd_wait_on_address32 umtx obj v d e s)) obj cnt d err s"
    "m \<noteq> 0 \<Longrightarrow> width_at s obj = 32 \<Longrightarrow>
       proxy_wake_agrees umtx_ops int (freebsd_wake_by_address32 umtx) obj m regs err s"
proof -
  show "proxy_wait_agrees umtx_ops int (\<lambda>obj v d e s. Inr (freebsd_wait_on_address32 umtx obj v d e s)) obj cnt d err s"
    using freebsd_wait_agrees(1) [OF assms, of s obj cnt err d] by (simp add: proxy_agrees_defs counter_at_def)
  show "m \<noteq> 0 \<Longrightarrow> width_at s obj = 32 \<Longrightarrow>
      proxy_wake_agrees umtx_ops int (freebsd_wake_by_address32 umtx) obj m regs err s"
    using freebsd_wake_agrees(1) [OF assms, of m "fetch_add_counter obj s" obj err] by (auto simp: proxy_agrees_defs)
qed

lemma macos_proxy:
  assumes "documented_ulock ulock"
  shows "proxy_wait_agrees ulock_ops int (\<lambda>obj v d e s. Inr (macos_wait_on_address32 ulock obj v d e s)) obj cnt d err s"
    "width_at s obj = 32 \<Longrightarrow>
       proxy_wake_agrees ulock_ops int (macos_wake_by_address32 ulock) obj m regs err s"
proof -
  show "proxy_wait_agrees ulock_ops int (\<lambda>obj v d e s. Inr (macos_wait_on_address32 ulock obj v d e s)) obj cnt d err s"
    using macos_wait_agrees(1) [OF assms, of s obj cnt err d] by (simp add: proxy_agrees_defs counter_at_def)
  show "width_at s obj = 32 \<Longrightarrow>
      proxy_wake_agrees ulock_ops int (macos_wake_by_address32 ulock) obj m regs err s"
    using macos_wake_agrees(1) [OF assms, of "fetch_add_counter obj s" obj m err] by (auto simp: proxy_agrees_defs)
qed

text \<open>Comparing the first bytes of two words is comparing their low bits.\<close>

lemma word_bytes_eq:
  fixes x y :: u64
  shows "word_bytes n x = word_bytes n y \<longleftrightarrow> take_bit (8 * n) x = take_bit (8 * n) y"
proof
  assume e: "word_bytes n x = word_bytes n y"
  have b: "bit x (8 * i + j) = bit y (8 * i + j)" if "i < n" "j < 8" for i j
  proof -
    have "(ucast (drop_bit (8 * i) x) :: u8) = ucast (drop_bit (8 * i) y)"
      using arg_cong [OF e, of "\<lambda>l. l ! i"] that(1) by (simp add: word_bytes_def)
    then have "bit (ucast (drop_bit (8 * i) x) :: u8) j = bit (ucast (drop_bit (8 * i) y) :: u8) j"
      by simp
    then show ?thesis
      using that(2) by (simp add: bit_simps)
  qed
  show "take_bit (8 * n) x = take_bit (8 * n) y"
  proof (rule bit_word_eqI)
    fix k
    have "bit x k = bit y k" if "k < 8 * n"
      using b [of "k div 8" "k mod 8"] that by simp
    then show "bit (take_bit (8 * n) x) k = bit (take_bit (8 * n) y) k"
      by (auto simp: bit_simps)
  qed
next
  assume e: "take_bit (8 * n) x = take_bit (8 * n) y"
  have "(ucast (drop_bit (8 * i) x) :: u8) = ucast (drop_bit (8 * i) y)" if "i < n" for i
  proof (rule bit_word_eqI)
    fix j assume "j < LENGTH(8)"
    then show "bit (ucast (drop_bit (8 * i) x) :: u8) j = bit (ucast (drop_bit (8 * i) y) :: u8) j"
      using that arg_cong [OF e, of "\<lambda>z. bit z (8 * i + j)"] by (simp add: bit_simps)
  qed
  then show "word_bytes n x = word_bytes n y"
    by (simp add: word_bytes_def)
qed

lemma word_bytes_4: "word_bytes 4 x = word_bytes 4 (ucast v) \<longleftrightarrow> (ucast x :: u32) = v"
  using ucast_take_bit [of x "ucast v"] by (simp add: word_bytes_eq ucast_up_ucast_id is_up)

lemma windows_proxy:
  assumes "documented_win win"
  shows "proxy_wait_agrees waitaddr_ops (\<lambda>n. windows_error_to_errno (word_of_nat n))
      (\<lambda>obj v d e s. Inr (windows_wait_on_address32 win obj v d e s)) obj cnt d err s"
    "proxy_wake_agrees waitaddr_ops error (windows_wake_by_address win) obj m regs err s"
proof -
  show "proxy_wait_agrees waitaddr_ops (\<lambda>n. windows_error_to_errno (word_of_nat n))
      (\<lambda>obj v d e s. Inr (windows_wait_on_address32 win obj v d e s)) obj cnt d err s"
    using windows_wait_agrees [OF assms, of s 4 obj "word_bytes 4 (ucast cnt)" err d]
    by (simp add: proxy_agrees_defs counter_at_def windows_waits word_bytes_4)
  show "proxy_wake_agrees waitaddr_ops error (windows_wake_by_address win) obj m regs err s"
    using windows_wake_agrees [OF assms, of m "fetch_add_counter obj s" obj err] by (auto simp: proxy_agrees_defs)
qed

end
