(* ===== verification/Native_Wait.thy ===== *)
theory Native_Wait
  imports Native_Backends Memory_Order
begin

text \<open>
  The functions that use the native waits directly: the loop of \<open>atomic_wait_expected_32\<close>, the
  loops of \<open>atomic_wait_1/2/4/8\<close> and \<open>atomic_notify_32\<close> (\<^verbatim>\<open>atomic_wait_common.ipp.ipp\<close>). Loads, the clock
  and the wait act on one state, in which other threads and the operating system may change
  anything between two of them. The loops may run forever, so they take fuel, one unit per turn;
  with a time limit and a clock that moves, a bound on the turns is proved.
\<close>

section \<open>Waiting with an expected value\<close>

record 's native_ops =
  nt_load :: "memory_order \<Rightarrow> 's \<Rightarrow> u32 \<times> 's"
  nt_clock :: "'s \<Rightarrow> int \<times> timespec \<times> 's"
  nt_wait :: "u32 \<Rightarrow> timespec option \<Rightarrow> int \<Rightarrow> 's \<Rightarrow> (int \<times> int \<times> 's) res"

text \<open>One turn of the loop ends with another turn or with a return: the result, the value behind
  \<open>expected\<close> and errno.\<close>

datatype 's turn =
    Again int 's
  | Return int u32 int 's

definition park_turn ::
  "'s native_ops \<Rightarrow> u32 \<Rightarrow> timespec option \<Rightarrow> int \<Rightarrow> 's \<Rightarrow> 's turn res" where
  "park_turn ops expected remaining err s =
     res_bind (nt_wait ops expected remaining err s) (\<lambda>(ret2, e, s').
       if hard_error ret2 then Inr (Return (-1) expected (- ret2) s') else Inr (Again e s'))"

definition expected_turn ::
  "'s native_ops \<Rightarrow> timespec option \<Rightarrow> timespec \<Rightarrow> memory_order \<Rightarrow> memory_order \<Rightarrow> int \<Rightarrow>
     u32 \<Rightarrow> int \<Rightarrow> int \<Rightarrow> 's \<Rightarrow> 's turn res" where
  "expected_turn ops duration end_ts success failure entry_errno expected ret err s =
     (case nt_load ops failure s of (current, s1) \<Rightarrow>
        if current \<noteq> expected then
          (let s2 = (if ret \<noteq> 0 \<and> success > failure then snd (nt_load ops success s1) else s1)
           in Inr (Return ret current entry_errno s2))
        else
          (case duration of
             None \<Rightarrow> park_turn ops expected None err s1
           | Some d \<Rightarrow>
               (case nt_clock ops s1 of (r, now, s2) \<Rightarrow>
                  res_bind (monotonic_now_posix r now) (\<lambda>now.
                    if ts_passed now end_ts then Inr (Return 0 expected ETIMEDOUT s2)
                    else res_bind (ts_remaining end_ts now) (\<lambda>rem.
                           park_turn ops expected (Some rem) err s2)))))"

fun expected_loop ::
  "nat \<Rightarrow> 's native_ops \<Rightarrow> timespec option \<Rightarrow> timespec \<Rightarrow> memory_order \<Rightarrow> memory_order \<Rightarrow> int \<Rightarrow>
     u32 \<Rightarrow> int \<Rightarrow> int \<Rightarrow> 's \<Rightarrow> (int \<times> u32 \<times> int \<times> 's) option res" where
  "expected_loop 0 ops duration end_ts success failure entry_errno expected ret err s = Inr None"
| "expected_loop (Suc n) ops duration end_ts success failure entry_errno expected ret err s =
     res_bind (expected_turn ops duration end_ts success failure entry_errno expected ret err s)
       (\<lambda>t. case t of
          Return r v e s' \<Rightarrow> Inr (Some (r, v, e, s'))
        | Again e s' \<Rightarrow>
            expected_loop n ops duration end_ts success failure entry_errno expected 1 e s')"

definition atomic_wait_expected_32 ::
  "nat \<Rightarrow> 's native_ops \<Rightarrow> u32 \<Rightarrow> timespec option \<Rightarrow> memory_order \<Rightarrow> memory_order \<Rightarrow> int \<Rightarrow> 's \<Rightarrow>
     (int \<times> u32 \<times> int \<times> 's) option res" where
  "atomic_wait_expected_32 fuel ops expected duration success failure err s =
     (case duration of
        None \<Rightarrow> expected_loop fuel ops None \<lparr>tv_sec = 0, tv_nsec = 0\<rparr> success failure err expected 0 err s
      | Some d \<Rightarrow>
          (case nt_clock ops s of (r, now, s1) \<Rightarrow>
             res_bind (monotonic_now_posix r now) (\<lambda>now.
             res_bind (ts_deadline now d) (\<lambda>end_ts.
               expected_loop fuel ops duration end_ts success failure err expected 0 err s1))))"

section \<open>Waiting without a result\<close>

text \<open>\<open>while(atomic_load_explicit(object, order) == expected) wait_on_address(object, expected, NULL)\<close>,
  for the value type of any width.\<close>

fun native_wait_loop ::
  "nat \<Rightarrow> (memory_order \<Rightarrow> 's \<Rightarrow> 'v \<times> 's) \<Rightarrow> ('v \<Rightarrow> timespec option \<Rightarrow> int \<Rightarrow> 's \<Rightarrow> (int \<times> int \<times> 's) res) \<Rightarrow>
     memory_order \<Rightarrow> 'v \<Rightarrow> int \<Rightarrow> 's \<Rightarrow> (int \<times> 's) option res" where
  "native_wait_loop 0 load wait order expected err s = Inr None"
| "native_wait_loop (Suc n) load wait order expected err s =
     (case load order s of (current, s1) \<Rightarrow>
        if current = expected then
          res_bind (wait expected None err s1) (\<lambda>(r, e, s2). native_wait_loop n load wait order expected e s2)
        else Inr (Some (err, s1)))"

section \<open>Notifying with an exchange\<close>

text \<open>
  \<open>v\<close> is the value of the object; the result is the return value, the new value of the object, the
  value behind \<open>expected\<close>, errno and the state. \<open>wake\<close> is \<open>wake_by_address32\<close> or
  \<open>atomic_notify_generic\<close> on the object.
\<close>

definition atomic_notify_32 ::
  "(u32 \<Rightarrow> int \<Rightarrow> 's \<Rightarrow> int \<times> int \<times> 's) \<Rightarrow> u32 \<Rightarrow> u32 \<Rightarrow> u32 \<Rightarrow> u32 \<Rightarrow> int \<Rightarrow> 's \<Rightarrow>
     (int \<times> u32 \<times> u32 \<times> int \<times> 's) res" where
  "atomic_notify_32 wake v expected desired max_threads_to_wake err s =
     (if max_threads_to_wake = 0 then Inr (0, v, expected, err, s)
      else if v \<noteq> expected then Inr (0, v, v, err, s)
      else
        (case wake max_threads_to_wake err s of (ret, e, s') \<Rightarrow>
           if ret < 0 then Inr (ret, desired, expected, - ret, s')
           else res_bind (c_int (1 + ret)) (\<lambda>r. Inr (r, desired, expected, e, s'))))"

section \<open>The contract of the wait\<close>

text \<open>What a return may look like; \<open>e0\<close> is errno on entry.\<close>

definition native_outcome :: "'v \<Rightarrow> timespec option \<Rightarrow> int \<Rightarrow> int \<times> 'v \<times> int \<times> 's \<Rightarrow> bool" where
  "native_outcome expected duration e0 res \<longleftrightarrow>
     (case res of (r, v, e, s) \<Rightarrow>
        r \<in> {0, 1} \<and> v \<noteq> expected \<and> e = e0
        \<or> r = 0 \<and> v = expected \<and> duration \<noteq> None \<and> e = ETIMEDOUT
        \<or> r = -1 \<and> v = expected \<and> 0 < e \<and> e \<noteq> EAGAIN \<and> e \<noteq> EINTR \<and> e \<noteq> ETIMEDOUT)"

lemma park_turn_cases:
  assumes "park_turn ops v d err s = Inr t"
  shows "\<exists>r e s'. nt_wait ops v d err s = Inr (r, e, s')
    \<and> t = (if hard_error r then Return (-1) v (- r) s' else Again e s')"
  using assms by (auto simp: park_turn_def res_bind_Inr_iff split: if_splits)

locale native_backend = native_wait "nt_wait ops" for ops :: "'s native_ops"
begin

lemma park_turn_outcome:
  assumes "park_turn ops v d err s = Inr t"
  shows "(\<exists>s'. t = Again err s') \<or> (\<exists>e s'. t = Return (-1) v e s' \<and> 0 < e \<and> e \<noteq> EAGAIN
    \<and> e \<noteq> EINTR \<and> e \<noteq> ETIMEDOUT)"
  using park_turn_cases [OF assms] keeps_errno [of v d err s]
  by (fastforce simp: hard_error_def split: if_splits)

lemma turn_outcome:
  assumes st: "expected_turn ops duration end_ts success failure e0 v ret err s = Inr t"
    and ret: "ret \<in> {0, 1}"
  shows "(\<exists>s'. t = Again err s') \<or>
    (\<exists>r w e s'. t = Return r w e s' \<and> native_outcome v duration e0 (r, w, e, s'))"
proof (cases "fst (nt_load ops failure s) = v")
  case False
  then show ?thesis
    using st ret by (auto simp: expected_turn_def native_outcome_def Let_def split: prod.splits)
next
  case True
  obtain s1 where s1: "nt_load ops failure s = (v, s1)"
    using True by (metis prod.collapse)
  show ?thesis
  proof (cases duration)
    case None
    then have "park_turn ops v None err s1 = Inr t"
      using st s1 by (simp add: expected_turn_def)
    then show ?thesis
      using park_turn_outcome by (fastforce simp: native_outcome_def)
  next
    case (Some d)
    obtain c now s2 where c: "nt_clock ops s1 = (c, now, s2)"
      by (metis prod_cases3)
    then consider "t = Return 0 v ETIMEDOUT s2" | r where "park_turn ops v (Some r) err s2 = Inr t"
      using st s1 Some by (auto simp: expected_turn_def res_bind_Inr_iff split: if_splits)
    then show ?thesis
    proof cases
      case 2
      then show ?thesis
        using park_turn_outcome by (fastforce simp: native_outcome_def)
    qed (use Some in \<open>simp add: native_outcome_def\<close>)
  qed
qed

lemma loop_outcome:
  assumes "expected_loop n ops duration end_ts success failure e0 v ret err s = Inr (Some res)"
    and "ret \<in> {0, 1}"
  shows "native_outcome v duration e0 res"
  using assms
proof (induction n arbitrary: ret err s)
  case (Suc n)
  then obtain t where t: "expected_turn ops duration end_ts success failure e0 v ret err s = Inr t"
    by (auto simp: res_bind_Inr_iff)
  consider s' where "t = Again err s'"
    | r w e s' where "t = Return r w e s'" "native_outcome v duration e0 (r, w, e, s')"
    using turn_outcome [OF t Suc.prems(2)] by blast
  then show ?case
    using Suc.prems(1) t Suc.IH [of 1] by cases auto
qed simp

lemma expected_outcome:
  assumes "atomic_wait_expected_32 fuel ops v duration success failure err s = Inr (Some res)"
  shows "native_outcome v duration err res"
proof (cases duration)
  case None
  then show ?thesis
    using assms loop_outcome [of fuel None] by (simp add: atomic_wait_expected_32_def)
next
  case (Some d)
  obtain c now s1 where "nt_clock ops s = (c, now, s1)"
    by (metis prod_cases3)
  then obtain end_ts where
      "expected_loop fuel ops duration end_ts success failure err v 0 err s1 = Inr (Some res)"
    using assms Some by (auto simp: atomic_wait_expected_32_def res_bind_Inr_iff)
  then show ?thesis
    by (rule loop_outcome) simp
qed

end

text \<open>The four platforms; the clock and the loads are those of the process.\<close>

definition linux_ops ::
  "(memory_order \<Rightarrow> 's \<Rightarrow> u32 \<times> 's) \<Rightarrow> ('s \<Rightarrow> int \<times> timespec \<times> 's) \<Rightarrow> (futex_call, 's) os_call \<Rightarrow> ptr \<Rightarrow>
     's native_ops" where
  "linux_ops load clock futex obj =
     \<lparr>nt_load = load, nt_clock = clock,
      nt_wait = linux_wait_on_address32 futex clock obj\<rparr>"

definition freebsd_ops ::
  "(memory_order \<Rightarrow> 's \<Rightarrow> u32 \<times> 's) \<Rightarrow> ('s \<Rightarrow> int \<times> timespec \<times> 's) \<Rightarrow> (umtx_call, 's) os_call \<Rightarrow> ptr \<Rightarrow>
     's native_ops" where
  "freebsd_ops load clock umtx obj =
     \<lparr>nt_load = load, nt_clock = clock,
      nt_wait = (\<lambda>v d e s. Inr (freebsd_wait_on_address32 umtx obj v d e s))\<rparr>"

definition macos_ops ::
  "(memory_order \<Rightarrow> 's \<Rightarrow> u32 \<times> 's) \<Rightarrow> ('s \<Rightarrow> int \<times> timespec \<times> 's) \<Rightarrow> (ulock_call, 's) os_call \<Rightarrow> ptr \<Rightarrow>
     's native_ops" where
  "macos_ops load clock ulock obj =
     \<lparr>nt_load = load, nt_clock = clock,
      nt_wait = (\<lambda>v d e s. Inr (macos_wait_on_address32 ulock obj v d e s))\<rparr>"

definition windows_ops ::
  "(memory_order \<Rightarrow> 's \<Rightarrow> u32 \<times> 's) \<Rightarrow> ('s \<Rightarrow> int \<times> timespec \<times> 's) \<Rightarrow> 's win_os \<Rightarrow> ptr \<Rightarrow>
     's native_ops" where
  "windows_ops load clock win obj =
     \<lparr>nt_load = load, nt_clock = clock,
      nt_wait = (\<lambda>v d e s. Inr (windows_wait_on_address32 win obj v d e s))\<rparr>"

interpretation linux: native_backend "linux_ops load clock futex obj" for load clock futex obj
  using linux_infinite by unfold_locales (auto simp: linux_ops_def dest: linux_wait_result)

interpretation freebsd: native_backend "freebsd_ops load clock umtx obj" for load clock umtx obj
  by unfold_locales (auto simp: freebsd_ops_def dest: freebsd32.keeps_errno [simplified] freebsd32.nonpositive [simplified]
      intro: freebsd32.infinite [simplified])

interpretation macos: native_backend "macos_ops load clock ulock obj" for load clock ulock obj
  by unfold_locales (auto simp: macos_ops_def dest: macos32.keeps_errno [simplified] macos32.nonpositive [simplified]
      intro: macos32.infinite [simplified])

interpretation win: native_backend "windows_ops load clock w obj" for load clock w obj
  by unfold_locales (auto simp: windows_ops_def dest: windows32.keeps_errno [simplified] windows32.nonpositive [simplified]
      intro: windows32.infinite [simplified])

section \<open>A time limit is kept\<close>

text \<open>
  Time as the process sees it: \<open>T\<close> reads the monotonic clock off the state. Loads and clock readings
  do not turn it back, a clock reading succeeds and returns it, and up to the horizon \<open>B\<close> a wait
  takes time.
\<close>

definition ticking :: "'s native_ops \<Rightarrow> ('s \<Rightarrow> int) \<Rightarrow> int \<Rightarrow> bool" where
  "ticking ops T B \<longleftrightarrow>
     (\<forall>x s. T s \<le> T (snd (nt_load ops x s))) \<and>
     (\<forall>s. \<exists>now s'. nt_clock ops s = (0, now, s') \<and> valid_ts now \<and> ns now = T s' \<and> T s \<le> T s') \<and>
     (\<forall>v d e s. pred_option valid_ts d \<and> T s < B \<longrightarrow>
        (\<exists>r e' s'. nt_wait ops v d e s = Inr (r, e', s') \<and> T s < T s'))"

text \<open>One turn of a timed wait: it returns, in time or with the deadline passed, or time went on.\<close>

lemma timed_turn:
  assumes tick: "ticking ops T B" and B: "ns end_ts \<le> B" and t0: "t0 \<le> T s"
    and e: "ns end_ts = t0 + ns d" "0 \<le> tv_sec end_ts" "tv_sec end_ts < 2 ^ 63"
      "0 \<le> tv_nsec end_ts" "tv_nsec end_ts < 1000000000" and d: "valid_ts d"
  shows "\<exists>t. expected_turn ops (Some d) end_ts success failure e0 v ret err s = Inr t
    \<and> (case t of Return r w x s' \<Rightarrow> w = v \<and> x = ETIMEDOUT \<and> r = 0 \<longrightarrow> ns end_ts \<le> T s'
       | Again x s' \<Rightarrow> T s < T s' \<and> T s < ns end_ts)"
proof -
  obtain c s1 where s1: "nt_load ops failure s = (c, s1)"
    by (metis surj_pair)
  then have le1: "T s \<le> T s1"
    using tick unfolding ticking_def by (metis snd_conv)
  show ?thesis
  proof (cases "c = v")
    case False
    then show ?thesis
      using s1 by (auto simp: expected_turn_def Let_def)
  next
    case True
    obtain now s2 where s2: "nt_clock ops s1 = (0, now, s2)" "valid_ts now" "ns now = T s2" "T s1 \<le> T s2"
      using tick unfolding ticking_def by metis
    have pass: "ts_passed now end_ts \<longleftrightarrow> ns end_ts \<le> T s2"
      using ts_passed_ns [of now end_ts] s2(2,3) e by (simp add: valid_ts_def)
    show ?thesis
    proof (cases "ts_passed now end_ts")
      case p: True
      then show ?thesis
        using s1 s2 True pass by (simp add: expected_turn_def monotonic_now_posix_def)
    next
      case np: False
      then obtain rem where rem: "ts_remaining end_ts now = Inr rem" "ns rem = ns end_ts - ns now"
          "0 \<le> tv_sec rem" "0 \<le> tv_nsec rem" "tv_nsec rem < 1000000000"
        using ts_remaining_exact [OF s2(2) e(2-5)] by blast
      have "ns rem \<le> ns d"
        using rem(2) e(1) t0 le1 s2(3,4) by simp
      then have "tv_sec rem \<le> tv_sec d"
        using rem(4) d unfolding ns_def valid_ts_def by linarith
      then have "valid_ts rem"
        using rem d by (simp add: valid_ts_def)
      moreover have "T s2 < B"
        using np pass B by simp
      ultimately obtain r x s3 where w: "nt_wait ops v (Some rem) err s2 = Inr (r, x, s3)" "T s2 < T s3"
        using tick unfolding ticking_def by (metis option.pred_inject(2))
      have "park_turn ops v (Some rem) err s2 =
          Inr (if hard_error r then Return (-1) v (- r) s3 else Again x s3)"
        using w by (simp add: park_turn_def)
      then show ?thesis
        using s1 s2 True np pass rem(1) w(2) le1
        by (auto simp: expected_turn_def monotonic_now_posix_def)
    qed
  qed
qed

lemma timed_loop:
  assumes tick: "ticking ops T B" and B: "ns end_ts \<le> B" and d: "valid_ts d"
    and e: "ns end_ts = t0 + ns d" "0 \<le> tv_sec end_ts" "tv_sec end_ts < 2 ^ 63"
      "0 \<le> tv_nsec end_ts" "tv_nsec end_ts < 1000000000"
    and t0: "t0 \<le> T s" and n: "ns end_ts - T s < int n" "0 < n"
  shows "\<exists>r w x s'. expected_loop n ops (Some d) end_ts success failure e0 v ret err s = Inr (Some (r, w, x, s'))
    \<and> (w = v \<and> x = ETIMEDOUT \<and> r = 0 \<longrightarrow> ns end_ts \<le> T s')"
  using t0 n
proof (induction n arbitrary: ret err s)
  case (Suc n)
  obtain t where t: "expected_turn ops (Some d) end_ts success failure e0 v ret err s = Inr t"
      "case t of Return r w x s' \<Rightarrow> w = v \<and> x = ETIMEDOUT \<and> r = 0 \<longrightarrow> ns end_ts \<le> T s'
       | Again x s' \<Rightarrow> T s < T s' \<and> T s < ns end_ts"
    using timed_turn [OF tick B Suc.prems(1) e d] by blast
  show ?case
  proof (cases t)
    case (Again x s')
    then show ?thesis
      using t Suc.IH [of s' 1 x] Suc.prems by auto
  next
    case (Return r w x s')
    then show ?thesis
      using t by auto
  qed
qed simp

text \<open>A timed wait returns within one turn per nanosecond of its limit, and never times out early.\<close>

theorem timed_wait:
  assumes tick: "ticking ops T B" and B: "T (snd (snd (nt_clock ops s))) + ns d \<le> B"
    and d: "valid_ts d" and fuel: "nat (ns d) < fuel"
  shows "\<exists>r w x s'. atomic_wait_expected_32 fuel ops v (Some d) success failure err s = Inr (Some (r, w, x, s'))
    \<and> (w = v \<and> x = ETIMEDOUT \<and> r = 0 \<longrightarrow> T s + ns d \<le> T s')"
proof -
  obtain now s1 where c: "nt_clock ops s = (0, now, s1)" "valid_ts now" "ns now = T s1" "T s \<le> T s1"
    using tick unfolding ticking_def by metis
  obtain end_ts where e: "ts_deadline now d = Inr end_ts" "ns end_ts = T s1 + ns d" "0 \<le> tv_sec end_ts"
      "tv_sec end_ts < 2 ^ 63" "0 \<le> tv_nsec end_ts" "tv_nsec end_ts < 1000000000"
    using ts_deadline_exact [OF c(2) d] c(3) by auto
  have "\<exists>r w x s'. expected_loop fuel ops (Some d) end_ts success failure err v 0 err s1 = Inr (Some (r, w, x, s'))
    \<and> (w = v \<and> x = ETIMEDOUT \<and> r = 0 \<longrightarrow> ns end_ts \<le> T s')"
    using fuel e(2) B c(1) by (intro timed_loop [OF tick _ d e(2-6)]) simp_all
  then show ?thesis
    using c e by (auto simp: atomic_wait_expected_32_def monotonic_now_posix_def)
qed

section \<open>The plain wait and the notification\<close>

text \<open>
  The state before the load of turn \<open>n\<close>, as long as every load so far saw the expected value.
\<close>

fun turn_state ::
  "(memory_order \<Rightarrow> 's \<Rightarrow> 'v \<times> 's) \<Rightarrow> ('v \<Rightarrow> timespec option \<Rightarrow> int \<Rightarrow> 's \<Rightarrow> (int \<times> int \<times> 's) res) \<Rightarrow>
     memory_order \<Rightarrow> 'v \<Rightarrow> int \<Rightarrow> nat \<Rightarrow> 's \<Rightarrow> 's" where
  "turn_state load wait order v err 0 s = s"
| "turn_state load wait order v err (Suc n) s =
     (case wait v None err (snd (load order s)) of
        Inl e \<Rightarrow> s
      | Inr (r, e, s1) \<Rightarrow> turn_state load wait order v err n s1)"

context native_wait
begin

lemma loop_turn:
  assumes "fst (load order s) = v"
  shows "\<exists>s1. native_wait_loop (Suc k) load wait order v err s = native_wait_loop k load wait order v err s1
    \<and> (\<forall>n. turn_state load wait order v err (Suc n) s = turn_state load wait order v err n s1)"
proof -
  obtain r e s1 where w: "wait v None err (snd (load order s)) = Inr (r, e, s1)"
    using infinite by blast
  then have "e = err"
    by (rule keeps_errno)
  then show ?thesis
    using w assms by (cases "load order s") auto
qed

text \<open>It returns at the first load of another value, with errno as it was.\<close>

lemma loop_returns:
  assumes "\<forall>i<n. fst (load order (turn_state load wait order v err i s)) = v"
    and "load order (turn_state load wait order v err n s) = (w, s')" and "w \<noteq> v" and "n < fuel"
  shows "native_wait_loop fuel load wait order v err s = Inr (Some (err, s'))"
  using assms
proof (induction n arbitrary: s fuel)
  case 0
  then show ?case
    by (cases fuel) simp_all
next
  case (Suc n)
  obtain k where k: "fuel = Suc k" "n < k"
    using Suc.prems(4) by (cases fuel) auto
  have "fst (load order s) = v"
    using Suc.prems(1) by (metis turn_state.simps(1) zero_less_Suc)
  then obtain s1 where s1: "native_wait_loop (Suc k) load wait order v err s = native_wait_loop k load wait order v err s1"
      "\<And>n. turn_state load wait order v err (Suc n) s = turn_state load wait order v err n s1"
    using loop_turn by blast
  have "\<forall>i<n. fst (load order (turn_state load wait order v err i s1)) = v"
    using Suc.prems(1) s1(2) by (metis Suc_mono)
  then show ?case
    using Suc.IH [of s1 k] Suc.prems(2,3) s1 k by simp
qed

text \<open>It is still running when every load so far saw the expected value.\<close>

lemma loop_runs:
  assumes "\<forall>i<fuel. fst (load order (turn_state load wait order v err i s)) = v"
  shows "native_wait_loop fuel load wait order v err s = Inr None"
  using assms
proof (induction fuel arbitrary: s)
  case (Suc k)
  have "fst (load order s) = v"
    using Suc.prems by (metis turn_state.simps(1) zero_less_Suc)
  then obtain s1 where s1: "native_wait_loop (Suc k) load wait order v err s = native_wait_loop k load wait order v err s1"
      "\<And>n. turn_state load wait order v err (Suc n) s = turn_state load wait order v err n s1"
    using loop_turn by blast
  then show ?case
    using Suc.IH [of s1] Suc.prems by (metis Suc_mono)
qed simp

end

text \<open>
  The same for \<open>atomic_wait_expected_32\<close> without a time limit. A turn goes on if its load sees the expected
  value and its wait does not fail hard.
\<close>

definition goes_on :: "'s native_ops \<Rightarrow> memory_order \<Rightarrow> u32 \<Rightarrow> int \<Rightarrow> 's \<Rightarrow> bool" where
  "goes_on ops failure v err s \<longleftrightarrow>
     (case nt_load ops failure s of (w, s1) \<Rightarrow>
        w = v \<and> (case nt_wait ops v None err s1 of Inl f \<Rightarrow> False | Inr (q, e, s2) \<Rightarrow> \<not> hard_error q))"

abbreviation turn_start :: "'s native_ops \<Rightarrow> memory_order \<Rightarrow> u32 \<Rightarrow> int \<Rightarrow> nat \<Rightarrow> 's \<Rightarrow> 's" where
  "turn_start ops failure v err i s \<equiv> turn_state (nt_load ops) (nt_wait ops) failure v err i s"

text \<open>The end of the wait in a turn that does not go on; \<open>n\<close> turns came before it.\<close>

definition ends_with :: "'s native_ops \<Rightarrow> memory_order \<Rightarrow> memory_order \<Rightarrow> u32 \<Rightarrow> int \<Rightarrow> nat \<Rightarrow> 's \<Rightarrow>
    int \<times> u32 \<times> int \<times> 's \<Rightarrow> bool" where
  "ends_with ops success failure v err n s res \<longleftrightarrow>
     (case nt_load ops failure s of (w, s1) \<Rightarrow>
        if w \<noteq> v
        then res = (if n = 0 then 0 else 1, w, err,
                    if n \<noteq> 0 \<and> failure < success then snd (nt_load ops success s1) else s1)
        else (\<exists>q e s2. nt_wait ops v None err s1 = Inr (q, e, s2) \<and> hard_error q \<and> res = (- 1, v, - q, s2)))"

context native_backend
begin

lemma goes_on_turn:
  assumes "goes_on ops failure v err s"
  shows "\<exists>s1. expected_turn ops None end_ts success failure e0 v ret err s = Inr (Again err s1)
    \<and> (\<forall>n. turn_start ops failure v err (Suc n) s = turn_start ops failure v err n s1)"
proof -
  obtain s0 q e s1 where l: "nt_load ops failure s = (v, s0)" "nt_wait ops v None err s0 = Inr (q, e, s1)" "\<not> hard_error q"
    using assms by (auto simp: goes_on_def split: prod.splits sum.splits)
  then have "e = err"
    using keeps_errno by blast
  then show ?thesis
    using l by (intro exI [of _ s1]) (simp add: expected_turn_def park_turn_def)
qed

lemma untimed_skip:
  assumes "\<forall>i<n. goes_on ops failure v err (turn_start ops failure v err i s)"
  shows "expected_loop (n + k) ops None end_ts success failure e0 v ret err s =
    expected_loop k ops None end_ts success failure e0 v (if n = 0 then ret else 1) err (turn_start ops failure v err n s)"
  using assms
proof (induction n arbitrary: ret s)
  case (Suc n)
  have "goes_on ops failure v err s"
    using Suc.prems by (metis turn_state.simps(1) zero_less_Suc)
  then obtain s1 where s1: "expected_turn ops None end_ts success failure e0 v ret err s = Inr (Again err s1)"
      "\<And>n. turn_start ops failure v err (Suc n) s = turn_start ops failure v err n s1"
    using goes_on_turn by blast
  have "\<forall>i<n. goes_on ops failure v err (turn_start ops failure v err i s1)"
    using Suc.prems s1(2) by (metis Suc_mono)
  then show ?case
    using Suc.IH [of s1 1] s1 by simp
qed simp

lemma untimed_stop:
  assumes "\<not> goes_on ops failure v err s"
  shows "\<exists>res. expected_loop (Suc k) ops None end_ts success failure err v (if n = 0 then 0 else 1) err s = Inr (Some res)
    \<and> ends_with ops success failure v err n s res"
proof -
  obtain w s1 where l: "nt_load ops failure s = (w, s1)"
    by (metis surj_pair)
  obtain q e s2 where q: "nt_wait ops v None err s1 = Inr (q, e, s2)"
    using infinite by blast
  show ?thesis
    using assms l q
    by (auto simp: goes_on_def ends_with_def expected_turn_def park_turn_def Let_def split: if_splits)
qed

lemma untimed_wait:
  "atomic_wait_expected_32 fuel ops v None success failure err s = Inr None
     \<and> (\<forall>i<fuel. goes_on ops failure v err (turn_start ops failure v err i s))
   \<or> (\<exists>n<fuel. \<exists>res. (\<forall>i<n. goes_on ops failure v err (turn_start ops failure v err i s))
        \<and> atomic_wait_expected_32 fuel ops v None success failure err s = Inr (Some res)
        \<and> ends_with ops success failure v err n (turn_start ops failure v err n s) res)"
proof (cases "\<forall>i<fuel. goes_on ops failure v err (turn_start ops failure v err i s)")
  case True
  then show ?thesis
    using untimed_skip [OF True, where k = 0] by (simp add: atomic_wait_expected_32_def)
next
  case False
  let ?on = "\<lambda>i. goes_on ops failure v err (turn_start ops failure v err i s)"
  define n where "n = (LEAST i. \<not> ?on i)"
  obtain j where j: "j < fuel" "\<not> ?on j"
    using False by blast
  have n: "\<not> ?on n" "n \<le> j" "\<forall>i<n. ?on i"
    using LeastI [of "\<lambda>i. \<not> ?on i", OF j(2)] Least_le [of "\<lambda>i. \<not> ?on i", OF j(2)] not_less_Least
    unfolding n_def by blast+
  obtain k where k: "fuel = n + Suc k"
    using n(2) j(1) less_iff_Suc_add [of n fuel] by auto
  show ?thesis
    using untimed_skip [OF n(3), where k = "Suc k" and ret = 0] untimed_stop [OF n(1), of k _ success n] n(3) k
    by (intro disjI2 exI [of _ n]) (simp add: atomic_wait_expected_32_def)
qed

end

text \<open>A wake that keeps errno and reports a count below \<open>INT_MAX\<close> or a negated errno value.\<close>

locale native_wake =
  fixes wake :: "u32 \<Rightarrow> int \<Rightarrow> 's \<Rightarrow> int \<times> int \<times> 's"
  assumes wake_keeps_errno: "fst (snd (wake m e s)) = e"
    and wake_bound: "fst (wake m e s) < INT_MAX"
begin

lemma notify_cases:
  "\<exists>r v' x e s'. atomic_notify_32 wake v expected desired m err s = Inr (r, v', x, e, s') \<and>
     (if m = 0 then r = 0 \<and> v' = v \<and> x = expected \<and> e = err \<and> s' = s
      else if v \<noteq> expected then r = 0 \<and> v' = v \<and> x = v \<and> e = err \<and> s' = s
      else v' = desired \<and> x = expected \<and> s' = snd (snd (wake m err s)) \<and>
        (0 < r \<and> r = 1 + fst (wake m err s) \<and> e = err
         \<or> r < 0 \<and> r = fst (wake m err s) \<and> e = - r))"
proof (cases "m = 0 \<or> v \<noteq> expected")
  case True
  then show ?thesis
    by (auto simp: atomic_notify_32_def)
next
  case False
  obtain r e s' where w: "wake m err s = (r, e, s')"
    by (metis prod_cases3)
  then have "e = err" "r < INT_MAX"
    using wake_keeps_errno [of m err s] wake_bound [of m err s] by simp_all
  then show ?thesis
    using False w by (auto simp: atomic_notify_32_def c_int_def INT_MAX_def INT_MIN_def)
qed

end

text \<open>The backends that report a nominal count meet it; windows cannot fail.\<close>

lemma nominal_woken_bounds: "0 < nominal_woken m \<and> nominal_woken m < INT_MAX"
  by (simp add: nominal_woken_def INT_MAX_def)

interpretation win_wake: native_wake "windows_wake_by_address w obj" for w obj
  using nominal_woken_bounds
  by unfold_locales (auto simp: windows_wake_by_address_def split: prod.splits)

lemma count_or_error: "n < INT_MAX \<Longrightarrow> - int e < INT_MAX"
  by (simp add: INT_MAX_def)

interpretation freebsd_wake32: native_wake "freebsd_wake_by_address32 umtx obj" for umtx obj
  using nominal_woken_bounds count_or_error
  by unfold_locales (auto simp: freebsd_wake_by_address32_def Let_def split: prod.splits)

interpretation freebsd_wake64: native_wake "freebsd_wake_by_address64 umtx obj" for umtx obj
  using nominal_woken_bounds count_or_error
  by unfold_locales (auto simp: freebsd_wake_by_address64_def Let_def split: prod.splits)

interpretation macos_wake32: native_wake "macos_wake_by_address32 ulock obj" for ulock obj
  using nominal_woken_bounds count_or_error
  by unfold_locales (auto simp: macos_wake_by_address32_def Let_def split: prod.splits)

interpretation macos_wake64: native_wake "macos_wake_by_address64 ulock obj" for ulock obj
  using nominal_woken_bounds count_or_error
  by unfold_locales (auto simp: macos_wake_by_address64_def Let_def split: prod.splits)

text \<open>The count Linux reports is the kernel's, which is small as long as there are few threads.\<close>

lemma linux_native_wake:
  assumes few: "\<And>c s. fst (futex c s) < INT_MAX"
  shows "native_wake (linux_wake_by_address32 futex obj)"
proof
  fix m e s
  obtain r x s' where f: "futex (FUTEX_WAKE obj (nr_wake m)) s = (r, x, s')"
    by (metis prod_cases3)
  then have r: "r < INT_MAX"
    using few [of "FUTEX_WAKE obj (nr_wake m)" s] by simp
  have "int_cast r = r" if "0 \<le> r"
    using that r by (simp add: int_cast_def INT_MAX_def signed_of_int signed_take_bit_int_eq_self)
  then show "fst (linux_wake_by_address32 futex obj m e s) < INT_MAX"
    using f r count_or_error by (simp add: linux_wake_by_address32_def Let_def)
  show "fst (snd (linux_wake_by_address32 futex obj m e s)) = e"
    using f by (simp add: linux_wake_by_address32_def Let_def)
qed

section \<open>Small operating systems\<close>

text \<open>A state that counts the waits: the object holds the count.\<close>

definition count_load :: "memory_order \<Rightarrow> nat \<Rightarrow> u32 \<times> nat" where
  "count_load x s = (of_nat s, s)"

definition count_clock :: "nat \<Rightarrow> int \<times> timespec \<times> nat" where
  "count_clock s = (0, \<lparr>tv_sec = 0, tv_nsec = 0\<rparr>, s)"

definition count_futex :: "(futex_call, nat) os_call" where
  "count_futex c s = (0, 0, Suc s)"

definition count_ops :: "nat native_ops" where
  "count_ops = linux_ops count_load count_clock count_futex 4096"

text \<open>A state that counts nanoseconds, up to a tenth of a second; no wait ever sees a change.\<close>

definition tick_time :: "nat \<Rightarrow> int" where
  "tick_time s = min (int s) 100000000"

definition tick_clock :: "nat \<Rightarrow> int \<times> timespec \<times> nat" where
  "tick_clock s = (0, \<lparr>tv_sec = 0, tv_nsec = tick_time s\<rparr>, s)"

definition tick_ops :: "nat native_ops" where
  "tick_ops = freebsd_ops (\<lambda>x s. (0, s)) tick_clock (\<lambda>c s. (-1, 60, Suc s)) 4096"

lemma tick_ops_ticking: "ticking tick_ops tick_time 100000000"
proof -
  have "valid_ts \<lparr>tv_sec = 0, tv_nsec = tick_time s\<rparr>" for s
    by (auto simp: valid_ts_def tick_time_def)
  then show ?thesis
    by (auto simp: ticking_def tick_ops_def freebsd_ops_def tick_clock_def tick_time_def ns_def
        freebsd_wait_on_address32_def min_def)
qed

end
