(* ===== verification/Wait_API.thy ===== *)
theory Wait_API
  imports Wait_System Native_Wait Configuration
begin

text \<open>
  The public interface: the width-specific functions of \<^verbatim>\<open>atomic_wait_common.ipp.ipp\<close>, the macros of
  \<^verbatim>\<open>atomic_wait.h\<close> that dispatch on \<open>sizeof(*object)\<close>. A function is
  modelled by the call it makes: natively on the object, or to the generic machine of
  \<open>Wait_Generic\<close>. Values are laid out in memory in little-endian order.
\<close>

section \<open>Functions of the backends\<close>

text \<open>
  The \<open>wait_on_address\<close> and \<open>wake_by_address\<close> functions a backend defines, by the number of bits; the system
  interfaces, the clock and the loads of the process are parameters. Values are passed as the low
  bits of 64-bit words.
\<close>

record 's kernel =
  sys_futex :: "(futex_call, 's) os_call"
  sys_umtx :: "(umtx_call, 's) os_call"
  sys_ulock :: "(ulock_call, 's) os_call"
  sys_win :: "'s win_os"
  sys_clock :: "'s \<Rightarrow> int \<times> timespec \<times> 's"
  sys_load :: "nat \<Rightarrow> ptr \<Rightarrow> memory_order \<Rightarrow> 's \<Rightarrow> u64 \<times> 's"

type_synonym 's wait_fn = "u64 \<Rightarrow> timespec option \<Rightarrow> int \<Rightarrow> 's \<Rightarrow> (int \<times> int \<times> 's) res"
type_synonym 's wake_fn = "u32 \<Rightarrow> int \<Rightarrow> 's \<Rightarrow> int \<times> int \<times> 's"

fun wait_on_address :: "'s kernel \<Rightarrow> backend \<Rightarrow> nat \<Rightarrow> ptr \<Rightarrow> 's wait_fn option" where
  "wait_on_address os Linux bits obj =
     (if bits = 32 then Some (\<lambda>v. linux_wait_on_address32 (sys_futex os) (sys_clock os) obj (ucast v))
      else None)"
| "wait_on_address os FreeBSD bits obj =
     (if bits = 32 then Some (\<lambda>v d e s. Inr (freebsd_wait_on_address32 (sys_umtx os) obj (ucast v) d e s))
      else if bits = 64 then Some (\<lambda>v d e s. Inr (freebsd_wait_on_address64 (sys_umtx os) obj v d e s))
      else None)"
| "wait_on_address os MacOS bits obj =
     (if bits = 32 then Some (\<lambda>v d e s. Inr (macos_wait_on_address32 (sys_ulock os) obj (ucast v) d e s))
      else if bits = 64 then Some (\<lambda>v d e s. Inr (macos_wait_on_address64 (sys_ulock os) obj v d e s))
      else None)"
| "wait_on_address os (Windows win64) bits obj =
     (if bits = 8 then Some (\<lambda>v d e s. Inr (windows_wait_on_address8 (sys_win os) obj (ucast v) d e s))
      else if bits = 16 then Some (\<lambda>v d e s. Inr (windows_wait_on_address16 (sys_win os) obj (ucast v) d e s))
      else if bits = 32 then Some (\<lambda>v d e s. Inr (windows_wait_on_address32 (sys_win os) obj (ucast v) d e s))
      else if win64 \<and> bits = 64 then Some (\<lambda>v d e s. Inr (windows_wait_on_address64 (sys_win os) obj v d e s))
      else None)"
| "wait_on_address os Pthreads bits obj = None"

fun wake_by_address :: "'s kernel \<Rightarrow> backend \<Rightarrow> nat \<Rightarrow> ptr \<Rightarrow> 's wake_fn option" where
  "wake_by_address os Linux bits obj =
     (if bits = 32 then Some (linux_wake_by_address32 (sys_futex os) obj) else None)"
| "wake_by_address os FreeBSD bits obj =
     (if bits = 32 then Some (freebsd_wake_by_address32 (sys_umtx os) obj)
      else if bits = 64 then Some (freebsd_wake_by_address64 (sys_umtx os) obj)
      else None)"
| "wake_by_address os MacOS bits obj =
     (if bits = 32 then Some (macos_wake_by_address32 (sys_ulock os) obj)
      else if bits = 64 then Some (macos_wake_by_address64 (sys_ulock os) obj)
      else None)"
| "wake_by_address os (Windows win64) bits obj =
     (if bits \<in> {8, 16, 32} \<or> win64 \<and> bits = 64 then Some (windows_wake_by_address (sys_win os) obj)
      else None)"
| "wake_by_address os Pthreads bits obj = None"

section \<open>The width-specific functions\<close>

datatype wait_call =
    Wait_On_Address nat ptr u64 memory_order
  | Wait_Generic_Call wait_args

datatype notify_call =
    Wake_By_Address nat ptr u32
  | Notify_Generic_Call ptr u32

definition generic_args :: "nat \<Rightarrow> ptr \<Rightarrow> u64 \<Rightarrow> memory_order \<Rightarrow> wait_args" where
  "generic_args n obj v order =
     \<lparr>object = obj, bytes = n, expected0 = word_bytes n v, duration = None, success = order,
      failure = order\<rparr>"

definition atomic_wait_1 :: "backend \<Rightarrow> ptr \<Rightarrow> u8 \<Rightarrow> memory_order \<Rightarrow> wait_call" where
  "atomic_wait_1 b obj v order =
     (if have_wait_on_address b 8 then Wait_On_Address 8 obj (ucast v) order
      else Wait_Generic_Call (generic_args 1 obj (ucast v) order))"

definition atomic_wait_2 :: "backend \<Rightarrow> ptr \<Rightarrow> u16 \<Rightarrow> memory_order \<Rightarrow> wait_call" where
  "atomic_wait_2 b obj v order =
     (if have_wait_on_address b 16 then Wait_On_Address 16 obj (ucast v) order
      else Wait_Generic_Call (generic_args 2 obj (ucast v) order))"

definition atomic_wait_4 :: "backend \<Rightarrow> ptr \<Rightarrow> u32 \<Rightarrow> memory_order \<Rightarrow> wait_call" where
  "atomic_wait_4 b obj v order =
     (if have_wait_on_address b 32 then Wait_On_Address 32 obj (ucast v) order
      else Wait_Generic_Call (generic_args 4 obj (ucast v) order))"

definition atomic_wait_8 :: "backend \<Rightarrow> ptr \<Rightarrow> u64 \<Rightarrow> memory_order \<Rightarrow> wait_call" where
  "atomic_wait_8 b obj v order =
     (if have_wait_on_address b 64 then Wait_On_Address 64 obj v order
      else Wait_Generic_Call (generic_args 8 obj v order))"

definition notify_width :: "backend \<Rightarrow> nat \<Rightarrow> u32 \<Rightarrow> ptr \<Rightarrow> notify_call" where
  "notify_width b bits max_threads_to_wake obj =
     (if have_wake_by_address b bits then Wake_By_Address bits obj max_threads_to_wake
      else Notify_Generic_Call obj max_threads_to_wake)"

definition atomic_notify_one_1 :: "backend \<Rightarrow> ptr \<Rightarrow> notify_call" where
  "atomic_notify_one_1 b = notify_width b 8 1"

definition atomic_notify_one_2 :: "backend \<Rightarrow> ptr \<Rightarrow> notify_call" where
  "atomic_notify_one_2 b = notify_width b 16 1"

definition atomic_notify_one_4 :: "backend \<Rightarrow> ptr \<Rightarrow> notify_call" where
  "atomic_notify_one_4 b = notify_width b 32 1"

definition atomic_notify_one_8 :: "backend \<Rightarrow> ptr \<Rightarrow> notify_call" where
  "atomic_notify_one_8 b = notify_width b 64 1"

definition atomic_notify_all_1 :: "backend \<Rightarrow> ptr \<Rightarrow> notify_call" where
  "atomic_notify_all_1 b = notify_width b 8 (- 1)"

definition atomic_notify_all_2 :: "backend \<Rightarrow> ptr \<Rightarrow> notify_call" where
  "atomic_notify_all_2 b = notify_width b 16 (- 1)"

definition atomic_notify_all_4 :: "backend \<Rightarrow> ptr \<Rightarrow> notify_call" where
  "atomic_notify_all_4 b = notify_width b 32 (- 1)"

definition atomic_notify_all_8 :: "backend \<Rightarrow> ptr \<Rightarrow> notify_call" where
  "atomic_notify_all_8 b = notify_width b 64 (- 1)"

section \<open>The macros\<close>

text \<open>The static assertion on the width, then the dispatch; nothing where the program does not compile.\<close>

definition atomic_width_check :: "nat \<Rightarrow> bool" where
  "atomic_width_check sz \<longleftrightarrow> sz = 1 \<or> sz = 2 \<or> sz = 4 \<or> sz = 8"

definition atomic_wait_explicit :: "backend \<Rightarrow> nat \<Rightarrow> ptr \<Rightarrow> u64 \<Rightarrow> memory_order \<Rightarrow> wait_call option" where
  "atomic_wait_explicit b sz obj v order =
     (if \<not> atomic_width_check sz then None
      else if sz = 1 then Some (atomic_wait_1 b obj (ucast v) order)
      else if sz = 2 then Some (atomic_wait_2 b obj (ucast v) order)
      else if sz = 4 then Some (atomic_wait_4 b obj (ucast v) order)
      else Some (atomic_wait_8 b obj v order))"

definition atomic_wait :: "backend \<Rightarrow> nat \<Rightarrow> ptr \<Rightarrow> u64 \<Rightarrow> wait_call option" where
  "atomic_wait b sz obj v =
     (if \<not> atomic_width_check sz then None
      else if sz = 1 then Some (atomic_wait_1 b obj (ucast v) Seq_Cst)
      else if sz = 2 then Some (atomic_wait_2 b obj (ucast v) Seq_Cst)
      else if sz = 4 then Some (atomic_wait_4 b obj (ucast v) Seq_Cst)
      else Some (atomic_wait_8 b obj v Seq_Cst))"

definition atomic_notify_one :: "backend \<Rightarrow> nat \<Rightarrow> ptr \<Rightarrow> notify_call option" where
  "atomic_notify_one b sz obj =
     (if \<not> atomic_width_check sz then None
      else if sz = 1 then Some (atomic_notify_one_1 b obj)
      else if sz = 2 then Some (atomic_notify_one_2 b obj)
      else if sz = 4 then Some (atomic_notify_one_4 b obj)
      else Some (atomic_notify_one_8 b obj))"

definition atomic_notify_all :: "backend \<Rightarrow> nat \<Rightarrow> ptr \<Rightarrow> notify_call option" where
  "atomic_notify_all b sz obj =
     (if \<not> atomic_width_check sz then None
      else if sz = 1 then Some (atomic_notify_all_1 b obj)
      else if sz = 2 then Some (atomic_notify_all_2 b obj)
      else if sz = 4 then Some (atomic_notify_all_4 b obj)
      else Some (atomic_notify_all_8 b obj))"

text \<open>\<open>atomic_wait_expected\<close> and \<open>atomic_notify\<close> accept four-byte objects only.\<close>

definition atomic_native_check :: "nat \<Rightarrow> bool" where
  "atomic_native_check sz \<longleftrightarrow> sz = 4"

text \<open>
  \<open>atomic_wait_expected_32\<close> runs its own loop over the native wait where there is one and calls the
  generic machine otherwise; after the exchange \<open>atomic_notify_32\<close> wakes by address or through the proxy.
\<close>

datatype expected_call =
    Expected_Native ptr u32 "timespec option" memory_order memory_order
  | Expected_Generic wait_args

definition wait_expected_32 ::
  "backend \<Rightarrow> ptr \<Rightarrow> u32 \<Rightarrow> timespec option \<Rightarrow> memory_order \<Rightarrow> memory_order \<Rightarrow> expected_call" where
  "wait_expected_32 b obj v dur so fo =
     (if have_wait_on_address b 32 then Expected_Native obj v dur so fo
      else Expected_Generic \<lparr>object = obj, bytes = 4, expected0 = word_bytes 4 (ucast v),
             duration = dur, success = so, failure = fo\<rparr>)"

definition notify_32_wake :: "backend \<Rightarrow> ptr \<Rightarrow> u32 \<Rightarrow> notify_call" where
  "notify_32_wake b obj max_threads_to_wake =
     (if have_wake_by_address b 32 then Wake_By_Address 32 obj max_threads_to_wake
      else Notify_Generic_Call obj max_threads_to_wake)"

definition atomic_wait_expected ::
  "backend \<Rightarrow> nat \<Rightarrow> ptr \<Rightarrow> u32 \<Rightarrow> timespec option \<Rightarrow> memory_order \<Rightarrow> memory_order \<Rightarrow> expected_call option"
  where
  "atomic_wait_expected b sz obj v dur so fo =
     (if atomic_native_check sz then Some (wait_expected_32 b obj v dur so fo) else None)"

text \<open>The wake \<open>atomic_notify\<close> performs once its exchange has succeeded.\<close>

definition atomic_notify :: "backend \<Rightarrow> nat \<Rightarrow> ptr \<Rightarrow> u32 \<Rightarrow> notify_call option" where
  "atomic_notify b sz obj max_threads_to_wake =
     (if atomic_native_check sz then Some (notify_32_wake b obj max_threads_to_wake) else None)"

section \<open>The functions and their macros\<close>

text \<open>A backend announces exactly the functions it defines.\<close>

lemma announced:
  "wait_on_address os b bits obj \<noteq> None \<longleftrightarrow> have_wait_on_address b bits"
  "wake_by_address os b bits obj \<noteq> None \<longleftrightarrow> have_wake_by_address b bits"
  by (cases b; simp)+

lemma native_wait_cast:
  assumes "native_wait f"
  shows "native_wait (\<lambda>v. f (g v))"
proof -
  note w = native_wait.keeps_errno [OF assms] native_wait.nonpositive [OF assms] native_wait.infinite [OF assms]
  show ?thesis
    by unfold_locales (use w in blast)+
qed

lemmas platform_waits =
  linux32.native_wait_axioms freebsd32.native_wait_axioms freebsd64.native_wait_axioms
  macos32.native_wait_axioms macos64.native_wait_axioms windows8.native_wait_axioms
  windows16.native_wait_axioms windows32.native_wait_axioms windows64.native_wait_axioms

text \<open>Every function announced keeps the contract of a native wait.\<close>

lemma wait_on_address_contract:
  assumes "wait_on_address os b bits obj = Some wait"
  shows "native_wait wait"
  using assms by (cases b) (auto split: if_splits intro: platform_waits [THEN native_wait_cast])

section \<open>The dispatch\<close>

lemmas wait_functions = atomic_wait_1_def atomic_wait_2_def atomic_wait_4_def atomic_wait_8_def
lemmas notify_functions = notify_width_def atomic_notify_one_1_def atomic_notify_one_2_def
  atomic_notify_one_4_def atomic_notify_one_8_def atomic_notify_all_1_def atomic_notify_all_2_def
  atomic_notify_all_4_def atomic_notify_all_8_def
lemmas dispatch = atomic_wait_explicit_def atomic_wait_def atomic_notify_one_def
  atomic_notify_all_def atomic_width_check_def

lemma have_agree: "have_wake_by_address b n = have_wait_on_address b n"
  by (cases b) simp_all

lemma word_bytes_mask:
  fixes v :: u64
  assumes "n \<le> 8"
  shows "word_bytes n (take_bit (8 * n) v) = word_bytes n v"
proof -
  have "(ucast (drop_bit (8 * i) (take_bit (8 * n) v)) :: u8) = ucast (drop_bit (8 * i) v)"
    if "i < n" for i
    using that assms
    by (intro bit_word_eqI) (auto simp: bit_simps)
  then show ?thesis
    by (simp add: word_bytes_def)
qed

lemma length_word_bytes [simp]: "length (word_bytes n v) = n"
  by (simp add: word_bytes_def)

lemma ucast_ucast_take_bit:
  fixes v :: u64
  shows "ucast (ucast v :: u8) = take_bit 8 v" "ucast (ucast v :: u16) = take_bit 16 v"
    "ucast (ucast v :: u32) = take_bit 32 v"
  by (intro bit_word_eqI; auto simp: bit_simps)+

lemma full: "take_bit 64 (v :: u64) = v"
  by (rule take_bit_word_eq_self) simp

text \<open>Each width: natively with the truncated value, or generically with its bytes.\<close>

lemma wait_dispatch:
  assumes "wait_width sz"
  shows "atomic_wait_explicit b sz obj v order =
    Some (if have_wait_on_address b (8 * sz)
          then Wait_On_Address (8 * sz) obj (take_bit (8 * sz) v) order
          else Wait_Generic_Call (generic_args sz obj v order))"
  using assms word_bytes_mask [of 1 v] word_bytes_mask [of 2 v] word_bytes_mask [of 4 v] full
  by (auto simp: wait_width_def dispatch wait_functions generic_args_def ucast_ucast_take_bit)

lemma notify_dispatch:
  assumes "wait_width sz"
  shows "atomic_notify_one b sz obj = Some (notify_width b (8 * sz) 1 obj)"
    "atomic_notify_all b sz obj = Some (notify_width b (8 * sz) WAKE_ALL obj)"
  using assms by (auto simp: wait_width_def dispatch notify_functions)

text \<open>A process whose object counts the calls of the kernel.\<close>

definition count_kernel :: "nat kernel" where
  "count_kernel =
     \<lparr>sys_futex = count_futex, sys_umtx = (\<lambda>c s. (0, 0, Suc s)), sys_ulock = (\<lambda>c s. (0, 0, Suc s)),
      sys_win = (\<lambda>c s. (True, 0, Suc s)), sys_clock = count_clock,
      sys_load = (\<lambda>bits obj order s. (of_nat s, s))\<rparr>"

end
