(* ===== verification/Address_Ops.thy ===== *)
theory Address_Ops
  imports Native_Proxies Wait_API
begin

text \<open>
  What the operating systems do with threads that block on the address of an object, for every width a
  backend has a native wait for: \<open>wait_on_address8/16/32/64\<close> compares the object with the expected value and
  blocks if they agree, \<open>wake_by_address8/16/32/64\<close> unblocks threads. These are the operations the threads
  of \<open>Native_System\<close> run on; that they are the backends' functions, on any system that does what its
  interfaces document, is shown here for all backends and widths at once.
\<close>

section \<open>Operations\<close>

text \<open>
  The wait: an error of the call, a value that differs (reported as \<open>EAGAIN\<close> on Linux and as success
  elsewhere), or \<open>None\<close> for a thread that blocks.
\<close>

definition addr_wait :: "backend \<Rightarrow> int \<Rightarrow> 'v \<Rightarrow> 'v \<Rightarrow> int option" where
  "addr_wait b e x v =
     (if e \<noteq> 0 then Some (- e)
      else if v \<noteq> x then Some (if b = Linux then - EAGAIN else 0)
      else None)"

text \<open>
  The wake: its result and how many of the \<open>parked\<close> threads it unblocks; \<open>ENOENT\<close> is the answer of
  \<open>__ulock_wake\<close> when there is none. The pthreads backend has no such wake.
\<close>

fun addr_wake :: "backend \<Rightarrow> int list \<Rightarrow> u32 \<Rightarrow> nat \<Rightarrow> int \<times> nat" where
  "addr_wake Linux s m parked =
     (let e = fst (os_next s); n = nat (min (nr_wake m) (int parked))
      in if e \<noteq> 0 then (- e, 0) else (int n, n))"
| "addr_wake FreeBSD s m parked =
     (let e = fst (os_next s)
      in if e \<noteq> 0 then (- e, 0) else (nominal_woken m, nat (min (nr_wake m) (int parked))))"
| "addr_wake MacOS s m parked =
     (let e = fst (os_next s)
      in if e \<noteq> 0 \<and> e \<noteq> ENOENT then (- e, 0) else (nominal_woken m, one_or_all m parked))"
| "addr_wake (Windows w) s m parked = (nominal_woken m, one_or_all m parked)"

text \<open>
  The laws: a thread blocks only on the value it expects; a wake that succeeds unblocks at least as many
  threads as it was asked for, or all there are, and one can be added to the count it reports.
\<close>

locale address_backend =
  fixes b :: backend
  assumes wake_enough: "valid_os os \<Longrightarrow> int parked < INT_MAX \<Longrightarrow> addr_wake b os m parked = (r, n) \<Longrightarrow> 0 \<le> r \<Longrightarrow>
      min (unat m) parked \<le> n \<and> n \<le> parked"
    and wake_count: "valid_os os \<Longrightarrow> int parked < INT_MAX \<Longrightarrow> addr_wake b os m parked = (r, n) \<Longrightarrow> r < INT_MAX"

lemma addr_wait_blocks: "addr_wait b e x v = None \<Longrightarrow> v = x"
  by (simp add: addr_wait_def split: if_splits)

lemmas wake_law_simps = nr_wake_enough one_or_all_enough nominal_woken_less clamped_less error_less

interpretation linux_addr: address_backend Linux
  by unfold_locales (auto simp: wake_law_simps Let_def split: if_splits dest: valid_os_next)

interpretation freebsd_addr: address_backend FreeBSD
  by unfold_locales (auto simp: wake_law_simps Let_def split: if_splits dest: valid_os_next)

interpretation macos_addr: address_backend MacOS
  by unfold_locales (auto simp: wake_law_simps Let_def split: if_splits dest: valid_os_next)

interpretation windows_addr: address_backend "Windows w" for w
  by unfold_locales (auto simp: wake_law_simps)

lemma native_address: "have_wait_on_address b n \<Longrightarrow> address_backend b"
  using linux_addr.address_backend_axioms freebsd_addr.address_backend_axioms macos_addr.address_backend_axioms
    windows_addr.address_backend_axioms
  by (cases b) auto

section \<open>The backends' functions\<close>

text \<open>Every system interface does what it documents; the error a backend makes of the code of a call.\<close>

definition documented_kernel :: "kern kernel \<Rightarrow> bool" where
  "documented_kernel os \<longleftrightarrow>
     documented_futex (sys_futex os) \<and> documented_umtx (sys_umtx os) \<and> documented_ulock (sys_ulock os)
     \<and> documented_win (sys_win os)"

fun kernel_error :: "backend \<Rightarrow> nat \<Rightarrow> int" where
  "kernel_error (Windows win64) n = windows_error_to_errno (word_of_nat n)"
| "kernel_error b n = int n"

lemma addr_wait_park: "addr_wait b e x v = park_result (if b = Linux then EAGAIN else 0) e (v = x)"
  by (auto simp: addr_wait_def park_result_def)

lemma addr_wakes:
  "addr_wake Linux [e] m n = (let k = nat (min (nr_wake m) (int n)) in if e \<noteq> 0 then (- e, 0) else (int k, k))"
  "addr_wake FreeBSD [e] m n = (if e \<noteq> 0 then (- e, 0) else (nominal_woken m, nat (min (nr_wake m) (int n))))"
  "addr_wake MacOS [e] m n = (if e \<noteq> 0 \<and> e \<noteq> ENOENT then (- e, 0) else (nominal_woken m, one_or_all m n))"
  by (simp_all add: os_next_def Let_def)

lemma take_bit_64: "take_bit 64 x = (x :: u64)"
  by (rule bit_word_eqI) (auto simp: bit_simps)

lemma wake_by_address_agrees:
  assumes os: "documented_kernel os" and b: "have_wake_by_address b bits" and w: "width_at s obj = bits" and m: "m \<noteq> 0"
  shows "\<exists>wake. wake_by_address os b bits obj = Some wake \<and>
    wake_agrees (addr_wake b [kernel_error b (fault_next s)] m (blocked_at s obj)) obj err s (wake m err s)"
proof (cases b)
  case Linux
  then show ?thesis
    using linux_wake_agrees [of "sys_futex os" m s obj err] os b w m
    by (simp add: addr_wakes documented_kernel_def Let_def del: addr_wake.simps)
next
  case FreeBSD
  then show ?thesis
    using freebsd_wake_agrees [of "sys_umtx os" m s obj err] os b w m
    by (auto simp: addr_wakes documented_kernel_def Let_def simp del: addr_wake.simps)
next
  case MacOS
  then show ?thesis
    using macos_wake_agrees [of "sys_ulock os" s obj m err] os b w
    by (auto simp: addr_wakes documented_kernel_def Let_def simp del: addr_wake.simps)
next
  case (Windows w64)
  then show ?thesis
    using windows_wake_agrees [of "sys_win os" m s obj err] os b by (auto simp: documented_kernel_def)
qed (use b in simp)

lemma narrow_bytes:
  "word_bytes 1 (ucast (ucast x :: u8)) = word_bytes 1 x" "word_bytes 2 (ucast (ucast x :: u16)) = word_bytes 2 x"
  "word_bytes 4 (ucast (ucast x :: u32)) = word_bytes 4 (x :: u64)"
  by (auto simp: word_bytes_eq bit_simps intro!: bit_word_eqI)

lemma windows_wait_addr:
  assumes "documented_win win"
  shows "wait_agrees (addr_wait (Windows w64) (windows_error_to_errno (word_of_nat (fault_next s)))
        (take_bit (8 * n) x) (take_bit (8 * n) (memory_at s obj)))
      (- windows_error_to_errno (word_of_nat (sleep_ends s))) obj (8 * n) err s
      (Inr (windows_wait_on_address win n obj (word_bytes n x) d err s))"
  using windows_wait_agrees [OF assms, of s n obj "word_bytes n x" err d] by (simp add: addr_wait_park word_bytes_eq)

lemma wait_on_address_agrees:
  assumes os: "documented_kernel os" and b: "have_wait_on_address b bits"
    and c: "sys_clock os s = (cr, now, s)" "valid_ts now" and d: "\<And>t. d = Some t \<Longrightarrow> valid_ts t"
  shows "\<exists>wait. wait_on_address os b bits obj = Some wait \<and>
    wait_agrees (addr_wait b (kernel_error b (fault_next s)) (take_bit bits x) (take_bit bits (memory_at s obj)))
      (- kernel_error b (sleep_ends s)) obj bits err s (wait x d err s)"
proof (cases b)
  case Linux
  then show ?thesis
    using linux_wait_agrees [where clock = "sys_clock os" and s = s and obj = obj and v = "ucast x" and err = err
        and futex = "sys_futex os", OF _ c d] os b ucast_take_bit [of "memory_at s obj" x]
    by (simp add: addr_wait_park documented_kernel_def)
next
  case FreeBSD
  then show ?thesis
    using freebsd_wait_agrees(1) [of "sys_umtx os" s obj "ucast x" err d]
      freebsd_wait_agrees(2) [of "sys_umtx os" s obj x err d] os b ucast_take_bit [of "memory_at s obj" x]
    by (auto simp: addr_wait_park documented_kernel_def take_bit_64)
next
  case MacOS
  then show ?thesis
    using macos_wait_agrees(1) [of "sys_ulock os" s obj "ucast x" err d]
      macos_wait_agrees(2) [of "sys_ulock os" s obj x err d] os b ucast_take_bit [of "memory_at s obj" x]
    by (auto simp: addr_wait_park documented_kernel_def take_bit_64)
next
  case (Windows w64)
  then have "bits \<in> {8 * 1, 8 * 2, 8 * 4, 8 * 8}"
    using b by auto
  moreover note agrees = windows_wait_addr [of "sys_win os" w64 s _ x obj err d]
  ultimately show ?thesis
    using Windows os b narrow_bytes [of x] agrees [of 1] agrees [of 2] agrees [of 4] agrees [of 8]
    by (auto simp: windows_waits documented_kernel_def)
qed (use b in simp)

section \<open>A system that does what it documents\<close>

definition plain_wait :: "bool \<Rightarrow> ptr \<Rightarrow> nat \<Rightarrow> nat \<Rightarrow> kern \<Rightarrow> int \<times> nat \<times> kern" where
  "plain_wait same obj bits differ s =
     (if fault_next s \<noteq> 0 then (- 1, fault_next s, s)
      else if \<not> same then (if differ = 0 then 0 else - 1, differ, s)
      else (if sleep_ends s = 0 then 0 else - 1, sleep_ends s, s\<lparr>log := log s @ [Slept obj bits]\<rparr>))"

definition plain_wake :: "bool \<Rightarrow> int \<Rightarrow> ptr \<Rightarrow> nat \<Rightarrow> kern \<Rightarrow> int \<times> nat \<times> kern" where
  "plain_wake reports n obj bits s =
     (if fault_next s \<noteq> 0 then (- 1, fault_next s, s)
      else (let k = nat (min n (int (sleepers_at obj bits s)))
            in (if reports then int k else 0, 0, s\<lparr>log := log s @ [Unblocked obj k]\<rparr>)))"

fun plain_futex :: "(futex_call, kern) os_call" where
  "plain_futex (FUTEX_WAIT_BITSET obj v t) s =
     plain_wait (sint (ucast (memory_at s obj) :: u32) = v) obj 32 (nat EAGAIN) s"
| "plain_futex (FUTEX_WAKE obj n) s = plain_wake True n obj 32 s"

fun plain_umtx :: "(umtx_call, kern) os_call" where
  "plain_umtx (UMTX_OP_WAIT_UINT obj v t) s = plain_wait (ucast (memory_at s obj) = v) obj 32 0 s"
| "plain_umtx (UMTX_OP_WAIT obj v t) s = plain_wait (sint (memory_at s obj) = v) obj 64 0 s"
| "plain_umtx (UMTX_OP_WAKE_32BIT obj n) s = plain_wake False n obj 32 s"
| "plain_umtx (UMTX_OP_WAKE obj n) s = plain_wake False n obj 64 s"

fun plain_ulock :: "(ulock_call, kern) os_call" where
  "plain_ulock (ULOCK_WAIT op obj v t) s =
     (if op = UL_COMPARE_AND_WAIT then plain_wait (take_bit 32 (memory_at s obj) = v) obj 32 0 s
      else plain_wait (memory_at s obj = v) obj 64 0 s)"
| "plain_ulock (ULOCK_WAKE op obj v) s =
     (let every = op AND ULF_WAKE_ALL \<noteq> 0;
          k = sleepers_at obj (if op AND 0xF = UL_COMPARE_AND_WAIT then 32 else 64) s
      in if fault_next s \<noteq> 0 \<and> int (fault_next s) \<noteq> ENOENT then (- 1, fault_next s, s)
         else if k = 0 then (- 1, nat ENOENT, s)
         else (0, 0, s\<lparr>log := log s @ [Unblocked obj (if every then k else 1)]\<rparr>))"

fun plain_win :: "kern win_os" where
  "plain_win (WaitOnAddress obj v n t) s =
     (if word_of_nat (fault_next s) \<noteq> (0 :: u32) then (False, word_of_nat (fault_next s), s)
      else if word_bytes n (memory_at s obj) \<noteq> v then (True, 0, s)
      else (word_of_nat (sleep_ends s) = (0 :: u32), word_of_nat (sleep_ends s), s\<lparr>log := log s @ [Slept obj (8 * n)]\<rparr>))"
| "plain_win (WakeByAddressSingle obj) s = (True, 0, s\<lparr>log := log s @ [Unblocked obj (min 1 (blocked_at s obj))]\<rparr>)"
| "plain_win (WakeByAddressAll obj) s = (True, 0, s\<lparr>log := log s @ [Unblocked obj (blocked_at s obj)]\<rparr>)"

definition plain_kernel :: "kern kernel" where
  "plain_kernel =
     \<lparr>sys_futex = plain_futex, sys_umtx = plain_umtx, sys_ulock = plain_ulock, sys_win = plain_win,
      sys_clock = (\<lambda>s. (0, zero_ts, s)), sys_load = (\<lambda>bits obj order s. (take_bit bits (memory_at s obj), s))\<rparr>"

lemma plain_wait_documented: "wait_documented same obj bits differ s (plain_wait same obj bits differ s)"
  by (simp add: wait_documented_def plain_wait_def)

lemma plain_wake_documented: "wake_documented reports n obj bits s (plain_wake reports n obj bits s)"
  by (simp add: wake_documented_def plain_wake_def Let_def)

lemma plain_documented:
  "documented_futex plain_futex" "documented_umtx plain_umtx" "documented_ulock plain_ulock" "documented_win plain_win"
  by (simp_all add: documented_defs plain_wait_documented plain_wake_documented ulock_wake_documented_def
      win_wait_documented_def UL_COMPARE_AND_WAIT_def UL_COMPARE_AND_WAIT64_def ULF_WAKE_ALL_def ENOENT_def Let_def)

lemma plain_kernel_documented: "documented_kernel plain_kernel"
  using plain_documented by (simp add: documented_kernel_def plain_kernel_def)

text \<open>Two threads blocked on the object at 4096; a sleep there ends with a signal, or with a wake on a 16-bit object.\<close>

definition parked_pair :: kern where
  "parked_pair = \<lparr>memory_at = (\<lambda>_. 0)(4096 := 5), width_at = (\<lambda>_. 32), blocked_at = (\<lambda>_. 0)(4096 := 2), fault_next = 0,
     sleep_ends = 4, log = []\<rparr>"

definition narrow_pair :: kern where
  "narrow_pair = parked_pair\<lparr>memory_at := (\<lambda>_. 0)(4096 := 0xFF1234), width_at := (\<lambda>_. 16), sleep_ends := 0\<rparr>"

end
