(* ===== verification/Native_System.thy ===== *)
theory Native_System
  imports Address_Ops
begin

text \<open>
  The functions that wait on the object's own address, with any number of threads and for any width:
  \<open>atomic_wait_1/2/4/8\<close> and \<open>atomic_wait_expected_32\<close>, \<open>atomic_notify_one_1/2/4/8\<close>, \<open>atomic_notify_all_1/2/4/8\<close> and
  \<open>atomic_notify_32\<close> on a backend that has the native wait, one step per access to memory another thread
  can change. The type of values, \<open>'v\<close>, is that of the width; the two functions with a result exist for 32
  bits only. The operating system keeps the threads blocked on each address, as \<open>Address_Ops\<close> says. The
  observer \<open>ndirty k\<close> says that the object at \<open>k\<close> changed and no wake-all on it completed since.
\<close>

section \<open>A waiting thread\<close>

text \<open>\<open>nw_plain\<close> marks \<open>atomic_wait_1/2/4/8\<close>, which have no result, no time limit and ignore what the wait returns.\<close>

record 'v nw_args =
  nw_object :: ptr
  nw_expected0 :: 'v
  nw_duration :: "timespec option"
  nw_success :: memory_order
  nw_failure :: memory_order
  nw_plain :: bool

datatype nw_pc = NW_Start | NW_Load | NW_Reload | NW_Clock | NW_Park | NW_Blocked | NW_Woken | NW_Done

record 'v nw_local =
  nw_pc :: nw_pc
  nw_ret :: int
  nw_errno :: int
  nw_entry :: int
  nw_end :: timespec
  nw_remaining :: "timespec option"
  nw_expected :: 'v

definition nw_enter :: "'v nw_args \<Rightarrow> int \<Rightarrow> 'v nw_local" where
  "nw_enter a e =
     \<lparr>nw_pc = NW_Start, nw_ret = 0, nw_errno = e, nw_entry = e, nw_end = zero_ts, nw_remaining = None,
      nw_expected = nw_expected0 a\<rparr>"

definition nw_start :: "'v nw_args \<Rightarrow> env \<Rightarrow> 'v nw_local \<Rightarrow> 'v nw_local res" where
  "nw_start a e l =
     (let l1 = l\<lparr>nw_ret := 0, nw_entry := nw_errno l, nw_end := zero_ts, nw_pc := NW_Load\<rparr>
      in case nw_duration a of
           None \<Rightarrow> Inr l1
         | Some d \<Rightarrow>
             res_bind (monotonic_now_posix (env_clock_ret e) (env_now e)) (\<lambda>now.
             res_bind (ts_deadline now d) (\<lambda>end_ts. Inr (l1\<lparr>nw_end := end_ts\<rparr>))))"

text \<open>\<open>v\<close> is the value of the object at the time of the load.\<close>

definition nw_load :: "'v nw_args \<Rightarrow> 'v \<Rightarrow> 'v nw_local \<Rightarrow> 'v nw_local" where
  "nw_load a v l =
     (if nw_plain a then l\<lparr>nw_pc := if v = nw_expected l then NW_Park else NW_Done\<rparr>
      else if v \<noteq> nw_expected l then
        if nw_ret l \<noteq> 0 \<and> nw_success a > nw_failure a then l\<lparr>nw_expected := v, nw_pc := NW_Reload\<rparr>
        else l\<lparr>nw_expected := v, nw_errno := nw_entry l, nw_pc := NW_Done\<rparr>
      else l\<lparr>nw_ret := 1, nw_pc := NW_Clock\<rparr>)"

definition nw_clock :: "'v nw_args \<Rightarrow> env \<Rightarrow> 'v nw_local \<Rightarrow> 'v nw_local res" where
  "nw_clock a e l =
     (case nw_duration a of
        None \<Rightarrow> Inr (l\<lparr>nw_remaining := None, nw_pc := NW_Park\<rparr>)
      | Some d \<Rightarrow>
          res_bind (monotonic_now_posix (env_clock_ret e) (env_now e)) (\<lambda>now.
            if ts_passed now (nw_end l) then Inr (l\<lparr>nw_errno := ETIMEDOUT, nw_ret := 0, nw_pc := NW_Done\<rparr>)
            else res_bind (ts_remaining (nw_end l) now) (\<lambda>r.
                   Inr (l\<lparr>nw_remaining := Some r, nw_pc := NW_Park\<rparr>))))"

text \<open>What the loops do with the result of the wait.\<close>

definition nw_after :: "'v nw_args \<Rightarrow> int \<Rightarrow> 'v nw_local \<Rightarrow> 'v nw_local" where
  "nw_after a ret2 l =
     (if \<not> nw_plain a \<and> hard_error ret2 then l\<lparr>nw_errno := - ret2, nw_ret := -1, nw_pc := NW_Done\<rparr>
      else l\<lparr>nw_pc := NW_Load\<rparr>)"

definition nw_wait :: "'v nw_args \<Rightarrow> int option \<Rightarrow> 'v nw_local \<Rightarrow> 'v nw_local" where
  "nw_wait a r l = (case r of None \<Rightarrow> l\<lparr>nw_pc := NW_Blocked\<rparr> | Some ret2 \<Rightarrow> nw_after a ret2 l)"

definition nw_step :: "backend \<Rightarrow> 'v nw_args \<Rightarrow> env \<Rightarrow> 'v \<Rightarrow> 'v nw_local \<Rightarrow> 'v nw_local res" where
  "nw_step b a e v l =
     (case nw_pc l of
        NW_Start \<Rightarrow> nw_start a e l
      | NW_Load \<Rightarrow> Inr (nw_load a v l)
      | NW_Reload \<Rightarrow> Inr (l\<lparr>nw_errno := nw_entry l, nw_pc := NW_Done\<rparr>)
      | NW_Clock \<Rightarrow> nw_clock a e l
      | NW_Park \<Rightarrow> Inr (nw_wait a (addr_wait b (env_os e) (nw_expected l) v) l)
      | NW_Blocked \<Rightarrow> Inr (nw_after a (- env_os e) l)
      | NW_Woken \<Rightarrow> Inr (nw_after a 0 l)
      | NW_Done \<Rightarrow> Inr l)"

section \<open>A notifying thread\<close>

text \<open>\<open>nx_plain\<close> marks \<open>atomic_notify_one_1/2/4/8\<close> and \<open>atomic_notify_all_1/2/4/8\<close>, a wake without an exchange and a result.\<close>

datatype nx_pc = NX_Exchange | NX_Wake | NX_Done

record 'v nx_local =
  nx_pc :: nx_pc
  nx_object :: ptr
  nx_expected :: 'v
  nx_desired :: 'v
  nx_max :: u32
  nx_plain :: bool
  nx_ret :: int
  nx_errno :: int

definition nx_enter :: "bool \<Rightarrow> ptr \<Rightarrow> 'v \<Rightarrow> 'v \<Rightarrow> u32 \<Rightarrow> int \<Rightarrow> 'v nx_local" where
  "nx_enter plain obj expd desired m e =
     \<lparr>nx_pc = (if plain then NX_Wake else if m = 0 then NX_Done else NX_Exchange), nx_object = obj,
      nx_expected = expd, nx_desired = desired, nx_max = m, nx_plain = plain, nx_ret = 0, nx_errno = e\<rparr>"

text \<open>The exchange: the new value of the object and of the locals.\<close>

definition nx_exchange :: "'v \<Rightarrow> 'v nx_local \<Rightarrow> 'v \<times> 'v nx_local" where
  "nx_exchange v l =
     (if v = nx_expected l then (nx_desired l, l\<lparr>nx_pc := NX_Wake\<rparr>)
      else (v, l\<lparr>nx_expected := v, nx_ret := 0, nx_pc := NX_Done\<rparr>))"

definition nx_wake ::
  "backend \<Rightarrow> int list \<Rightarrow> nat \<Rightarrow> 'v nx_local \<Rightarrow> ('v nx_local \<times> nat) res" where
  "nx_wake b os parked l =
     (case addr_wake b os (nx_max l) parked of (r, n) \<Rightarrow>
        if nx_plain l then Inr (l\<lparr>nx_pc := NX_Done\<rparr>, n)
        else if r < 0 then Inr (l\<lparr>nx_ret := r, nx_errno := - r, nx_pc := NX_Done\<rparr>, n)
        else res_bind (c_int (1 + r)) (\<lambda>total. Inr (l\<lparr>nx_ret := total, nx_pc := NX_Done\<rparr>, n)))"

section \<open>The system\<close>

datatype 'v nthread = NIdle | NWaiting "'v nw_args" "'v nw_local" | NNotifying "'v nx_local" | NCrashed fault

record 'v nsys =
  cells :: "ptr \<Rightarrow> 'v"
  nthreads :: "nat \<Rightarrow> 'v nthread"
  ndirty :: "ptr \<Rightarrow> bool"

definition nw_valid :: "'v nw_args \<Rightarrow> bool" where
  "nw_valid a \<longleftrightarrow>
     (case nw_duration a of None \<Rightarrow> True | Some d \<Rightarrow> valid_ts d \<and> \<not> nw_plain a)"

fun blocked_on :: "ptr \<Rightarrow> 'v nthread \<Rightarrow> bool" where
  "blocked_on k (NWaiting a l) \<longleftrightarrow> nw_pc l = NW_Blocked \<and> nw_object a = k"
| "blocked_on k _ \<longleftrightarrow> False"

fun unblock :: "'v nthread \<Rightarrow> 'v nthread" where
  "unblock (NWaiting a l) = NWaiting a (l\<lparr>nw_pc := NW_Woken\<rparr>)"
| "unblock th = th"

definition nset :: "nat \<Rightarrow> 'v nthread \<Rightarrow> 'v nsys \<Rightarrow> 'v nsys" where
  "nset t th s = s\<lparr>nthreads := (nthreads s)(t := th)\<rparr>"

text \<open>A new value at one address.\<close>

definition nwrite :: "ptr \<Rightarrow> 'v \<Rightarrow> 'v nsys \<Rightarrow> 'v nsys" where
  "nwrite k v s =
     s\<lparr>cells := (cells s)(k := v), ndirty := (\<lambda>j. ndirty s j \<or> j = k \<and> v \<noteq> cells s k)\<rparr>"

definition nwake :: "nat \<Rightarrow> 'v nx_local \<Rightarrow> bool \<Rightarrow> 'v nx_local \<Rightarrow> nat set \<Rightarrow> 'v nsys \<Rightarrow> 'v nsys" where
  "nwake t l ok l' S s =
     s\<lparr>nthreads := (\<lambda>u. if u = t then NNotifying l' else if u \<in> S then unblock (nthreads s u) else nthreads s u),
       ndirty := (if nx_max l = WAKE_ALL \<and> ok then (ndirty s)(nx_object l := False) else ndirty s)\<rparr>"

inductive nstep :: "backend \<Rightarrow> nat \<Rightarrow> 'v nsys \<Rightarrow> 'v nsys \<Rightarrow> bool"
  for b :: backend and N :: nat where
  ncall_wait:
    "t < N \<Longrightarrow> nthreads s t = NIdle \<Longrightarrow> nw_valid a \<Longrightarrow> nstep b N s (nset t (NWaiting a (nw_enter a e)) s)"
| nwait:
    "nthreads s t = NWaiting a l \<Longrightarrow> valid_env e \<Longrightarrow> nw_step b a e (cells s (nw_object a)) l = Inr l' \<Longrightarrow>
     nstep b N s (nset t (NWaiting a l') s)"
| nwait_fault:
    "nthreads s t = NWaiting a l \<Longrightarrow> valid_env e \<Longrightarrow> nw_step b a e (cells s (nw_object a)) l = Inl f \<Longrightarrow>
     nstep b N s (nset t (NCrashed f) s)"
| nreturn_wait:
    "nthreads s t = NWaiting a l \<Longrightarrow> nw_pc l = NW_Done \<Longrightarrow> nstep b N s (nset t NIdle s)"
| ncall_notify:
    "t < N \<Longrightarrow> nthreads s t = NIdle \<Longrightarrow> nstep b N s (nset t (NNotifying (nx_enter plain k x d m e)) s)"
| nexchange:
    "nthreads s t = NNotifying l \<Longrightarrow> nx_pc l = NX_Exchange \<Longrightarrow>
     nx_exchange (cells s (nx_object l)) l = (v, l') \<Longrightarrow>
     nstep b N s (nset t (NNotifying l') (nwrite (nx_object l) v s))"
| nwake:
    "nthreads s t = NNotifying l \<Longrightarrow> nx_pc l = NX_Wake \<Longrightarrow> P = {u. blocked_on (nx_object l) (nthreads s u)} \<Longrightarrow>
     valid_os os \<Longrightarrow> nx_wake b os (card P) l = Inr (l', n) \<Longrightarrow> S \<subseteq> P \<Longrightarrow> card S = n \<Longrightarrow>
     nstep b N s (nwake t l (0 \<le> fst (addr_wake b os (nx_max l) (card P))) l' S s)"
| nwake_fault:
    "nthreads s t = NNotifying l \<Longrightarrow> nx_pc l = NX_Wake \<Longrightarrow> P = {u. blocked_on (nx_object l) (nthreads s u)} \<Longrightarrow>
     valid_os os \<Longrightarrow> nx_wake b os (card P) l = Inl f \<Longrightarrow> nstep b N s (nset t (NCrashed f) s)"
| nreturn_notify:
    "nthreads s t = NNotifying l \<Longrightarrow> nx_pc l = NX_Done \<Longrightarrow> nstep b N s (nset t NIdle s)"
| nstore:
    "nstep b N s (nwrite k v s)"

inductive nreachable :: "backend \<Rightarrow> nat \<Rightarrow> 'v nsys \<Rightarrow> bool"
  for b :: backend and N :: nat where
  ninit: "nthreads s = (\<lambda>_. NIdle) \<Longrightarrow> nreachable b N s"
| nnext: "nreachable b N s \<Longrightarrow> nstep b N s s' \<Longrightarrow> nreachable b N s'"

section \<open>What a waiting thread knows\<close>

text \<open>
  Until the wait is over \<open>expected\<close> and errno are as on entry; from the first blocking call on the result
  is 1; at the end the outcome is one the contract of \<open>Native_Wait\<close> allows.
\<close>

definition nw_ok :: "'v nw_args \<Rightarrow> 'v nw_local \<Rightarrow> bool" where
  "nw_ok a l \<longleftrightarrow>
     nw_valid a \<and> (nw_pc l \<noteq> NW_Start \<longrightarrow> end_ok (nw_end l)) \<and> nw_ret l \<in> {-1, 0, 1} \<and>
     (nw_pc l \<notin> {NW_Reload, NW_Done} \<longrightarrow>
        nw_expected l = nw_expected0 a \<and> nw_errno l = nw_entry l \<and> nw_ret l \<noteq> -1) \<and>
     (nw_pc l = NW_Reload \<longrightarrow> nw_expected l \<noteq> nw_expected0 a \<and> nw_ret l = 1) \<and>
     (nw_pc l = NW_Done \<longrightarrow>
        (if nw_plain a then nw_errno l = nw_entry l
         else native_outcome (nw_expected0 a) (nw_duration a) (nw_entry l)
                (nw_ret l, nw_expected l, nw_errno l, ())))"

lemma nw_enter_ok: "nw_valid a \<Longrightarrow> nw_ok a (nw_enter a e)"
  by (simp add: nw_ok_def nw_enter_def)

lemma nw_start_ok:
  assumes "nw_ok a l" and "nw_pc l = NW_Start" and "valid_env e"
  shows "\<exists>l'. nw_start a e l = Inr l' \<and> nw_ok a l' \<and> nw_pc l' = NW_Load"
proof (cases "nw_duration a")
  case None
  then show ?thesis
    using assms by (simp add: nw_start_def nw_ok_def Let_def end_ok_zero)
next
  case (Some d)
  then have "valid_ts d" "valid_ts (env_now e)" "env_clock_ret e = 0"
    using assms by (simp_all add: nw_ok_def nw_valid_def valid_env_def)
  then obtain t where "ts_deadline (env_now e) d = Inr t" "end_ok t"
    using ts_deadline_exact [of "env_now e" d] by (auto simp: end_ok_def)
  then show ?thesis
    using assms Some by (simp add: nw_start_def nw_ok_def Let_def monotonic_now_posix_def valid_env_def)
qed

lemma nw_load_ok:
  assumes "nw_ok a l" and "nw_pc l = NW_Load"
  shows "nw_ok a (nw_load a v l) \<and> nw_pc (nw_load a v l) \<in> {NW_Park, NW_Done, NW_Reload, NW_Clock}"
  using assms by (auto simp: nw_load_def nw_ok_def native_outcome_def)

lemma nw_clock_ok:
  assumes "nw_ok a l" and "nw_pc l = NW_Clock" and "valid_env e"
  shows "\<exists>l'. nw_clock a e l = Inr l' \<and> nw_ok a l' \<and> nw_pc l' \<in> {NW_Park, NW_Done}"
proof (cases "nw_duration a")
  case None
  then show ?thesis
    using assms by (auto simp: nw_clock_def nw_ok_def)
next
  case (Some d)
  have now: "valid_ts (env_now e)" "env_clock_ret e = 0" and "end_ok (nw_end l)"
    using assms by (simp_all add: nw_ok_def valid_env_def)
  then have "\<not> ts_passed (env_now e) (nw_end l) \<Longrightarrow> \<exists>r. ts_remaining (nw_end l) (env_now e) = Inr r"
    using ts_remaining_exact [of "env_now e" "nw_end l"] by (auto simp: end_ok_def)
  then show ?thesis
    using assms Some now
    by (cases "ts_passed (env_now e) (nw_end l)")
      (auto simp: nw_clock_def nw_ok_def monotonic_now_posix_def native_outcome_def nw_valid_def)
qed

lemma nw_after_ok:
  assumes "nw_ok a l" and "nw_pc l \<in> {NW_Park, NW_Blocked, NW_Woken}"
  shows "nw_ok a (nw_after a r l) \<and> nw_pc (nw_after a r l) \<in> {NW_Load, NW_Done}"
proof -
  have l: "nw_valid a" "end_ok (nw_end l)" "nw_ret l \<in> {0, 1}" "nw_expected l = nw_expected0 a"
      "nw_errno l = nw_entry l"
    using assms by (auto simp: nw_ok_def)
  have "hard_error r \<Longrightarrow> 0 < - r \<and> - r \<noteq> EAGAIN \<and> - r \<noteq> EINTR \<and> - r \<noteq> ETIMEDOUT"
    by (auto simp: hard_error_def)
  then show ?thesis
    using l by (auto simp: nw_after_def nw_ok_def native_outcome_def)
qed

lemma nw_wait_ok:
  assumes "nw_ok a l" and "nw_pc l \<in> {NW_Park, NW_Blocked, NW_Woken}"
  shows "nw_ok a (nw_wait a r l) \<and> (nw_pc (nw_wait a r l) = NW_Blocked \<longrightarrow> r = None)
    \<and> (r = None \<longrightarrow> nw_expected (nw_wait a r l) = nw_expected l)"
proof (cases r)
  case None
  then show ?thesis
    using assms by (auto simp: nw_wait_def nw_ok_def)
next
  case (Some r')
  then show ?thesis
    using nw_after_ok [OF assms, of r'] by (auto simp: nw_wait_def)
qed

context address_backend
begin

text \<open>A thread never faults, and blocks only while the object has the expected value.\<close>

lemma nw_step_ok:
  assumes ok: "nw_ok a l" and e: "valid_env e"
  shows "\<exists>l'. nw_step b a e v l = Inr l' \<and> nw_ok a l' \<and> (nw_pc l' = NW_Blocked \<longrightarrow> v = nw_expected l')"
proof (cases "nw_pc l")
  case NW_Start
  then show ?thesis
    using nw_start_ok [OF ok _ e] by (auto simp: nw_step_def)
next
  case NW_Load
  then show ?thesis
    using nw_load_ok [OF ok, of v] by (auto simp: nw_step_def)
next
  case NW_Reload
  then show ?thesis
    using ok by (auto simp: nw_step_def nw_ok_def native_outcome_def)
next
  case NW_Clock
  then show ?thesis
    using nw_clock_ok [OF ok _ e] by (auto simp: nw_step_def)
next
  case NW_Park
  then show ?thesis
    using nw_wait_ok [OF ok, of "addr_wait b (env_os e) (nw_expected l) v"]
      addr_wait_blocks [of b "env_os e" "nw_expected l" v]
    by (auto simp: nw_step_def)
next
  case NW_Blocked
  then show ?thesis
    using nw_after_ok [OF ok, of "- env_os e"] by (auto simp: nw_step_def)
next
  case NW_Woken
  then show ?thesis
    using nw_after_ok [OF ok, of 0] by (auto simp: nw_step_def)
next
  case NW_Done
  then show ?thesis
    using ok by (auto simp: nw_step_def)
qed

lemma wake_laws:
  assumes "valid_os os" and "int parked < INT_MAX" and "addr_wake b os m parked = (r, n)"
  shows "r < INT_MAX \<and> (0 \<le> r \<longrightarrow> min (unat m) parked \<le> n \<and> n \<le> parked)"
  using wake_enough [OF assms] wake_count [OF assms] by blast

lemma nx_wake_runs:
  assumes "valid_os os" and "int parked < INT_MAX"
  shows "\<exists>l'. nx_wake b os parked l = Inr (l', snd (addr_wake b os (nx_max l) parked)) \<and> nx_pc l' = NX_Done"
proof -
  obtain r n where "addr_wake b os (nx_max l) parked = (r, n)"
    by fastforce
  then show ?thesis
    using wake_laws [OF assms, of "nx_max l" r n] by (auto simp: nx_wake_def c_int_def INT_MIN_def)
qed

end

section \<open>The invariant of the system\<close>

fun nthread_ok :: "'v nthread \<Rightarrow> bool" where
  "nthread_ok (NWaiting a l) \<longleftrightarrow> nw_ok a l"
| "nthread_ok (NCrashed f) \<longleftrightarrow> False"
| "nthread_ok _ \<longleftrightarrow> True"

text \<open>Every blocked thread has been told of every change.\<close>

fun told :: "(ptr \<Rightarrow> bool) \<Rightarrow> (ptr \<Rightarrow> 'v) \<Rightarrow> 'v nthread \<Rightarrow> bool" where
  "told d m (NWaiting a l) \<longleftrightarrow> (nw_pc l = NW_Blocked \<longrightarrow> d (nw_object a) \<or> m (nw_object a) = nw_expected l)"
| "told d m _ \<longleftrightarrow> True"

lemma told_write:
  "told d m th \<Longrightarrow> told (\<lambda>j. d j \<or> j = k \<and> v \<noteq> m k) (m(k := v)) th"
  by (cases th) auto

definition ninv :: "nat \<Rightarrow> 'v nsys \<Rightarrow> bool" where
  "ninv N s \<longleftrightarrow>
     (\<forall>t\<ge>N. nthreads s t = NIdle) \<and> (\<forall>t. nthread_ok (nthreads s t)) \<and>
     (\<forall>t. told (ndirty s) (cells s) (nthreads s t))"

lemma nset_inv:
  assumes "ninv N s" and "nthread_ok th" and "told (ndirty s) (cells s) th"
    and "t < N \<or> nthreads s t \<noteq> NIdle"
  shows "ninv N (nset t th s)"
  using assms by (auto simp: ninv_def nset_def leD)

lemma nwrite_inv:
  assumes "ninv N s"
  shows "ninv N (nwrite k v s)"
  using assms by (auto simp: ninv_def nwrite_def intro!: told_write)

lemma nset_nwrite: "nset t th (nwrite k v s) = nwrite k v (nset t th s)"
  by (simp add: nset_def nwrite_def)

lemma blocked_few:
  assumes "ninv N s"
  shows "finite {u. blocked_on k (nthreads s u)} \<and> card {u. blocked_on k (nthreads s u)} \<le> N"
proof -
  have "{u. blocked_on k (nthreads s u)} \<subseteq> {..<N}"
  proof
    fix u assume "u \<in> {u. blocked_on k (nthreads s u)}"
    then have "nthreads s u \<noteq> NIdle"
      by auto
    then show "u \<in> {..<N}"
      using assms by (meson lessThan_iff not_le ninv_def)
  qed
  then show ?thesis
    using finite_subset card_mono [of "{..<N}"] by fastforce
qed

lemma unblock_ok [simp]: "blocked_on k th \<Longrightarrow> nthread_ok (unblock th) = nthread_ok th" "told d m (unblock th)"
  by (cases th; auto simp: nw_ok_def)+

lemma nwake_blocked:
  assumes "nthreads s t = NNotifying l"
  shows "blocked_on k (nthreads (nwake t l ok l' S s) u) \<longleftrightarrow> blocked_on k (nthreads s u) \<and> u \<notin> S"
  using assms by (cases "nthreads s u") (auto simp: nwake_def)

context address_backend
begin

lemma nwake_everyone:
  assumes inv: "ninv N s" and N: "int N < INT_MAX" and os: "valid_os os"
    and P: "P = {u. blocked_on k (nthreads s u)}"
    and w: "addr_wake b os m (card P) = (r, n)" "0 \<le> r"
  shows "min (unat m) (card P) \<le> n \<and> n \<le> card P \<and> (m = WAKE_ALL \<longrightarrow> n = card P)"
proof -
  have few: "int (card P) < INT_MAX"
    using blocked_few [OF inv, of k] N by (simp add: P)
  have "card P \<le> unat WAKE_ALL"
    using few by (simp add: INT_MAX_def unsigned_minus_1_eq_mask mask_eq_exp_minus_1)
  then show ?thesis
    using wake_laws [OF os few w(1)] w(2) by auto
qed

lemma nwake_inv:
  assumes inv: "ninv N s" and N: "int N < INT_MAX" and t: "nthreads s t = NNotifying l"
    and P: "P = {u. blocked_on (nx_object l) (nthreads s u)}" and os: "valid_os os"
    and w: "nx_wake b os (card P) l = Inr (l', n)" and S: "S \<subseteq> P" "card S = n"
  shows "ninv N (nwake t l (0 \<le> fst (addr_wake b os (nx_max l) (card P))) l' S s)"
proof -
  obtain r where r: "addr_wake b os (nx_max l) (card P) = (r, n)"
    using w by (auto simp: nx_wake_def res_simps split: prod.splits if_splits)
  have "finite P"
    using blocked_few [OF inv] by (simp add: P)
  then have all: "S = P" if "nx_max l = WAKE_ALL" "0 \<le> r"
    using nwake_everyone [OF inv N os P r that(2)] that S by (simp add: card_subset_eq)
  let ?s = "nwake t l (0 \<le> r) l' S s"
  have "told (ndirty ?s) (cells ?s) (nthreads ?s u)" for u
  proof (cases "u = t \<or> u \<in> S")
    case True
    then show ?thesis
      by (auto simp: nwake_def)
  next
    case False
    then have th: "nthreads ?s u = nthreads s u"
      by (simp add: nwake_def)
    have "\<not> blocked_on (nx_object l) (nthreads s u)" if "nx_max l = WAKE_ALL" "0 \<le> r"
      using all [OF that] False by (simp add: P)
    moreover have "told (ndirty s) (cells s) (nthreads s u)"
      using inv by (simp add: ninv_def)
    ultimately show ?thesis
      unfolding th by (cases "nthreads s u") (auto simp: nwake_def)
  qed
  moreover have "nthread_ok (nthreads ?s u)" for u
    using inv S(1) by (auto simp: nwake_def ninv_def P)
  moreover have "nthreads ?s u = NIdle" if "N \<le> u" for u
    using inv t that S(1) by (auto simp: nwake_def ninv_def P)
  ultimately show ?thesis
    by (simp add: ninv_def r)
qed

theorem ninv_step:
  assumes "nstep b N s s'" and inv: "ninv N s" and N: "int N < INT_MAX"
  shows "ninv N s'"
  using assms(1)
proof cases
  case (ncall_wait t a e)
  then show ?thesis
    using inv nw_enter_ok by (auto intro!: nset_inv simp: nw_enter_def)
next
  case (nwait t a l e l')
  have ok: "nw_ok a l"
    using inv nwait(2) by (metis ninv_def nthread_ok.simps(1))
  then have "nw_ok a l' \<and> (nw_pc l' = NW_Blocked \<longrightarrow> cells s (nw_object a) = nw_expected l')"
    using nw_step_ok [OF ok nwait(3), of "cells s (nw_object a)"] nwait(4) by auto
  then show ?thesis
    using inv nwait(1,2) by (auto intro!: nset_inv)
next
  case (nwait_fault t a l e f)
  have "nw_ok a l"
    using inv nwait_fault(2) by (metis ninv_def nthread_ok.simps(1))
  then show ?thesis
    using nw_step_ok [OF _ nwait_fault(3), of a l "cells s (nw_object a)"] nwait_fault(4) by auto
next
  case (nexchange t l v l')
  then show ?thesis
    using inv by (auto simp: nset_nwrite intro!: nwrite_inv nset_inv)
next
  case (nwake t l P os l' n S)
  then show ?thesis
    using nwake_inv [OF inv N] by simp
next
  case (nwake_fault t l P os f)
  then show ?thesis
    using nx_wake_runs [of os "card P" l] blocked_few [OF inv, of "nx_object l"] N by auto
next
  case (nstore k v)
  then show ?thesis
    using nwrite_inv [OF inv] by simp
qed (use inv in \<open>auto intro!: nset_inv\<close>)

theorem nreachable_inv:
  assumes "nreachable b N s" and "int N < INT_MAX"
  shows "ninv N s"
  using assms(1)
proof induction
  case (ninit s)
  then show ?case
    by (simp add: ninv_def)
next
  case (nnext s s')
  then show ?case
    using ninv_step assms(2) by blast
qed

text \<open>The same facts, for a reachable state.\<close>

lemma blocked_told:
  assumes "nreachable b N s" and "int N < INT_MAX" and "nthreads s t = NWaiting a l" and "nw_pc l = NW_Blocked"
    and "\<not> ndirty s (nw_object a)"
  shows "cells s (nw_object a) = nw_expected l"
proof -
  have "told (ndirty s) (cells s) (NWaiting a l)"
    using nreachable_inv [OF assms(1,2)] assms(3) by (metis ninv_def)
  then show ?thesis
    using assms(4,5) by simp
qed

lemma nreachable_ok:
  assumes "nreachable b N s" and "int N < INT_MAX"
  shows "nthread_ok (nthreads s t)"
  using nreachable_inv [OF assms] by (simp add: ninv_def)

lemma nwake_leaves:
  assumes re: "nreachable b N s" and N: "int N < INT_MAX" and t: "nthreads s t = NNotifying l"
    and os: "valid_os os" and P: "P = {u. blocked_on (nx_object l) (nthreads s u)}"
    and w: "nx_wake b os (card P) l = Inr (l', n)" "0 \<le> fst (addr_wake b os (nx_max l) (card P))"
    and S: "S \<subseteq> P" "card S = n"
    and P': "P' = {u. blocked_on (nx_object l) (nthreads (nwake t l ok l' S s) u)}"
  shows "card P' + min (unat (nx_max l)) (card P) \<le> card P \<and> (nx_max l = WAKE_ALL \<longrightarrow> P' = {})"
proof -
  have inv: "ninv N s"
    by (rule nreachable_inv [OF re N])
  obtain r where r: "addr_wake b os (nx_max l) (card P) = (r, n)"
    using w(1) by (auto simp: nx_wake_def res_simps split: prod.splits if_splits)
  have n: "min (unat (nx_max l)) (card P) \<le> n" "n \<le> card P" "nx_max l = WAKE_ALL \<longrightarrow> n = card P"
    using nwake_everyone [OF inv N os P r] w(2) r by simp_all
  have "blocked_on (nx_object l) (nthreads (nwake t l ok l' S s) u) \<longleftrightarrow> u \<in> P - S" for u
    using nwake_blocked [OF t, of "nx_object l" ok l' S u] by (simp add: P)
  then have left: "P' = P - S"
    unfolding P' by blast
  have fin: "finite P"
    using blocked_few [OF inv, of "nx_object l"] by (simp add: P)
  have "card P' + n = card P"
    using card_Diff_subset [OF finite_subset [OF S(1) fin] S(1)] S(2) n(2) left by simp
  moreover have "nx_max l = WAKE_ALL \<longrightarrow> P' = {}"
    using n(3) card_subset_eq [OF fin S(1)] S(2) left by simp
  ultimately show ?thesis
    using n(1) by simp
qed

end

section \<open>The levels of the model\<close>

text \<open>
  A thread on its own, for a list of environment choices and values of the object, and the same script
  as the operations of \<open>Native_Wait\<close>: every turn of the loop of \<open>atomic_wait_expected_32\<close> is a run of the
  machine.
\<close>

fun nw_run :: "backend \<Rightarrow> 'v nw_args \<Rightarrow> (env \<times> 'v) list \<Rightarrow> 'v nw_local \<Rightarrow> 'v nw_local res" where
  "nw_run b a [] l = Inr l"
| "nw_run b a ((e, v) # xs) l = res_bind (nw_step b a e v l) (nw_run b a xs)"

definition script_wait ::
  "backend \<Rightarrow> (nat \<Rightarrow> env \<times> u32) \<Rightarrow> u32 \<Rightarrow> timespec option \<Rightarrow> int \<Rightarrow> nat \<Rightarrow> (int \<times> int \<times> nat) res"
  where
  "script_wait b f x rem err i =
     (case f i of (e, v) \<Rightarrow> case addr_wait b (env_os e) x v of
        Some r \<Rightarrow> Inr (r, err, Suc i)
      | None \<Rightarrow> (case f (Suc i) of (e', v') \<Rightarrow>
          Inr (- env_os e', err, Suc (Suc i))))"

definition script_ops :: "backend \<Rightarrow> (nat \<Rightarrow> env \<times> u32) \<Rightarrow> nat native_ops" where
  "script_ops b f =
     \<lparr>nt_load = (\<lambda>_ i. (snd (f i), Suc i)),
      nt_clock = (\<lambda>i. (env_clock_ret (fst (f i)), env_now (fst (f i)), Suc i)),
      nt_wait = script_wait b f\<rparr>"

fun turn_matches :: "nat turn \<Rightarrow> u32 nw_local \<Rightarrow> u32 \<Rightarrow> bool" where
  "turn_matches (Again e j) l x \<longleftrightarrow> nw_pc l = NW_Load \<and> nw_ret l = 1 \<and> nw_errno l = e \<and> nw_expected l = x"
| "turn_matches (Return r w e j) l x \<longleftrightarrow> nw_pc l = NW_Done \<and> nw_ret l = r \<and> nw_errno l = e \<and> nw_expected l = w"

text \<open>How many steps a thread that is not blocked has before it returns, once the object has another value.\<close>

fun steps_left :: "nw_pc \<Rightarrow> nat" where
  "steps_left NW_Clock = 4"
| "steps_left NW_Park = 3"
| "steps_left NW_Woken = 3"
| "steps_left NW_Start = 3"
| "steps_left NW_Load = 2"
| "steps_left NW_Reload = 1"
| "steps_left NW_Blocked = 0"
| "steps_left NW_Done = 0"

context address_backend
begin

lemma park_simulated:
  assumes "park_turn (script_ops b f) x rem (nw_errno l) i = Inr t" and "nw_pc l = NW_Park" and "nw_ret l = 1"
    and "\<not> nw_plain a" and "nw_expected l = x"
  shows "\<exists>js l'. nw_run b a (map f js) l = Inr l' \<and> sorted js \<and> set js \<subseteq> {i..} \<and> turn_matches t l' x"
proof -
  obtain e v e' v' where f: "f i = (e, v)" "f (Suc i) = (e', v')"
    by fastforce
  show ?thesis
  proof (cases "addr_wait b (env_os e) x v")
    case None
    let ?r = "- env_os e'"
    have "nw_run b a (map f [i, Suc i]) l = Inr (nw_after a ?r (l\<lparr>nw_pc := NW_Blocked\<rparr>))"
      using assms(2,5) f None by (simp add: nw_step_def nw_wait_def)
    moreover have "turn_matches t (nw_after a ?r (l\<lparr>nw_pc := NW_Blocked\<rparr>)) x"
      using assms f None
      by (auto simp: park_turn_def script_ops_def script_wait_def nw_after_def split: if_splits)
    ultimately show ?thesis
      by (intro exI [of _ "[i, Suc i]"] exI [of _ "nw_after a ?r (l\<lparr>nw_pc := NW_Blocked\<rparr>)"]) simp
  next
    case (Some r)
    have "nw_run b a (map f [i]) l = Inr (nw_after a r l)"
      using assms(2,5) f Some by (simp add: nw_step_def nw_wait_def)
    moreover have "turn_matches t (nw_after a r l) x"
      using assms f Some
      by (auto simp: park_turn_def script_ops_def script_wait_def nw_after_def split: if_splits)
    ultimately show ?thesis
      by (intro exI [of _ "[i]"] exI [of _ "nw_after a r l"]) simp
  qed
qed

lemma run_prefix:
  assumes "nw_run b a (map f is) l = Inr l1" and "nw_run b a (map f js) l1 = Inr l2"
  shows "nw_run b a (map f (is @ js)) l = Inr l2"
  using assms
proof (induction "is" arbitrary: l)
  case (Cons i "is")
  then show ?case
    by (cases "f i") (auto simp: res_bind_Inr_iff)
qed simp

lemma script_load: "nt_load (script_ops b f) c j = (snd (f j), Suc j)"
  by (simp add: script_ops_def)

text \<open>The three ways a turn goes: the value has changed; no time limit; a time limit.\<close>

lemma changed_simulated:
  assumes st: "expected_turn (script_ops b f) (nw_duration a) (nw_end l) (nw_success a) (nw_failure a)
      (nw_entry l) (nw_expected l) (nw_ret l) (nw_errno l) i = Inr t"
    and l: "nw_pc l = NW_Load" "\<not> nw_plain a" and v: "snd (f i) \<noteq> nw_expected l"
  shows "\<exists>js l'. nw_run b a (map f js) l = Inr l' \<and> sorted js \<and> set js \<subseteq> {i..} \<and> turn_matches t l' (nw_expected l)"
proof -
  let ?js = "if nw_ret l \<noteq> 0 \<and> nw_success a > nw_failure a then [i, Suc i] else [i]"
  let ?l = "l\<lparr>nw_expected := snd (f i), nw_errno := nw_entry l, nw_pc := NW_Done\<rparr>"
  have "nw_run b a (map f ?js) l = Inr ?l"
    using v l by (cases "f i"; cases "f (Suc i)") (simp add: nw_step_def nw_load_def)
  moreover have "turn_matches t ?l (nw_expected l)"
    using st v by (auto simp: expected_turn_def script_load Let_def)
  ultimately show ?thesis
    by (intro exI [of _ ?js]) auto
qed

lemma parking_simulated:
  assumes run: "nw_run b a (map f is) l = Inr l2" "sorted is" "set is \<subseteq> {i..<k}"
    and l2: "nw_pc l2 = NW_Park" "nw_ret l2 = 1" "nw_expected l2 = x" "nw_errno l2 = err"
    and a: "\<not> nw_plain a" and park: "park_turn (script_ops b f) x rem err k = Inr t" and k: "i \<le> k"
  shows "\<exists>js l'. nw_run b a (map f js) l = Inr l' \<and> sorted js \<and> set js \<subseteq> {i..} \<and> turn_matches t l' x"
proof -
  obtain js l' where js: "nw_run b a (map f js) l2 = Inr l'" "sorted js" "set js \<subseteq> {k..}" "turn_matches t l' x"
    using park_simulated [of f x rem l2 k t a] park l2 a by auto
  have "sorted (is @ js)"
    using run(2,3) js(2,3) by (fastforce simp: sorted_append)
  then show ?thesis
    using run_prefix [OF run(1) js(1)] js(3,4) run(3) k by (intro exI [of _ "is @ js"]) fastforce
qed

lemma untimed_simulated:
  assumes st: "expected_turn (script_ops b f) None (nw_end l) (nw_success a) (nw_failure a)
      (nw_entry l) (nw_expected l) (nw_ret l) (nw_errno l) i = Inr t"
    and l: "nw_pc l = NW_Load" "\<not> nw_plain a" "nw_duration a = None" and v: "snd (f i) = nw_expected l"
  shows "\<exists>js l'. nw_run b a (map f js) l = Inr l' \<and> sorted js \<and> set js \<subseteq> {i..} \<and> turn_matches t l' (nw_expected l)"
proof -
  let ?l2 = "l\<lparr>nw_ret := 1, nw_remaining := None, nw_pc := NW_Park\<rparr>"
  have "nw_run b a (map f [i, i]) l = Inr ?l2"
    using v l by (cases "f i") (simp add: nw_step_def nw_load_def nw_clock_def)
  moreover have "park_turn (script_ops b f) (nw_expected l) None (nw_errno l) (Suc i) = Inr t"
    using st v by (simp add: expected_turn_def script_load)
  ultimately show ?thesis
    using parking_simulated [of a f "[i, i]" l ?l2 i "Suc i"] l(2) by simp
qed

lemma timed_simulated:
  assumes st: "expected_turn (script_ops b f) (Some d) (nw_end l) (nw_success a) (nw_failure a)
      (nw_entry l) (nw_expected l) (nw_ret l) (nw_errno l) i = Inr t"
    and l: "nw_pc l = NW_Load" "\<not> nw_plain a" "nw_duration a = Some d" and v: "snd (f i) = nw_expected l"
  shows "\<exists>js l'. nw_run b a (map f js) l = Inr l' \<and> sorted js \<and> set js \<subseteq> {i..} \<and> turn_matches t l' (nw_expected l)"
proof -
  obtain e' v' where f': "f (Suc i) = (e', v')"
    by fastforce
  have clock: "nt_clock (script_ops b f) (Suc i) = (env_clock_ret e', env_now e', Suc (Suc i))"
    using f' by (simp add: script_ops_def)
  have turn: "res_bind (monotonic_now_posix (env_clock_ret e') (env_now e')) (\<lambda>now.
      if ts_passed now (nw_end l) then Inr (Return 0 (nw_expected l) ETIMEDOUT (Suc (Suc i)))
      else res_bind (ts_remaining (nw_end l) now) (\<lambda>rem.
        park_turn (script_ops b f) (nw_expected l) (Some rem) (nw_errno l) (Suc (Suc i)))) = Inr t"
    using st v clock by (simp add: expected_turn_def script_load)
  have ret0: "env_clock_ret e' = 0"
    using turn by (auto simp: monotonic_now_posix_def split: if_splits)
  note run = nw_step_def nw_load_def nw_clock_def monotonic_now_posix_def
  show ?thesis
  proof (cases "ts_passed (env_now e') (nw_end l)")
    case True
    let ?l2 = "l\<lparr>nw_errno := ETIMEDOUT, nw_ret := 0, nw_pc := NW_Done\<rparr>"
    have "nw_run b a (map f [i, Suc i]) l = Inr ?l2"
      using v l f' ret0 True by (cases "f i") (simp add: run)
    moreover have "turn_matches t ?l2 (nw_expected l)"
      using turn ret0 True by (auto simp: monotonic_now_posix_def)
    ultimately show ?thesis
      by (intro exI [of _ "[i, Suc i]"]) auto
  next
    case False
    obtain r where r: "ts_remaining (nw_end l) (env_now e') = Inr r"
        "park_turn (script_ops b f) (nw_expected l) (Some r) (nw_errno l) (Suc (Suc i)) = Inr t"
      using turn ret0 False by (auto simp: monotonic_now_posix_def res_bind_Inr_iff)
    let ?l2 = "l\<lparr>nw_ret := 1, nw_remaining := Some r, nw_pc := NW_Park\<rparr>"
    have "nw_run b a (map f [i, Suc i]) l = Inr ?l2"
      using v l f' ret0 False r(1) by (cases "f i") (simp add: run)
    then show ?thesis
      using parking_simulated [of a f "[i, Suc i]" l ?l2 i "Suc (Suc i)"] l(2) r(2) by simp
  qed
qed

theorem turn_simulated:
  assumes "expected_turn (script_ops b f) (nw_duration a) (nw_end l) (nw_success a) (nw_failure a)
      (nw_entry l) (nw_expected l) (nw_ret l) (nw_errno l) i = Inr t"
    and "nw_pc l = NW_Load" "\<not> nw_plain a"
  shows "\<exists>js l'. nw_run b a (map f js) l = Inr l' \<and> sorted js \<and> set js \<subseteq> {i..} \<and> turn_matches t l' (nw_expected l)"
  using assms changed_simulated [OF assms] untimed_simulated [of f l a i t] timed_simulated [of f _ l a i t]
  by (cases "snd (f i) = nw_expected l"; cases "nw_duration a") auto

section \<open>Returning\<close>

lemma step_closer:
  assumes ok: "nw_ok a l" and e: "valid_env e" and v: "v \<noteq> nw_expected0 a" and b: "nw_pc l \<noteq> NW_Blocked"
  shows "\<exists>l'. nw_step b a e v l = Inr l' \<and> nw_ok a l' \<and> nw_pc l' \<noteq> NW_Blocked
    \<and> (nw_pc l' \<noteq> NW_Done \<longrightarrow> steps_left (nw_pc l') < steps_left (nw_pc l))"
proof -
  obtain l' where l': "nw_step b a e v l = Inr l'" "nw_ok a l'" "nw_pc l' = NW_Blocked \<longrightarrow> v = nw_expected l'"
    using nw_step_ok [OF ok e, of v] by blast
  have nb: "nw_pc l' \<noteq> NW_Blocked"
    using l'(2,3) v by (auto simp: nw_ok_def)
  have "nw_pc l' \<noteq> NW_Done \<longrightarrow> steps_left (nw_pc l') < steps_left (nw_pc l)"
    using l'(1) nb b ok v
    by (cases "nw_pc l")
      (auto simp: nw_step_def nw_start_def nw_load_def nw_clock_def nw_wait_def nw_after_def nw_ok_def Let_def
        res_bind_Inr_iff split: option.splits if_splits)
  then show ?thesis
    using l' nb by blast
qed

theorem returns_alone:
  assumes "nw_ok a l" and "\<forall>e\<in>set es. valid_env e" and "v \<noteq> nw_expected0 a" and "nw_pc l \<noteq> NW_Blocked"
    and "steps_left (nw_pc l) \<le> length es"
  shows "\<exists>l'. nw_run b a (map (\<lambda>e. (e, v)) es) l = Inr l' \<and> nw_pc l' = NW_Done \<and> nw_ok a l'"
  using assms
proof (induction es arbitrary: l)
  case Nil
  then show ?case
    by (cases "nw_pc l") auto
next
  case (Cons e es)
  obtain l1 where l1: "nw_step b a e v l = Inr l1" "nw_ok a l1" "nw_pc l1 \<noteq> NW_Blocked"
      "nw_pc l1 \<noteq> NW_Done \<longrightarrow> steps_left (nw_pc l1) < steps_left (nw_pc l)"
    using step_closer [of a l e v] Cons.prems by auto
  have "steps_left (nw_pc l1) \<le> length es"
    using l1(4) Cons.prems(5) by (cases "nw_pc l1 = NW_Done") auto
  then show ?case
    using Cons.IH [of l1] Cons.prems l1 by simp
qed

end

section \<open>Runs\<close>

lemma nset_nset: "nset t th' (nset t th s) = nset t th' s"
  by (simp add: nset_def)

text \<open>A thread that runs on its own.\<close>

lemma nreachable_run:
  assumes "nreachable b N s" and "nthreads s t = NWaiting a l" and "\<forall>e\<in>set es. valid_env e"
    and "nw_run b a (map (\<lambda>e. (e, cells s (nw_object a))) es) l = Inr l'"
  shows "nreachable b N (nset t (NWaiting a l') s)"
  using assms
proof (induction es arbitrary: s l)
  case Nil
  then show ?case
    by (simp add: nset_def fun_upd_idem)
next
  case (Cons e es)
  obtain l1 where l1: "nw_step b a e (cells s (nw_object a)) l = Inr l1"
      "nw_run b a (map (\<lambda>e. (e, cells s (nw_object a))) es) l1 = Inr l'"
    using Cons.prems(4) by (auto simp: res_bind_Inr_iff)
  have "valid_env e"
    using Cons.prems(3) by simp
  then have "nreachable b N (nset t (NWaiting a l1) s)"
    using nnext [OF Cons.prems(1)] nwait [OF Cons.prems(2) _ l1(1)] by blast
  then show ?case
    using Cons.IH [of "nset t (NWaiting a l1) s" l1] Cons.prems(3) l1(2) by (simp add: nset_def)
qed

text \<open>Thread 0 waits for the object at address 64 to change from 7 and blocks; thread 1 is about to wake all.\<close>

definition word_wait :: "u32 nw_args" where
  "word_wait =
     \<lparr>nw_object = 64, nw_expected0 = 7, nw_duration = None, nw_success = Seq_Cst, nw_failure = Relaxed,
      nw_plain = False\<rparr>"

definition word_blocked :: "u32 nw_local" where
  "word_blocked = (nw_enter word_wait 0)\<lparr>nw_ret := 1, nw_pc := NW_Blocked\<rparr>"

definition nstart :: "u32 nsys" where
  "nstart = \<lparr>cells = (\<lambda>_. 0)(64 := 7), nthreads = (\<lambda>_. NIdle), ndirty = (\<lambda>_. False)\<rparr>"

definition nblocked :: "u32 nsys" where
  "nblocked = nset 0 (NWaiting word_wait word_blocked) nstart"

definition nwaking :: "u32 nsys" where
  "nwaking = nset 1 (NNotifying (nx_enter True 64 0 0 WAKE_ALL 0)) nblocked"

definition calm_env :: env where
  "calm_env = \<lparr>env_clock_ret = 0, env_now = \<lparr>tv_sec = 0, tv_nsec = 0\<rparr>, env_os = 0\<rparr>"

lemma calm_env_valid: "valid_env calm_env"
  by (simp add: calm_env_def valid_env_def valid_ts_def)

lemma nblocked_reachable: "nreachable Linux 2 nblocked"
proof -
  let ?s = "nset 0 (NWaiting word_wait (nw_enter word_wait 0)) nstart"
  have "nreachable Linux 2 ?s"
    using nnext [OF ninit ncall_wait, of nstart 0 2 word_wait Linux 0]
    by (simp add: nstart_def nw_valid_def word_wait_def)
  moreover have "nw_run Linux word_wait (map (\<lambda>e. (e, cells ?s (nw_object word_wait))) (replicate 4 calm_env))
      (nw_enter word_wait 0) = Inr word_blocked"
    by (simp add: numeral_eq_Suc nw_step_def nw_start_def nw_load_def nw_clock_def nw_wait_def addr_wait_def
        word_wait_def word_blocked_def nw_enter_def calm_env_def nset_def nstart_def Let_def)
  ultimately show ?thesis
    using nreachable_run [of Linux 2 ?s 0 word_wait "nw_enter word_wait 0" "replicate 4 calm_env" word_blocked]
      calm_env_valid nset_nset [of 0 "NWaiting word_wait word_blocked"]
    by (simp add: nset_def nblocked_def)
qed

lemma nwaking_reachable: "nreachable Linux 2 nwaking"
proof -
  have "nthreads nblocked 1 = NIdle"
    by (simp add: nblocked_def nset_def nstart_def)
  then show ?thesis
    using nnext [OF nblocked_reachable ncall_notify, of 1 True 64 0 0 WAKE_ALL 0] by (simp add: nwaking_def)
qed

text \<open>The object changes to 8, thread 1 wakes all, and thread 0 runs until it returns.\<close>

definition nwoken :: "u32 nsys" where
  "nwoken = nwake 1 (nx_enter True 64 0 0 WAKE_ALL 0) True ((nx_enter True 64 0 0 WAKE_ALL 0)\<lparr>nx_pc := NX_Done\<rparr>)
     {0} (nwrite 64 8 nwaking)"

definition word_returned :: "u32 nw_local" where
  "word_returned = word_blocked\<lparr>nw_expected := 8, nw_pc := NW_Done\<rparr>"

definition nreturned :: "u32 nsys" where
  "nreturned = nset 0 (NWaiting word_wait word_returned) nwoken"

lemmas nrun_defs =
  nwoken_def nwaking_def nblocked_def nwake_def nwrite_def nset_def nstart_def nx_enter_def

lemma nwoken_ready:
  "\<exists>l. nthreads nwoken 0 = NWaiting word_wait l \<and> nw_pc l \<noteq> NW_Blocked
     \<and> cells nwoken (nw_object word_wait) \<noteq> nw_expected0 word_wait"
  by (simp add: nrun_defs word_wait_def)

lemma nwoken_reachable: "nreachable Linux 2 nwoken"
proof -
  let ?s = "nwrite 64 8 nwaking" and ?l = "nx_enter True 64 0 0 WAKE_ALL 0 :: u32 nx_local"
  have s: "nreachable Linux 2 ?s"
    by (rule nnext [OF nwaking_reachable nstore])
  have t: "nthreads ?s 1 = NNotifying ?l" "nx_pc ?l = NX_Wake"
    by (simp_all add: nrun_defs)
  have P: "{0} = {u. blocked_on (nx_object ?l) (nthreads ?s u)}"
    by (auto simp: nrun_defs word_wait_def word_blocked_def)
  have aw: "addr_wake Linux [] WAKE_ALL 1 = (1, 1)"
    by code_simp
  then have w: "nx_wake Linux [] (card {0 :: nat}) ?l = Inr (?l\<lparr>nx_pc := NX_Done\<rparr>, 1)"
      "0 \<le> fst (addr_wake Linux [] (nx_max ?l) (card {0 :: nat}))"
    by (simp_all add: nx_wake_def nx_enter_def)
  show ?thesis
    using nnext [OF s nwake [OF t P _ w(1) subset_refl]] w(2)
    by (simp add: nwoken_def valid_os_def del: addr_wake.simps)
qed

lemma nreturned_reachable: "nreachable Linux 2 nreturned"
proof -
  have "nw_run Linux word_wait (map (\<lambda>e. (e, cells nwoken (nw_object word_wait))) (replicate 3 calm_env))
      (word_blocked\<lparr>nw_pc := NW_Woken\<rparr>) = Inr word_returned"
    by (simp add: numeral_eq_Suc nw_step_def nw_load_def nw_wait_def nw_after_def hard_error_def
        word_wait_def word_blocked_def word_returned_def nw_enter_def nrun_defs memory_order_less)
  then show ?thesis
    using nreachable_run [OF nwoken_reachable, of 0 word_wait "word_blocked\<lparr>nw_pc := NW_Woken\<rparr>" "replicate 3 calm_env"]
      calm_env_valid
    by (simp add: nreturned_def nrun_defs)
qed

lemma nreturned_done:
  "\<exists>l. nthreads nreturned 0 = NWaiting word_wait l \<and> nw_pc l = NW_Done \<and> nw_ret l = 1 \<and> nw_expected l = 8"
  by (simp add: nreturned_def nset_def word_returned_def word_blocked_def)

end
