(* ===== verification/Notify_Results.thy ===== *)
theory Notify_Results
  imports Pthread_Counts Native_Wait
begin

text \<open>
  What \<open>atomic_notify_generic\<close> returns on the pthreads backend, where \<open>atomic_notify_32\<close> adds one to it: zero
  exactly if the object has no proxy, otherwise a positive count of at most the number of threads, or a
  negated error.
\<close>

lemma pthread_woken_bounds:
  assumes "0 \<le> waiting p"
  shows "1 \<le> pthread_woken m p \<and> pthread_woken m p \<le> max 1 (waiting p)"
  using assms by (auto simp: pthread_woken_def Let_def)

lemma pthread_wake_result:
  assumes "pthread_proxy_wake os m n parked p = (r, j, p')" and "valid_os os" and "0 \<le> waiting p"
  shows "r < 0 \<or> 1 \<le> r \<and> r \<le> max 1 (waiting p)"
proof -
  obtain r1 s1 r2 s2 where s: "os_next os = (r1, s1)" "os_next s1 = (r2, s2)"
    by (metis surj_pair)
  then have "0 \<le> r1" "0 \<le> r2"
    using assms(2) by (auto simp: os_next_def valid_os_def split: list.splits)
  then show ?thesis
    using assms(1) s pthread_woken_bounds [of "p\<lparr>pending := pthread_tokens m n p\<rparr>" m] assms(3)
    by (auto simp: pthread_proxy_wake_def Let_def split: if_splits)
qed

definition result_ok :: "nat \<Rightarrow> notify_local \<Rightarrow> bool" where
  "result_ok N l \<longleftrightarrow>
     (if nitem l = NULL then nret l = 0 else nret l < 0 \<or> 1 \<le> nret l \<and> nret l \<le> max 1 (int N))"

fun notifier_ok :: "nat \<Rightarrow> thread \<Rightarrow> bool" where
  "notifier_ok N (Notifying l) \<longleftrightarrow>
     (npc l = N_Wake \<longrightarrow> nitem l \<noteq> NULL) \<and> (npc l \<in> {N_Unlock, N_Done} \<longrightarrow> result_ok N l)"
| "notifier_ok N _ \<longleftrightarrow> True"

lemma notify_step_result:
  assumes "notify_step ops sh l = Inr (sh', l')" and "notifier_ok N (Notifying l)"
  shows "notifier_ok N (Notifying l')"
proof (cases "npc l = N_Find")
  case True
  then obtain p e where "l' = l\<lparr>nitem := p, nerrno := e, nret := 0, npc := if p = NULL then N_Unlock else N_Wake\<rparr>"
    using assms(1) by (auto simp: notify_step_def n_find_def res_bind_Inr_iff)
  then show ?thesis
    by (auto simp: result_ok_def)
next
  case False
  then show ?thesis
    using assms by (cases "npc l") (auto simp: notify_step_def result_ok_def split: prod.splits if_splits)
qed

lemma sleepers_few:
  assumes "sys_inv calm N s"
  shows "nsleep (threads s) k \<le> int N"
proof -
  have "sleepers (threads s) k \<subseteq> users_of (threads s) k"
    using sleepers_registered [OF assms] by (auto simp: sleepers_def users_of_def)
  then have "sleepers (threads s) k \<subseteq> {..<N}"
    using users_of_bound [of N "threads s" k] sys_inv_parts(6) [OF assms] by blast
  then show ?thesis
    using card_mono [of "{..<N}" "sleepers (threads s) k"] by (simp add: nsleep_def)
qed

lemma wake_step_result:
  assumes inv: "sys_inv os_calm N s" and ci: "counts_inv N s"
    and t: "threads s t = Notifying l" "npc l = N_Wake" "nitem l \<noteq> NULL" and os: "valid_os os"
    and st: "n_wake pthread_ops os parked (shr s) l = Inr (sh, l', n)"
  shows "notifier_ok N (Notifying l')"
proof -
  obtain m c where v: "view (wld (shr s)) (nobject l) = Some (nitem l, m, c)"
    using sys_inv_parts(4) [OF inv] t unfolding wakers_agree_def by blast
  then obtain px where px: "heap (wld (shr s)) (nitem l) = Some px" "atomic px = c"
    by (auto simp: view_Some)
  obtain r j c' where w: "pthread_proxy_wake os (nmax l) (use_count px) parked c = (r, j, c')"
    by (metis prod_cases3)
  have "0 \<le> waiting c" "waiting c \<le> int N"
    using counts_invD [OF ci v] sleepers_few [OF inv, of "nobject l"] by (simp_all add: nsleep_def)
  then have "r < 0 \<or> 1 \<le> r \<and> r \<le> max 1 (int N)"
    using pthread_wake_result [OF w os] by auto
  then show ?thesis
    using st px w t(3) by (auto simp: n_wake_def result_ok_def)
qed

theorem reachable_notifier:
  assumes "reachable pthread_ops os_calm N s" and N: "int N < INT_MAX"
  shows "notifier_ok N (threads s t)"
  using assms(1)
proof (induction arbitrary: t)
  case (init s)
  then show ?case
    by (simp add: sys_init_def)
next
  case (step s s')
  have inv: "sys_inv os_calm N s" "counts_inv N s"
    using pthread_sys.reachable_inv [OF step.hyps(1) N] reachable_counts [OF step.hyps(1) N] by auto
  from step.hyps(2) show ?case
  proof cases
    case (notify u l sh l')
    then show ?thesis
      using notify_step_result [of pthread_ops "shr s" l sh l' N] step.IH [of u] step.IH [of t]
      by (auto simp: after_notify_step_def)
  next
    case (wake u l P os sh l' n S)
    have "notifier_ok N (Notifying l')"
      using wake_step_result [OF inv wake(2,3) _ wake(5,6)] step.IH [of u] wake(2,3) by simp
    moreover have "notifier_ok N (wake_thread (threads s t))"
      using step.IH [of t] by (cases "threads s t") auto
    ultimately show ?thesis
      using step.IH [of t] wake(1) by (auto simp: after_wake_def)
  qed (use step.IH [of t] in \<open>auto simp: after_wait_step_def after_store_def notify_enter_def\<close>)
qed

text \<open>So one can be added to it, as \<open>atomic_notify_32\<close> does.\<close>

lemma result_added:
  assumes "result_ok N l" and "int N < INT_MAX" and "m \<noteq> 0"
  shows "atomic_notify_32 (\<lambda>m e w. (nret l, nerrno l, w)) v v desired m err w =
    Inr (if nret l < 0 then (nret l, desired, v, - nret l, w) else (1 + nret l, desired, v, nerrno l, w))"
  using assms by (auto simp: result_ok_def atomic_notify_32_def c_int_def INT_MAX_def INT_MIN_def split: if_splits)

end
