(* ===== verification/Wait_Progress.thy ===== *)
theory Wait_Progress
  imports Schedules
begin

text \<open>
  Progress and time in \<open>atomic_wait_generic\<close>: the deadline is fixed on entry and the expiry test is
  exact; a thread that sees a change and runs while the table lock is free returns within a
  fixed number of steps.
\<close>

section \<open>The deadline\<close>

lemma end_time_frozen:
  assumes "wait_step ops a e sh l = Inr (sh', l')" and "pc l \<noteq> W_Start"
  shows "end_time l' = end_time l"
  using assms
  by (cases "pc l")
    (auto simp: wait_step_def local_step_Inr w_load_def w_recheck_def w_reload_def w_acquire_lock_def
      w_find_def w_counter_def w_clock_def w_park_def w_resume_def blocked_def after_wait_def w_tail_def
      w_release_def res_bind_Inr_iff Let_def split: prod.splits option.splits if_splits)

lemma start_deadline:
  assumes "pc l = W_Start" and "duration a = Some d" and "valid_ts d" and "valid_env e"
  shows "\<exists>l'. wait_step ops a e sh l = Inr (sh, l') \<and> pc l' = W_Load
    \<and> ts_deadline (env_now e) d = Inr (end_time l') \<and> ns (end_time l') = ns (env_now e) + ns d"
proof -
  obtain t where "ts_deadline (env_now e) d = Inr t" "ns t = ns (env_now e) + ns d"
    using ts_deadline_exact assms(3,4) by (auto simp: valid_env_def)
  then show ?thesis
    using assms by (simp add: wait_step_def local_step_def w_start_def monotonic_now_posix_def valid_env_def)
qed

text \<open>The expiry test compares the clock with the start plus the duration, in nanoseconds.\<close>

lemma clock_exact:
  assumes pc: "pc l = W_Clock" and d: "duration a = Some d" "valid_ts d" and start: "valid_ts t0"
    and dl: "ts_deadline t0 d = Inr (end_time l)" and env: "valid_env e"
  shows "\<exists>l'. wait_step ops a e sh l = Inr (sh, l') \<and>
    (if ns t0 + ns d \<le> ns (env_now e)
     then pc l' = W_Tail \<and> ret l' = 0 \<and> terrno l' = ETIMEDOUT \<and> errno_is_set l'
     else pc l' = W_Park \<and> (\<exists>r. remaining l' = Some r \<and> ns r = ns t0 + ns d - ns (env_now e)))"
proof -
  have e: "ns (end_time l) = ns t0 + ns d" "0 \<le> tv_sec (end_time l)" "tv_sec (end_time l) < 2 ^ 63"
      "0 \<le> tv_nsec (end_time l)" "tv_nsec (end_time l) < 1000000000"
    using ts_deadline_exact [OF start d(2)] dl by auto
  have now: "valid_ts (env_now e)"
    using env by (simp add: valid_env_def)
  have p: "ts_passed (env_now e) (end_time l) \<longleftrightarrow> ns t0 + ns d \<le> ns (env_now e)"
    using ts_passed_ns [of "env_now e" "end_time l"] e now by (simp add: valid_ts_def)
  show ?thesis
  proof (cases "ts_passed (env_now e) (end_time l)")
    case True
    then show ?thesis
      using pc d env p
      by (simp add: wait_step_def local_step_def w_clock_def monotonic_now_posix_def valid_env_def)
  next
    case False
    then obtain r where "ts_remaining (end_time l) (env_now e) = Inr r"
        "ns r = ns (end_time l) - ns (env_now e)"
      using ts_remaining_exact [OF now e(2-5)] by blast
    then show ?thesis
      using pc d env p False e(1)
      by (simp add: wait_step_def local_step_def w_clock_def monotonic_now_posix_def valid_env_def)
  qed
qed

section \<open>Returning\<close>

text \<open>How a wait that was timed out returns: with the change, if there was one, and with \<open>ETIMEDOUT\<close> otherwise.\<close>

definition ends_timed_out ::
  "('p, 'o) wait_ops_scheme \<Rightarrow> wait_args \<Rightarrow> 'p shared \<Rightarrow> wait_local \<Rightarrow> env list \<Rightarrow> bool" where
  "ends_timed_out ops a sh l es \<longleftrightarrow>
     (\<exists>sh' l'. wait_run ops a es sh l = Inr (sh', l') \<and> pc l' = W_Done
        \<and> (if load_bytes (mem sh) (object a) (bytes a) = expected l
           then ret l' = 0 \<and> terrno l' = ETIMEDOUT \<and> expected l' = expected l
           else ret l' = 1 \<and> terrno l' = entry_errno l \<and> expected l' = load_bytes (mem sh) (object a) (bytes a)))"

context wait_backend
begin

text \<open>The common tail, with the lock free.\<close>

lemma solo_tail:
  assumes pre: "step_pre calm a sh l" and pc: "pc l = W_Tail" and i: "item l \<noteq> NULL" "\<not> lock_is_held l"
    and free: "\<not> held (wld sh)"
  shows "\<exists>sh' l'. wait_run ops a [e1, e2, e3, e4] sh l = Inr (sh', l') \<and> pc l' = W_Done \<and> ret l' = ret l
    \<and> expected l' = expected l \<and> terrno l' = (if errno_is_set l then terrno l else entry_errno l)
    \<and> \<not> held (wld sh')"
proof -
  note parts = step_pre_parts [OF pre]
  let ?se = "if errno_is_set l then terrno l else entry_errno l"
  let ?l1 = "l\<lparr>save_errno := ?se, pc := W_Tail_Lock\<rparr>"
  let ?l2 = "?l1\<lparr>pc := W_Release\<rparr>"
  let ?sh = "sh\<lparr>wld := (wld sh)\<lparr>table := (table (wld sh))\<lparr>lock := True\<rparr>\<rparr>\<rparr>"
  have s1: "wait_step ops a e1 sh l = Inr (sh, ?l1)"
    using pc i by (simp add: wait_step_def w_tail_def)
  have s2: "wait_step ops a e2 sh ?l1 = Inr (?sh, ?l2)"
    using free by (simp add: wait_step_def w_acquire_lock_def lock_step_def hash_table_lock_def)
  obtain n c where v: "view (wld sh) (object a) = Some (item l, n, c)"
    using parts(6) i pc by auto
  have "local_ok ?l2"
    using i local_ok_end [OF parts(4)] pc by (simp add: local_ok_def)
  then have pre2: "step_pre calm a ?sh ?l2"
    using parts(1-3) v by (simp add: step_pre_def counts_small_def)
  have "pc ?l2 = W_Release"
    by simp
  from w_release_eff [OF pre2 this]
  obtain sh3 l3 where s3: "w_release ops a ?sh ?l2 = Inr (sh3, l3)"
    by blast
  then obtain x where l3: "l3 = ?l2\<lparr>terrno := x, pc := W_Tail_Unlock\<rparr>"
    by (auto simp: w_release_def res_bind_Inr_iff)
  have "wait_run ops a [e1, e2, e3, e4] sh l =
      Inr (unlock_step sh3, l3\<lparr>terrno := save_errno l3, pc := W_Done\<rparr>)"
    using s1 s2 s3 l3 by (simp add: wait_step_def)
  then show ?thesis
    by (simp add: l3 unlock_step_def hash_table_unlock_def)
qed

text \<open>From a load that sees a change to the return; \<open>W_Done\<close> absorbs the steps not needed.\<close>

lemma wait_run_append:
  "wait_run ops a (xs @ ys) sh l = res_bind (wait_run ops a xs sh l) (\<lambda>(sh1, l1). wait_run ops a ys sh1 l1)"
proof (induction xs arbitrary: sh l)
  case (Cons e xs)
  then show ?case
    by (cases "wait_step ops a e sh l") auto
qed simp

lemma tail_pre:
  assumes pre: "step_pre calm a sh l" and pc: "pc l \<in> {W_Load, W_Clock}" and i: "item l \<noteq> NULL"
    and k: "item k = item l" "lock_is_held k = lock_is_held l" "end_time k = end_time l"
  shows "step_pre calm a sh (k\<lparr>pc := W_Tail\<rparr>)"
proof -
  note parts = step_pre_parts [OF pre]
  have nh: "\<not> lock_is_held l"
    using local_ok_unheld [OF parts(4)] pc by auto
  obtain n c where v: "view (wld sh) (object a) = Some (item l, n, c)"
    using parts(6) i pc by auto
  have "local_ok (k\<lparr>pc := W_Tail\<rparr>)"
    using k nh local_ok_end [OF parts(4)] pc by (auto simp: local_ok_def)
  then show ?thesis
    using k parts(1-3) v nh by (simp add: step_pre_def)
qed

lemma solo_return:
  assumes pre: "step_pre calm a sh l" and pc: "pc l = W_Load" and i: "item l \<noteq> NULL"
    and r: "ret l = 1" "\<not> errno_is_set l" and free: "\<not> held (wld sh)"
    and ch: "load_bytes (mem sh) (object a) (bytes a) \<noteq> expected l"
  shows "\<exists>sh' l'. wait_run ops a [e1, e2, e3, e4, e5, e6] sh l = Inr (sh', l') \<and> pc l' = W_Done \<and> ret l' = 1
    \<and> expected l' = load_bytes (mem sh) (object a) (bytes a) \<and> terrno l' = entry_errno l
    \<and> \<not> held (wld sh')"
proof -
  let ?v = "load_bytes (mem sh) (object a) (bytes a)"
  let ?l1 = "l\<lparr>loads := loads l @ [(failure a, ?v)], expected := ?v\<rparr>"
  note parts = step_pre_parts [OF pre]
  have w: "atomic_load_generic (mem sh) (object a) (bytes a) = Inr ?v"
    using parts(3) by (intro atomic_load_generic_ok) (simp add: valid_call_def)
  have nh: "\<not> lock_is_held l"
    using local_ok_unheld [OF parts(4)] pc by simp
  note tail = tail_pre [OF pre _ i]
  show ?thesis
  proof (cases "failure a < success a")
    case False
    let ?k = "?l1\<lparr>pc := W_Tail\<rparr>"
    have "wait_step ops a e1 sh l = Inr (sh, ?k)"
      using pc w ch False by (simp add: wait_step_def local_step_def w_load_def Let_def)
    moreover have "step_pre calm a sh ?k"
      by (rule tail) (simp_all add: pc)
    then obtain sh' l' where t: "wait_run ops a [e2, e3, e4, e5] sh ?k = Inr (sh', l')" "pc l' = W_Done"
        "ret l' = 1" "expected l' = ?v" "terrno l' = entry_errno l" "\<not> held (wld sh')"
      using solo_tail [of a sh ?k e2 e3 e4 e5] i nh r free by auto
    moreover have "wait_step ops a e6 sh' l' = Inr (sh', l')"
      using t(2) by (simp add: wait_step_def)
    ultimately show ?thesis
      using wait_run_append [of a "[e2, e3, e4, e5]" "[e6]" sh ?k] by simp
  next
    case True
    let ?k = "?l1\<lparr>loads := loads l @ [(failure a, ?v), (success a, ?v)], pc := W_Tail\<rparr>"
    have "wait_step ops a e1 sh l = Inr (sh, ?l1\<lparr>pc := W_Reload\<rparr>)"
      using pc w ch True r by (simp add: wait_step_def local_step_def w_load_def Let_def)
    moreover have "wait_step ops a e2 sh (?l1\<lparr>pc := W_Reload\<rparr>) = Inr (sh, ?k)"
      using w by (simp add: wait_step_def local_step_def w_reload_def)
    moreover have "step_pre calm a sh ?k"
      by (rule tail) (simp_all add: pc)
    then obtain sh' l' where t: "wait_run ops a [e3, e4, e5, e6] sh ?k = Inr (sh', l')" "pc l' = W_Done"
        "ret l' = 1" "expected l' = ?v" "terrno l' = entry_errno l" "\<not> held (wld sh')"
      using solo_tail [of a sh ?k e3 e4 e5 e6] i nh r free by auto
    ultimately show ?thesis
      by simp
  qed
qed

text \<open>The same in a reachable state.\<close>

lemma reachable_return:
  assumes re: "reachable ops calm N s" and N: "int N < INT_MAX" and t: "threads s t = Waiting a l"
    and pc: "pc l = W_Load" "item l \<noteq> NULL" and free: "\<forall>u. \<not> critical (threads s u)"
    and ch: "load_bytes (mem (shr s)) (object a) (bytes a) \<noteq> expected l"
  shows "\<exists>sh' l'. wait_run ops a [e1, e2, e3, e4, e5, e6] (shr s) l = Inr (sh', l') \<and> pc l' = W_Done
    \<and> ret l' = 1 \<and> expected l' = load_bytes (mem (shr s)) (object a) (bytes a)
    \<and> terrno l' = entry_errno l"
proof -
  have "ret l = 1" "\<not> errno_is_set l"
    using reachable_result [OF re t] pc by (simp_all add: result_inv_def going_def)
  moreover have "\<not> held (wld (shr s))"
    using reachable_lock_free [OF re N] free by blast
  ultimately show ?thesis
    using solo_return [OF wait_pre [OF reachable_inv [OF re N] N t] pc] ch by blast
qed

text \<open>From a load that sees no change, with the deadline passed, to the return.\<close>

lemma solo_expire:
  assumes pre: "step_pre calm a sh l" and pc: "pc l = W_Load" and i: "item l \<noteq> NULL"
    and free: "\<not> held (wld sh)" and same: "load_bytes (mem sh) (object a) (bytes a) = expected l"
    and d: "duration a = Some d" and e2: "valid_env e2" "ts_passed (env_now e2) (end_time l)"
  shows "\<exists>sh' l'. wait_run ops a [e1, e2, e3, e4, e5, e6] sh l = Inr (sh', l') \<and> pc l' = W_Done \<and> ret l' = 0
    \<and> expected l' = expected l \<and> terrno l' = ETIMEDOUT \<and> \<not> held (wld sh')"
proof -
  let ?v = "load_bytes (mem sh) (object a) (bytes a)"
  let ?l1 = "l\<lparr>loads := loads l @ [(failure a, ?v)], pc := W_Clock\<rparr>"
  let ?k = "?l1\<lparr>terrno := ETIMEDOUT, errno_is_set := True, ret := 0, pc := W_Tail\<rparr>"
  note parts = step_pre_parts [OF pre]
  have w: "atomic_load_generic (mem sh) (object a) (bytes a) = Inr ?v"
    using parts(3) by (intro atomic_load_generic_ok) (simp add: valid_call_def)
  have "wait_step ops a e1 sh l = Inr (sh, ?l1)"
    using pc w same i by (simp add: wait_step_def local_step_def w_load_def Let_def)
  moreover have "wait_step ops a e2 sh ?l1 = Inr (sh, ?k)"
    using d e2 by (simp add: wait_step_def local_step_def w_clock_def monotonic_now_posix_def valid_env_def)
  moreover have "step_pre calm a sh ?k"
    by (rule tail_pre [OF pre _ i]) (simp_all add: pc)
  then obtain sh' l' where "wait_run ops a [e3, e4, e5, e6] sh ?k = Inr (sh', l')" "pc l' = W_Done" "ret l' = 0"
      "expected l' = expected l" "terrno l' = ETIMEDOUT" "\<not> held (wld sh')"
    using solo_tail [of a sh ?k e3 e4 e5 e6] i local_ok_unheld [OF parts(4)] pc free by auto
  ultimately show ?thesis
    by simp
qed

text \<open>
  The return of the blocking call, woken or timed out, up to the load at the top of the loop. A blocked
  thread whose wait ends with a timeout at or after the deadline returns: with the change, if
  there was one, and with \<open>ETIMEDOUT\<close> otherwise.
\<close>

lemma resume_steps:
  assumes re: "reachable ops calm N s" and N: "int N < INT_MAX" and t: "threads s t = Waiting a l"
    and pc: "pc l = W_Parked \<and> x = env_os e1 \<or> pc l = W_Woken \<and> x = 0" and e1: "valid_env e1" and e2: "valid_env e2"
    and x: "x \<in> {0, ETIMEDOUT}" and law: "\<And>c. payload (item l) (shr s) = Inr c \<Longrightarrow> fst (px_resume ops x c) = Some (- x)"
  shows "\<exists>s2 l2. reachable ops calm N s2 \<and> threads s2 = (threads s)(t := Waiting a l2) \<and> mem (shr s2) = mem (shr s)
    \<and> wait_run ops a [e1, e2] (shr s) l = Inr (shr s2, l2) \<and> pc l2 = W_Load \<and> item l2 = item l
    \<and> expected l2 = expected l \<and> entry_errno l2 = entry_errno l \<and> end_time l2 = end_time l"
proof -
  obtain sh1 l1 where s1: "wait_step ops a e1 (shr s) l = Inr (sh1, l1)"
      "step_eff calm (object a) (shr s) (Waiting a l) sh1 (Waiting a l1)"
    using wait_step_eff [OF wait_pre [OF reachable_inv [OF re N] N t] e1] by auto
  obtain c where c: "payload (item l) (shr s) = Inr c" "blocked (item l) (px_resume ops x c) (shr s) l = (sh1, l1)"
    using s1(1) pc by (auto simp: wait_step_def w_resume_def res_bind_Inr_iff)
  then have l1: "l1 = l\<lparr>pc := W_Recount\<rparr>"
    using law [OF c(1)] x by (auto simp: blocked_def after_wait_def)
  let ?s1 = "after_wait_step t a l sh1 l1 s"
  have r1: "reachable ops calm N ?s1" "threads ?s1 t = Waiting a l1" "shr ?s1 = sh1"
    using reachable.step [OF re sys_step.wait [OF t e1 s1(1)]] by (simp_all add: after_wait_step_def)
  obtain sh2 l2 where s2: "wait_step ops a e2 sh1 l1 = Inr (sh2, l2)"
    using wait_step_eff [OF wait_pre [OF reachable_inv [OF r1(1) N] N r1(2)] e2] r1(3) by auto
  then have l2: "sh2 = sh1" "pc l2 = W_Load" "item l2 = item l" "expected l2 = expected l"
      "entry_errno l2 = entry_errno l" "end_time l2 = end_time l"
    using l1 by (auto simp: wait_step_def local_step_def w_counter_def res_bind_Inr_iff)
  let ?s2 = "after_wait_step t a l1 sh2 l2 ?s1"
  have "reachable ops calm N ?s2"
    using reachable.step [OF r1(1) sys_step.wait [OF r1(2) e2]] s2 r1(3) by simp
  then show ?thesis
    using s1 s2 l2 by (intro exI [of _ ?s2] exI [of _ l2]) (auto simp: after_wait_step_def step_eff_def)
qed

lemma reachable_timeout:
  assumes re: "reachable ops calm N s" and N: "int N < INT_MAX" and t: "threads s t = Waiting a l"
    and pc: "pc l = W_Parked" and free: "\<forall>u. \<not> critical (threads s u)" and d: "duration a = Some d"
    and env: "valid_env e1" "env_os e1 = ETIMEDOUT" "valid_env e2" "valid_env e4" "ts_passed (env_now e4) (end_time l)"
    and law: "\<And>c. fst (px_resume ops ETIMEDOUT c) = Some (- ETIMEDOUT)"
  shows "\<exists>sh' l'. wait_run ops a [e1, e2, e3, e4, e5, e6, e7, e8] (shr s) l = Inr (sh', l') \<and> pc l' = W_Done
    \<and> (if load_bytes (mem (shr s)) (object a) (bytes a) = expected l
       then ret l' = 0 \<and> terrno l' = ETIMEDOUT \<and> expected l' = expected l
       else ret l' = 1 \<and> terrno l' = entry_errno l \<and> expected l' = load_bytes (mem (shr s)) (object a) (bytes a))"
proof -
  obtain s2 l2 where s2: "reachable ops calm N s2" "threads s2 = (threads s)(t := Waiting a l2)"
      "mem (shr s2) = mem (shr s)" "wait_run ops a [e1, e2] (shr s) l = Inr (shr s2, l2)" "pc l2 = W_Load"
      "item l2 = item l" "expected l2 = expected l" "entry_errno l2 = entry_errno l" "end_time l2 = end_time l"
    using resume_steps [OF re N t _ env(1,3), of ETIMEDOUT] law pc env(2) by (auto simp: errno_defs)
  have t2: "threads s2 t = Waiting a l2"
    using s2(2) by simp
  have item: "item l2 \<noteq> NULL"
    using reachable_result [OF re t] pc s2(6) by (simp add: result_inv_def)
  have nh: "\<not> lock_is_held l2"
    using local_ok_unheld [of l2] sys_inv_parts(5) [OF reachable_inv [OF s2(1) N], of t] t2 s2(5) by simp
  have free2: "\<forall>u. \<not> critical (threads s2 u)"
    using free s2(2,5) nh by simp
  then have unheld: "\<not> held (wld (shr s2))"
    using reachable_lock_free [OF s2(1) N] by blast
  note app = wait_run_append [of a "[e1, e2]" "[e3, e4, e5, e6, e7, e8]" "shr s" l]
  show ?thesis
  proof (cases "load_bytes (mem (shr s)) (object a) (bytes a) = expected l")
    case True
    then show ?thesis
      using solo_expire [OF wait_pre [OF reachable_inv [OF s2(1) N] N t2] s2(5) item unheld _ d env(4),
          of e3 e5 e6 e7 e8] env(5) s2 app by auto
  next
    case False
    then show ?thesis
      using reachable_return [OF s2(1) N t2 s2(5) item free2, of e3 e4 e5 e6 e7 e8] s2 app by auto
  qed
qed

end

end
