(* ===== verification/Notify_Returns.thy ===== *)
theory Notify_Returns
  imports Wait_Progress
begin

text \<open>
  A store, a notification and the return of the wait, put together: a thread blocked in
  \<open>atomic_wait_generic\<close>, another one that runs \<open>atomic_notify_generic\<close> for all waiters from its entry to its
  end, and then the steps of the waiter up to its return.
\<close>

section \<open>A notifier on its own\<close>

inductive alone :: "('p, 'o) wait_ops_scheme \<Rightarrow> nat \<Rightarrow> 'p sys \<Rightarrow> 'p sys \<Rightarrow> bool"
  for ops :: "('p, 'o) wait_ops_scheme" and u :: nat and s :: "'p sys" where
  alone_start: "alone ops u s s"
| alone_notify:
    "alone ops u s s1 \<Longrightarrow> threads s1 u = Notifying k \<Longrightarrow> npc k \<noteq> N_Wake \<Longrightarrow>
     notify_step ops (shr s1) k = Inr (sh, k') \<Longrightarrow> alone ops u s (after_notify_step u k sh k' s1)"
| alone_wake:
    "alone ops u s s1 \<Longrightarrow> threads s1 u = Notifying k \<Longrightarrow> npc k = N_Wake \<Longrightarrow>
     P = {v. parked_on (nitem k) (threads s1 v)} \<Longrightarrow> valid_os os \<Longrightarrow>
     n_wake ops os (card P) (shr s1) k = Inr (sh, k', n) \<Longrightarrow> S \<subseteq> P \<Longrightarrow> card S = n \<Longrightarrow>
     alone ops u s (after_wake u k sh k' S s1)"

lemma alone_reachable: "alone ops u s s1 \<Longrightarrow> reachable ops calm N s \<Longrightarrow> reachable ops calm N s1"
  by (induction rule: alone.induct) (blast intro: reachable.step sys_step.notify sys_step.wake)+

text \<open>
  How far it is: before the wake the waiter is still blocked, after a wake that succeeded it is not, and
  finds the payload of its proxy \<open>gate_open\<close>.
\<close>

definition stage :: "('p \<Rightarrow> bool) \<Rightarrow> (ptr \<Rightarrow> (ptr \<times> nat \<times> 'p) option) \<Rightarrow> wait_args \<Rightarrow> wait_local \<Rightarrow> thread \<Rightarrow>
    notify_local \<Rightarrow> bool" where
  "stage gate_open v a l th k \<longleftrightarrow>
     nobject k = object a \<and> nmax k = WAKE_ALL \<and>
     (if npc k \<in> {N_Lock, N_Find, N_Wake} then th = Waiting a l
      else 0 \<le> nret k \<longrightarrow>
        th = Waiting a (l\<lparr>pc := W_Woken\<rparr>) \<and> (\<exists>n c. v (object a) = Some (item l, n, c) \<and> gate_open c))"

definition notifying ::
  "('p \<Rightarrow> bool) \<Rightarrow> nat \<Rightarrow> wait_args \<Rightarrow> wait_local \<Rightarrow> nat \<Rightarrow> (ptr \<Rightarrow> u8) \<Rightarrow> 'p sys \<Rightarrow> bool" where
  "notifying gate_open t a l u m s \<longleftrightarrow>
     mem (shr s) = m \<and> (\<forall>v. v \<noteq> u \<longrightarrow> \<not> critical (threads s v)) \<and>
     (\<exists>k. threads s u = Notifying k \<and> stage gate_open (view (wld (shr s))) a l (threads s t) k)"

text \<open>
  What a payload promises a waiter: a wake-all that succeeds unblocks every blocked thread and leaves the
  payload in a state (\<open>gate_open\<close>) in which a woken thread gets out of the blocking call; and the wake does
  succeed where the operating system does.
\<close>

locale waking_backend = wait_backend ops calm
  for ops :: "('p, 'o) wait_ops_scheme" and calm :: "os_answers \<Rightarrow> bool" +
  fixes gate_open :: "'p \<Rightarrow> bool"
  assumes wake_all_law: "valid_os os \<Longrightarrow> int parked < INT_MAX \<Longrightarrow> 0 \<le> fst (px_wake ops os WAKE_ALL n parked c) \<Longrightarrow>
      fst (snd (px_wake ops os WAKE_ALL n parked c)) = parked \<and> gate_open (snd (snd (px_wake ops os WAKE_ALL n parked c)))"
    and gate_law: "gate_open c \<Longrightarrow> fst (px_resume ops 0 c) = Some 0"
    and success_law: "0 \<le> fst (px_wake ops [] WAKE_ALL n parked c)"
begin

lemma wake_all_effect:
  assumes inv: "sys_inv calm N s" and k: "threads s u = Notifying k" "npc k = N_Wake" "nmax k = WAKE_ALL"
    and os: "valid_os os" and few: "int parked < INT_MAX"
    and st: "n_wake ops os parked (shr s) k = Inr (sh, k', n)" and ret: "0 \<le> nret k'"
  shows "n = parked \<and> (\<exists>i c. view (wld sh) (nobject k) = Some (nitem k, i, c) \<and> gate_open c)"
proof -
  obtain i c where v: "view (wld (shr s)) (nobject k) = Some (nitem k, i, c)"
    using sys_inv_parts(4) [OF inv] k unfolding wakers_agree_def by blast
  then obtain px where px: "heap (wld (shr s)) (nitem k) = Some px" "atomic px = c"
    by (auto simp: view_Some)
  let ?w = "px_wake ops os WAKE_ALL (use_count px) parked c"
  have s: "sh = (shr s)\<lparr>wld := poke (nitem k) (snd (snd ?w)) (wld (shr s))\<rparr>" "n = fst (snd ?w)" "nret k' = fst ?w"
    using st px k(3) by (auto simp: n_wake_def split: prod.splits)
  then have "n = parked \<and> gate_open (snd (snd ?w))"
    using wake_all_law [OF os few] ret by simp
  then show ?thesis
    using poke_good [OF sys_inv_parts(1) [OF inv] v, of "snd (snd ?w)"] s(1) by simp
qed

lemma notifying_find:
  assumes inv: "sys_inv calm N s" and l: "threads s t = Waiting a l" "pc l = W_Parked"
    and k: "threads s u = Notifying k" "npc k = N_Find" "nobject k = object a"
    and st: "notify_step ops (shr s) k = Inr (sh, k')"
  shows "nitem k' \<noteq> NULL"
proof
  assume "nitem k' = NULL"
  then have none: "view (wld (shr s)) (object a) = None"
    using notify_none [OF inv k(1,2) st] k(3) by simp
  have "registered (object a) (threads s t)"
    using l sys_inv_parts(5) [OF inv, of t] local_ok_item [of l] by auto
  then show False
    using registered_in_view [OF inv] none by force
qed

lemma notifying_notify:
  assumes inv: "sys_inv calm N s" and g: "notifying gate_open t a l u m s" and l: "pc l = W_Parked" and tu: "t \<noteq> u"
    and k: "threads s u = Notifying k" "npc k \<noteq> N_Wake" and st: "notify_step ops (shr s) k = Inr (sh, k')"
  shows "notifying gate_open t a l u m (after_notify_step u k sh k' s)"
proof -
  have quiet: "view (wld sh) = view (wld (shr s))" "mem sh = mem (shr s)"
    using notify_quiet [OF inv k st] by simp_all
  have sg: "stage gate_open (view (wld sh)) a l (threads s t) k"
    using g k(1) quiet by (auto simp: notifying_def)
  have "stage gate_open (view (wld sh)) a l (threads s t) k'"
  proof (cases "npc k = N_Find")
    case True
    then have "nitem k' \<noteq> NULL"
      using notifying_find [OF inv _ l k(1) True _ st] sg by (auto simp: stage_def)
    then show ?thesis
      using st sg True by (auto simp: notify_step_def n_find_def stage_def res_bind_Inr_iff split: if_splits)
  next
    case False
    then show ?thesis
      using st sg k(2) by (cases "npc k") (auto simp: notify_step_def stage_def split: prod.splits if_splits)
  qed
  then show ?thesis
    using g tu quiet by (auto simp: notifying_def after_notify_step_def)
qed

lemma notifying_wake:
  assumes inv: "sys_inv calm N s" and N: "int N < INT_MAX" and g: "notifying gate_open t a l u m s"
    and l: "pc l = W_Parked" and tu: "t \<noteq> u" and k: "threads s u = Notifying k" "npc k = N_Wake"
    and P: "P = {v. parked_on (nitem k) (threads s v)}" and os: "valid_os os"
    and st: "n_wake ops os (card P) (shr s) k = Inr (sh, k', n)" and S: "S \<subseteq> P" "card S = n"
  shows "notifying gate_open t a l u m (after_wake u k sh k' S s)"
proof -
  have sg: "nobject k = object a" "nmax k = WAKE_ALL" and t: "threads s t = Waiting a l"
    using g k by (auto simp: notifying_def stage_def)
  have few: "finite P" "int (card P) < INT_MAX"
    using parked_few [OF inv, of "nitem k"] N P by simp_all
  have reg: "registered (object a) (threads s t)"
    using t l sys_inv_parts(5) [OF inv, of t] local_ok_item [of l] by auto
  obtain i c where "view (wld (shr s)) (object a) = Some (nitem k, i, c)"
    using sys_inv_parts(4) [OF inv] k sg(1) unfolding wakers_agree_def by metis
  then have "parked_on (nitem k) (threads s t)"
    using registered_in_view [OF inv reg] t l by auto
  moreover have item: "item l = nitem k"
    using calculation t by simp
  moreover have "0 \<le> nret k' \<Longrightarrow> S = P"
    using wake_all_effect [OF inv k sg(2) os few(2) st] S few(1) card_subset_eq by blast
  ultimately have woken: "0 \<le> nret k' \<Longrightarrow> threads (after_wake u k sh k' S s) t = Waiting a (l\<lparr>pc := W_Woken\<rparr>)"
    using t tu P by (auto simp: after_wake_def)
  have arm: "0 \<le> nret k' \<Longrightarrow> \<exists>n c. view (wld sh) (object a) = Some (item l, n, c) \<and> gate_open c"
    using wake_all_effect [OF inv k sg(2) os few(2) st] sg(1) item by simp
  have k': "npc k' = N_Unlock" "nobject k' = nobject k" "nmax k' = nmax k" "mem sh = mem (shr s)"
    using st by (auto simp: n_wake_def split: option.splits prod.splits)
  have "\<not> critical (threads (after_wake u k sh k' S s) v)" if "v \<noteq> u" for v
  proof -
    have "\<not> critical (threads s v)"
      using g that by (simp add: notifying_def)
    then show ?thesis
      using that S(1) P by (cases "threads s v") (auto simp: after_wake_def)
  qed
  then show ?thesis
    using g k' sg woken arm by (auto simp: notifying_def stage_def after_wake_def)
qed

lemma alone_notifying:
  assumes "alone ops u s s1" and re: "reachable ops calm N s" and N: "int N < INT_MAX"
    and "notifying gate_open t a l u m s" and l: "pc l = W_Parked" and tu: "t \<noteq> u"
  shows "notifying gate_open t a l u m s1"
  using assms(1)
proof induction
  case alone_start
  then show ?case
    using assms(4) .
next
  case (alone_notify s1 k sh k')
  have "sys_inv calm N s1"
    by (rule reachable_inv [OF alone_reachable [OF alone_notify.hyps(1) re] N])
  then show ?case
    using notifying_notify [OF _ alone_notify.IH l tu alone_notify.hyps(2-4)] by blast
next
  case (alone_wake s1 k P os sh k' n S)
  have "sys_inv calm N s1"
    by (rule reachable_inv [OF alone_reachable [OF alone_wake.hyps(1) re] N])
  then show ?case
    using notifying_wake [OF _ N alone_wake.IH l tu alone_wake.hyps(2-8)] by blast
qed

section \<open>The waiter returns\<close>

theorem notified_returns:
  assumes re: "reachable ops calm N s" and N: "int N < INT_MAX" and t: "threads s t = Waiting a l"
    and pc: "pc l = W_Parked" and u: "threads s u = Notifying (notify_enter (object a) WAKE_ALL e0)"
    and free: "\<forall>v. \<not> critical (threads s v)" and ch: "load_bytes (mem (shr s)) (object a) (bytes a) \<noteq> expected l"
    and run: "alone ops u s s1" "threads s1 u = Notifying k" "npc k = N_Done" "0 \<le> nret k"
    and env: "valid_env e1" "valid_env e2"
  shows "threads s1 t = Waiting a (l\<lparr>pc := W_Woken\<rparr>) \<and>
    (\<exists>sh' l'. wait_run ops a [e1, e2, e3, e4, e5, e6, e7, e8] (shr s1) (l\<lparr>pc := W_Woken\<rparr>) = Inr (sh', l')
       \<and> pc l' = W_Done \<and> ret l' = 1 \<and> expected l' = load_bytes (mem (shr s)) (object a) (bytes a)
       \<and> terrno l' = entry_errno l)"
proof -
  let ?l = "l\<lparr>pc := W_Woken\<rparr>"
  have tu: "t \<noteq> u"
    using t u by auto
  have "notifying gate_open t a l u (mem (shr s)) s"
    using t u free by (simp add: notifying_def stage_def notify_enter_def)
  then have g: "notifying gate_open t a l u (mem (shr s)) s1"
    by (rule alone_notifying [OF run(1) re N _ pc tu])
  then obtain i c where v: "view (wld (shr s1)) (object a) = Some (item l, i, c)" "gate_open c"
    using run(2-4) by (auto simp: notifying_def stage_def)
  then have law: "fst (px_resume ops 0 b) = Some (- 0)" if "payload (item ?l) (shr s1) = Inr b" for b
    using that gate_law by (auto simp: view_Some payload_def split: option.splits)
  have t1: "threads s1 t = Waiting a ?l" and m: "mem (shr s1) = mem (shr s)"
    using g run(2-4) by (auto simp: notifying_def stage_def)
  have "\<not> critical (threads s1 u)" "\<And>v. v \<noteq> u \<Longrightarrow> \<not> critical (threads s1 v)"
    using g run(2,3) by (simp_all add: notifying_def)
  then have free1: "\<forall>v. \<not> critical (threads s1 v)"
    by metis
  have re1: "reachable ops calm N s1"
    by (rule alone_reachable [OF run(1) re])
  obtain s2 l2 where s2: "reachable ops calm N s2" "threads s2 = (threads s1)(t := Waiting a l2)"
      "mem (shr s2) = mem (shr s1)" "wait_run ops a [e1, e2] (shr s1) ?l = Inr (shr s2, l2)" "pc l2 = W_Load"
      "item l2 = item ?l" "expected l2 = expected ?l" "entry_errno l2 = entry_errno ?l"
    using resume_steps [OF re1 N t1 _ env, of 0] law by auto
  have t2: "threads s2 t = Waiting a l2"
    using s2(2) by simp
  have item: "item l2 \<noteq> NULL"
    using reachable_result [OF re t] pc s2(6) by (simp add: result_inv_def)
  have "\<not> lock_is_held l2"
    using local_ok_unheld [of l2] sys_inv_parts(5) [OF reachable_inv [OF s2(1) N], of t] t2 s2(5) by simp
  then have free2: "\<forall>v. \<not> critical (threads s2 v)"
    using free1 s2(2,5) by simp
  show ?thesis
    using reachable_return [OF s2(1) N t2 s2(5) item free2, of e3 e4 e5 e6 e7 e8] s2 m ch t1
      wait_run_append [of a "[e1, e2]" "[e3, e4, e5, e6, e7, e8]" "shr s1" ?l]
    by auto
qed

section \<open>The notifier finishes\<close>

text \<open>After the search: the wake, if there is a proxy, and the release of the lock.\<close>

lemma unlock_finishes:
  assumes "alone ops u s s1" and "threads s1 u = Notifying k" and "npc k = N_Unlock" and "0 \<le> nret k"
  shows "\<exists>s2 k2. alone ops u s s2 \<and> threads s2 u = Notifying k2 \<and> npc k2 = N_Done \<and> 0 \<le> nret k2"
proof -
  let ?k = "k\<lparr>npc := N_Done\<rparr>"
  have "notify_step ops (shr s1) k = Inr (unlock_step (shr s1), ?k)"
    using assms(3) by (simp add: notify_step_def)
  then have "alone ops u s (after_notify_step u k (unlock_step (shr s1)) ?k s1)"
    using alone_notify [OF assms(1,2)] assms(3) by simp
  then show ?thesis
    using assms(4) by (intro exI [of _ "after_notify_step u k (unlock_step (shr s1)) ?k s1"] exI [of _ ?k])
      (simp add: after_notify_step_def)
qed

lemma wake_finishes:
  assumes run: "alone ops u s s1" and re: "reachable ops calm N s" and N: "int N < INT_MAX"
    and k: "threads s1 u = Notifying k" "npc k = N_Wake" "nmax k = WAKE_ALL"
  shows "\<exists>s2 k2. alone ops u s s2 \<and> threads s2 u = Notifying k2 \<and> npc k2 = N_Done \<and> 0 \<le> nret k2"
proof -
  let ?P = "{v. parked_on (nitem k) (threads s1 v)}"
  have inv: "sys_inv calm N s1"
    by (rule reachable_inv [OF alone_reachable [OF run re] N])
  obtain sh k' n where w: "n_wake ops [] (card ?P) (shr s1) k = Inr (sh, k', n)" "npc k' = N_Unlock"
    using wake_runs [OF inv k(1,2)] by blast
  obtain px where px: "heap (wld (shr s1)) (nitem k) = Some px"
    using w(1) by (auto simp: n_wake_def split: option.splits)
  then have ret: "0 \<le> nret k'"
    using w(1) success_law [of "use_count px" "card ?P" "atomic px"] k(3) by (auto simp: n_wake_def split: prod.splits)
  have few: "finite ?P" "int (card ?P) < INT_MAX"
    using parked_few [OF inv, of "nitem k"] N by simp_all
  have os: "valid_os []"
    by (simp add: valid_os_def)
  have "card ?P = n"
    using wake_all_effect [OF inv k os few(2) w(1) ret] by simp
  then have "alone ops u s (after_wake u k sh k' ?P s1)"
    using alone_wake [OF run k(1,2) refl os w(1) subset_refl] by simp
  then show ?thesis
    using unlock_finishes [of u s "after_wake u k sh k' ?P s1" k'] w(2) ret by (simp add: after_wake_def)
qed

theorem notify_finishes:
  assumes re: "reachable ops calm N s" and N: "int N < INT_MAX"
    and u: "threads s u = Notifying (notify_enter obj WAKE_ALL e0)" and free: "\<forall>v. \<not> critical (threads s v)"
  shows "\<exists>s1 k. alone ops u s s1 \<and> threads s1 u = Notifying k \<and> npc k = N_Done \<and> 0 \<le> nret k"
proof -
  let ?k0 = "notify_enter obj WAKE_ALL e0"
  let ?k1 = "?k0\<lparr>npc := N_Find\<rparr>"
  have "\<not> held (wld (shr s))"
    by (rule reachable_lock_free [OF re N free])
  then obtain sh1 where "notify_step ops (shr s) ?k0 = Inr (sh1, ?k1)"
    by (simp add: notify_step_def notify_enter_def lock_step_def hash_table_lock_def)
  then have r1: "alone ops u s (after_notify_step u ?k0 sh1 ?k1 s)" (is "alone ops u s ?s1")
    by (intro alone_notify [OF alone_start u]) (simp_all add: notify_enter_def)
  have u1: "threads ?s1 u = Notifying ?k1"
    by (simp add: after_notify_step_def)
  have inv: "sys_inv calm N ?s1"
    by (rule reachable_inv [OF alone_reachable [OF r1 re] N])
  then obtain sh2 k2 where s2: "notify_step ops (shr ?s1) ?k1 = Inr (sh2, k2)"
    using notify_step_eff [OF sys_inv_parts(1) [OF inv], of ?k1] sys_inv_parts(5) [OF inv, of u]
      critical_held [OF inv, of u] u1 by auto
  then obtain p e where k2: "k2 = ?k1\<lparr>nitem := p, nerrno := e, nret := 0, npc := if p = NULL then N_Unlock else N_Wake\<rparr>"
    by (auto simp: notify_step_def n_find_def res_bind_Inr_iff)
  have r2: "alone ops u s (after_notify_step u ?k1 sh2 k2 ?s1)" (is "alone ops u s ?s2")
    by (rule alone_notify [OF r1 u1 _ s2]) simp
  have u2: "threads ?s2 u = Notifying k2" "nmax k2 = WAKE_ALL" "nret k2 = 0"
    by (simp_all add: after_notify_step_def k2 notify_enter_def)
  show ?thesis
  proof (cases "p = NULL")
    case True
    then show ?thesis
      using unlock_finishes [OF r2 u2(1)] k2 by simp
  next
    case False
    then show ?thesis
      using wake_finishes [OF r2 re N u2(1)] k2 u2(2) by simp
  qed
qed

end

text \<open>
  Put together: \<open>u\<close> can run to its end and report success, and whenever it has, \<open>t\<close> is unblocked and returns
  the new value.
\<close>

definition returns_change ::
  "('p, 'o) wait_ops_scheme \<Rightarrow> wait_args \<Rightarrow> 'p shared \<Rightarrow> wait_local \<Rightarrow> u8 list \<Rightarrow> env list \<Rightarrow> bool" where
  "returns_change ops a sh l v es \<longleftrightarrow>
     (\<exists>sh' l'. wait_run ops a es sh l = Inr (sh', l') \<and> pc l' = W_Done \<and> ret l' = 1 \<and> expected l' = v
        \<and> terrno l' = entry_errno l)"

definition wake_all_releases ::
  "('p, 'o) wait_ops_scheme \<Rightarrow> nat \<Rightarrow> nat \<Rightarrow> wait_args \<Rightarrow> wait_local \<Rightarrow> 'p sys \<Rightarrow> env list \<Rightarrow> bool" where
  "wake_all_releases ops u t a l s es \<longleftrightarrow>
     (\<exists>s1 k. alone ops u s s1 \<and> threads s1 u = Notifying k \<and> npc k = N_Done \<and> 0 \<le> nret k) \<and>
     (\<forall>s1 k. alone ops u s s1 \<and> threads s1 u = Notifying k \<and> npc k = N_Done \<and> 0 \<le> nret k \<longrightarrow>
        threads s1 t = Waiting a (l\<lparr>pc := W_Woken\<rparr>) \<and>
        returns_change ops a (shr s1) (l\<lparr>pc := W_Woken\<rparr>) (load_bytes (mem (shr s)) (object a) (bytes a)) es)"

context waking_backend
begin

theorem store_notify_return:
  assumes "reachable ops calm N s" and "int N < INT_MAX" and "threads s t = Waiting a l" and "pc l = W_Parked"
    and "threads s u = Notifying (notify_enter (object a) WAKE_ALL e0)" and "\<forall>v. \<not> critical (threads s v)"
    and "load_bytes (mem (shr s)) (object a) (bytes a) \<noteq> expected l" and "valid_env e1" and "valid_env e2"
  shows "wake_all_releases ops u t a l s [e1, e2, e3, e4, e5, e6, e7, e8]"
  using notify_finishes [OF assms(1,2,5,6)]
    notified_returns [OF assms(1-7) _ _ _ _ assms(8,9), of _ _ e3 e4 e5 e6 e7 e8]
  unfolding wake_all_releases_def returns_change_def by simp

end

section \<open>The five backends\<close>

text \<open>The counter lets any woken thread out; the pthreads proxy needs a token.\<close>

lemma counter_wakes_all:
  assumes "ops \<in> native_proxies" and "valid_os os" and few: "int parked < INT_MAX"
    and "0 \<le> fst (px_wake ops os WAKE_ALL n parked c)"
  shows "fst (snd (px_wake ops os WAKE_ALL n parked c)) = parked"
proof -
  have "parked \<le> unat WAKE_ALL"
    using few by (simp add: INT_MAX_def unsigned_minus_1_eq_mask mask_eq_exp_minus_1)
  then show ?thesis
    using generation_counter.wake_law [OF native_counter [OF assms(1)] assms(2-4)] by simp
qed

lemma native_wake_succeeds: "ops \<in> native_proxies \<Longrightarrow> 0 \<le> fst (px_wake ops [] m n parked c)"
  by (auto simp: native_proxies_def native_ops_defs wake_defs os_next_def Let_def nominal_woken_nonneg)

lemmas waking_facts = counter_wakes_all native_wake_succeeds native_resumes

interpretation futex_wakes: waking_backend futex_ops "\<lambda>_. True" "\<lambda>_. True"
  by unfold_locales (use waking_facts [of futex_ops] in \<open>simp_all add: native_proxies_def del: futex_ops_simps\<close>)

interpretation umtx_wakes: waking_backend umtx_ops "\<lambda>_. True" "\<lambda>_. True"
  by unfold_locales (use waking_facts [of umtx_ops] in \<open>simp_all add: native_proxies_def\<close>)

interpretation ulock_wakes: waking_backend ulock_ops "\<lambda>_. True" "\<lambda>_. True"
  by unfold_locales (use waking_facts [of ulock_ops] in \<open>simp_all add: native_proxies_def\<close>)

interpretation waitaddr_wakes: waking_backend waitaddr_ops "\<lambda>_. True" "\<lambda>_. True"
  by unfold_locales (use waking_facts [of waitaddr_ops] in \<open>simp_all add: native_proxies_def\<close>)

lemma native_waking: "ops \<in> native_proxies \<Longrightarrow> waking_backend ops (\<lambda>_. True) (\<lambda>_. True)"
  using futex_wakes.waking_backend_axioms umtx_wakes.waking_backend_axioms ulock_wakes.waking_backend_axioms
    waitaddr_wakes.waking_backend_axioms
  by (auto simp: native_proxies_def)

lemma pthread_wake_all:
  assumes "valid_os os" and "0 \<le> fst (pthread_proxy_wake os WAKE_ALL n parked c)"
  shows "fst (snd (pthread_proxy_wake os WAKE_ALL n parked c)) = parked
    \<and> 0 < pending (snd (snd (pthread_proxy_wake os WAKE_ALL n parked c)))"
proof -
  obtain r1 s1 where o: "os_next os = (r1, s1)"
    by (metis surj_pair)
  have "0 \<le> r1" "0 \<le> fst (os_next s1)"
    using o assms(1) by (auto simp: os_next_def valid_os_def split: list.splits)
  then show ?thesis
    using assms(2) o by (auto simp: pthread_proxy_wake_def pthread_tokens_def pthread_cap_def Let_def split: if_splits)
qed

interpretation pthread_wakes: waking_backend pthread_ops os_calm "\<lambda>c. 0 < pending c"
proof unfold_locales
  fix os :: "int list" and parked and n :: int and c :: pthreads_proxy
  show "valid_os os \<Longrightarrow> int parked < INT_MAX \<Longrightarrow> 0 \<le> fst (px_wake pthread_ops os WAKE_ALL n parked c) \<Longrightarrow>
      fst (snd (px_wake pthread_ops os WAKE_ALL n parked c)) = parked
      \<and> 0 < pending (snd (snd (px_wake pthread_ops os WAKE_ALL n parked c)))"
    using pthread_wake_all by simp
  show "0 < pending c \<Longrightarrow> fst (px_resume pthread_ops 0 c) = Some 0"
    by (simp add: pthread_proxy_resume_def)
  show "0 \<le> fst (px_wake pthread_ops [] WAKE_ALL n parked c)"
    by (auto simp: pthread_proxy_wake_def os_next_def pthread_woken_def Let_def)
qed

end
