(* ===== verification/Spec2Isabelle.thy ===== *)
theory Spec2Isabelle
  imports Whitebox_Tests Pthread_Wakes Pthread_Resources Native_System Notify_Results Notify_Returns
begin

text \<open>
  Verification of \<open>wg14_atomic_waits\<close>, a C library that lets threads wait for an atomic object to change
  and be notified (\<open>atomic_wait\<close>, \<open>atomic_notify_one\<close>, \<open>atomic_notify_all\<close>, \<open>atomic_wait_expected\<close>,
  \<open>atomic_notify\<close>). Paths are relative to \<^verbatim>\<open>src/include/wg14_atomic_waits\<close>.

  \<^bold>\<open>The program.\<close> The macros of \<^verbatim>\<open>atomic_wait.h\<close> dispatch on the size of the object to functions of
  \<^verbatim>\<open>detail/impl/atomic_wait_common.ipp.ipp\<close>. Where the backend has a native wait of that width
  (\<^verbatim>\<open>atomic_wait_linux.c.ipp\<close>, \<^verbatim>\<open>atomic_wait_freebsd.c.ipp\<close>, \<^verbatim>\<open>atomic_wait_macos.c.ipp\<close>,
  \<^verbatim>\<open>atomic_wait_windows.c.ipp\<close>) a loop runs over it on the object's own address. For the other widths, and
  for every width on the pthreads backend (\<^verbatim>\<open>atomic_wait_pthreads.c.ipp\<close>), \<open>atomic_wait_generic\<close> and
  \<open>atomic_notify_generic\<close> meet at a proxy: a reference-counted entry of one process-wide open-addressing
  hash table under a spin lock. The proxy carries a 32-bit generation counter on the native backends and
  a mutex, a condition variable, a token count and a waiter count on pthreads.

  \<^bold>\<open>The theories.\<close>
  \<^item> \<open>Wait_Prelude\<close>: C integers, errno values, faults (undefined behaviour, failed assertion, abort) as
    values of a sum type, facts on words and lists, the collections \<open>res_simps\<close> and \<open>ht_simps\<close>.
  \<^item> \<open>Triangular_Probe\<close>, \<open>Hash_Table\<close>: the proxy table, one function per C function, on an explicit heap of
    proxies; scripts in the state resolve \<open>calloc\<close>, \<open>free\<close> and the operating system, so that a statement
    about all states covers every behaviour of theirs. \<open>Hash_Table_Correct\<close>: the invariant of the table,
    that every operation keeps it, and what each does to the map the table stands for.
  \<^item> \<open>Proxy_Refs\<close>: the release of a proxy and the contract of the table with its clients as the locale
    \<open>ref_table\<close>; the locale \<open>proxy_backend\<close>, a payload whose destruction succeeds, gives it (always on the
    native backends, while the operating system destroys what it is asked to on pthreads: \<open>os_calm\<close>, which
    leaves open whether initialising succeeds).
    \<open>Table_Refinement\<close>: an abstract specification of the table and the simulation. \<open>Table_Availability\<close>: when
    the table serves an acquisition, and when it refuses every one. \<open>Table_Growth\<close>: the slots, array sizes and
    allocations a call costs, so that a sequence of calls is served. \<open>Whitebox_Tests\<close>: the white-box tests of
    \<^verbatim>\<open>src/test\<close> as functions that count failed checks.
  \<^item> \<open>Proxy_Kinds\<close>: the payloads and macros of the five backends, as interpretations of \<open>proxy_backend\<close>.
    \<open>Pthread_Resources\<close>: the mutex, condition variable and attributes of the pthreads proxy and its clock.
  \<^item> \<open>Deadline\<close>, \<open>Memory_Order\<close>: \<open>struct timespec\<close>, deadlines, \<open>monotonic_now\<close>; \<open>memory_order\<close> as a linear order,
    \<open>atomic_load_generic\<close>.
  \<^item> \<open>Wait_Generic\<close>: \<open>atomic_wait_generic\<close> and \<open>atomic_notify_generic\<close> as machines that take one step per access
    to memory another thread can change; the record \<open>wait_local\<close> holds the locals of the C function.
  \<^item> \<open>Wait_System\<close>: any number of threads in these functions and an environment that stores to memory at any
    time, as an interleaving step relation with reachable states. \<open>Wait_Safety\<close>: its invariant (ownership
    of the lock, reference counts, local consistency) for any backend (locale \<open>wait_backend\<close>).
    \<open>Lost_Wake\<close>: no wake is lost, for any counter that meets the locale \<open>generation_counter\<close>, interpreted
    on the four native proxies. \<open>Pthread_Counts\<close>: the counters of the pthreads proxy. \<open>Wait_Results\<close>: what a
    wait returns. \<open>Wait_Progress\<close>: deadlines, progress and the way out of a timed-out wait. \<open>Schedules\<close>: an
    executable scheduler, and the concrete runs the witnesses use. \<open>Pthread_Wakes\<close>: the pthreads proxy
    loses no wake while no two threads are registered on one object. \<open>Notify_Returns\<close>: a notification and the
    return of the wait it ends, for any backend that meets the locale \<open>waking_backend\<close>, interpreted on all five. \<open>Notify_Results\<close>: what a notification on the pthreads proxy returns.
  \<^item> \<open>Native_Backends\<close>: \<open>wait_on_address*\<close> and \<open>wake_by_address*\<close> of the four platforms, the system call a
    parameter; their contract is the locale \<open>native_wait\<close>. \<open>Native_Wait\<close>: \<open>atomic_wait_expected_32\<close>, the loops
    of \<open>atomic_wait_1/2/4/8\<close>, \<open>atomic_notify_32\<close> (locales \<open>native_backend\<close>, \<open>native_wake\<close>).
    \<open>Native_Proxies\<close>: what the interfaces of the four kernels document (\<open>documented_futex\<close> and the like, predicates
    on a system call that is otherwise a parameter), and that on any kernel that does so the proxies of
    \<open>Proxy_Kinds\<close> are the proxy macros over these functions. \<open>Address_Ops\<close>: what
    the waits and wakes of every backend and width do to threads blocked on an address (locale
    \<open>address_backend\<close>), and that the backends' functions do that on any such kernel. \<open>Native_System\<close>: any number of threads in the native functions, on the object's own
    address, as a step relation with its invariant; a turn of the loop of \<open>Native_Wait\<close> is a run of its
    machine.
  \<^item> \<open>Configuration\<close>: the backends and what each defines, the macros of \<^verbatim>\<open>config.h\<close> that decide what is compiled
    and how it links, the choice of the backend, the \<open>#error\<close> guards, the translation units and the build
    options of \<^verbatim>\<open>CMakeLists.txt\<close>. \<open>Wait_API\<close>: the width-specific functions and the macros.

  \<^bold>\<open>The properties\<close> below are, in order: wakes, on a proxy and on the object's own address; memory safety
  and reference counts; results, progress and time limits of the generic wait; the proxy table and its
  test; the native functions, alone and with many threads; the platforms' time limits; the interface and
  the build; specifications, the pthreads proxy, and the levels of the model.

  \<^bold>\<open>Which backends.\<close> The properties of the generic machine and of the table hold on all five backends; on
  pthreads under the condition that destroying an unused mutex or condition variable succeeds, as the code
  aborts where it does not (what loses wakes, and what their counters count, are properties of one kind of
  backend and say so). Along the runs of the two threaded systems \<open>clock_gettime\<close> succeeds (\<open>valid_env\<close>); that
  a failure of it aborts the process where a thread of the generic machine reads the clock, and changes
  nothing elsewhere, is part of the property on faults.

  \<^bold>\<open>Bounds.\<close> The number of threads is below \<open>INT_MAX\<close>, as use counts are \<open>int\<close>. A thread must not be overtaken
  by \<open>2 ^ 32\<close> wakes between reading the generation and blocking, as the counter wraps. Clock readings and
  durations are below \<open>2 ^ 62\<close> seconds where a deadline is computed; what happens beyond is a property of
  its own. The relative limits of Windows and macOS are computed modulo \<open>2 ^ 64\<close> units, which is exact up to
  \<open>2 ^ 64 - 1\<close> milliseconds and microseconds. The native loops take fuel, one unit per turn: they may run forever, so for the untimed loop it
  is shown that it returns at the first load that differs and for the timed one that a bound computed from
  the duration suffices. Everything else is total: the loops of the table carry termination proofs. The
  test of the table is treated for up to \<open>2 ^ 16\<close> keys, so that its array stays below the largest size.

  \<^bold>\<open>Abstractions.\<close> Memory is sequentially consistent: the memory order of a load is recorded, its weaker
  visibility is not modelled. A region under the pthread mutex is one step, and one attempt on the spin
  lock is one step. Whether and when a blocking call returns (a wake, a timeout, an error, spuriously) is
  the environment's choice, so the absolute time handed to it (\<open>linux_abstime\<close>, \<open>pthread_abstime\<close>) is
  treated apart from the threaded systems. Which threads a wake of fewer than all unblocks is also left
  open. Type sizes are those of 64-bit platforms with 64-bit \<open>time_t\<close>,
  and values are little-endian in memory. The objects of one native system have one width and do not
  overlap. The observers \<open>dirty\<close> and \<open>bumps\<close> of the system and the log
  \<open>loads\<close> of a wait are not state of the program and no step depends on them.

  \<^bold>\<open>Not modelled.\<close> The macros of \<^verbatim>\<open>config.h\<close> that only name things (prefixes, attributes, the stream of
  messages), the coalescing of the process-wide table by the linker in header-only mode, the tests that
  start threads and measure time, use across processes, and the message \<open>monotonic_now\<close> prints before it
  aborts.
\<close>

section \<open>Wakes\<close>

text \<open>
  C1. No wake is lost with the generation counter, the proxy of the Linux, FreeBSD, macOS and
  Windows backends. In any interleaving of any number of waiting and notifying threads and stores,
  a thread that is blocked in \<open>atomic_wait_generic\<close> and whose object has not been stored to since the
  last completed wake-all (or since a notifier found no waiter) finds the object at the value it waits
  to change. The generation is 32 bits wide, so the thread must not have been overtaken by \<open>2 ^ 32\<close>
  wakes between reading it and blocking.
\<close>

theorem no_lost_wake:
  assumes "ops \<in> native_proxies" and "reachable ops (\<lambda>_. True) N s" and "int N < INT_MAX"
    and "threads s t = Waiting a l" and "pc l = W_Parked" and "bumps s t < 2 ^ 32"
    and "\<not> dirty s (object a)"
  shows "load_bytes (mem (shr s)) (object a) (bytes a) = expected l"
  using generation_counter.blocked_has_expected [OF native_counter [OF assms(1)] assms(2-7)] .

theorem no_lost_wake_witness:
  "\<exists>l. threads parked_sys 0 = Waiting (byte_wait 1) l \<and> pc l = W_Parked \<and> \<not> dirty parked_sys K \<and>
     load_bytes (mem (shr parked_sys)) K 1 = expected l"
proof -
  obtain l where l: "threads parked_sys 0 = Waiting (byte_wait 1) l" "pc l = W_Parked"
      "\<not> dirty parked_sys K" "bumps parked_sys 0 = 0"
    using snapD [OF parked(2)] by auto
  show ?thesis
    using l no_lost_wake [OF futex_native parked(1) _ l(1,2)] by (simp add: INT_MAX_def byte_wait_def)
qed

text \<open>
  C22. The pthreads proxy does lose wakes: a token meant for a thread that is about to block can be
  taken by a thread that registers after the wake. In a reachable state of two threads thread 0 is
  blocked on a byte that differs from its expected value although a wake-all completed after the last
  store (and came between thread 0's last comparison and its blocking call), and the only other thread
  is blocked too.
\<close>

theorem pthread_token_stolen:
  "\<exists>(s :: pthreads_proxy sys) a l a' l'. reachable pthread_ops os_succeeds 2 s \<and>
     threads s 0 = Waiting a l \<and> pc l = W_Parked \<and> \<not> dirty s (object a) \<and> bumps s 0 = 1 \<and>
     load_bytes (mem (shr s)) (object a) (bytes a) \<noteq> expected l \<and>
     threads s 1 = Waiting a' l' \<and> pc l' = W_Parked"
proof -
  have o: "snap 0 stolen_sys = (True, byte_wait 1, W_Parked, [1], True, 1, False, 1, [0])"
      "snap 1 stolen_sys = (True, byte_wait 0, W_Parked, [0], True, 1, False, 0, [0])"
    using stolen(2) by simp_all
  obtain l l' where l: "threads stolen_sys 0 = Waiting (byte_wait 1) l" "pc l = W_Parked" "expected l = [1]"
      "\<not> dirty stolen_sys K" "bumps stolen_sys 0 = 1" "load_bytes (mem (shr stolen_sys)) K 1 = [0]"
      "threads stolen_sys 1 = Waiting (byte_wait 0) l'" "pc l' = W_Parked"
    using snapD [OF o(1)] snapD [OF o(2)] by auto
  moreover have "object (byte_wait 1) = K" "bytes (byte_wait 1) = 1"
    by (simp_all add: byte_wait_def)
  ultimately have "load_bytes (mem (shr stolen_sys)) (object (byte_wait 1)) (bytes (byte_wait 1)) \<noteq> expected l"
      "\<not> dirty stolen_sys (object (byte_wait 1))"
    by simp_all
  then show ?thesis
    using stolen(1) l by blast
qed

text \<open>
  C9. Stealing needs a second waiter: in every run of the pthreads proxy in which no two threads are ever
  registered on the same object, a blocked thread whose object has not been stored to since the last
  completed wake-all (or since a notifier found no waiter) finds the object at the value it waits to
  change, however many threads notify.
\<close>

theorem pthread_one_waiter:
  assumes "lone N s" and "int N < INT_MAX" and "threads s t = Waiting a l" and "pc l = W_Parked"
    and "\<not> dirty s (object a)"
  shows "load_bytes (mem (shr s)) (object a) (bytes a) = expected l"
  using assms by (rule lone_blocked)

theorem pthread_one_waiter_witness:
  "\<exists>l. threads lone_sys 0 = Waiting (byte_wait 1) l \<and> pc l = W_Parked \<and>
     load_bytes (mem (shr lone_sys)) K 1 = expected l"
proof -
  obtain l where l: "threads lone_sys 0 = Waiting (byte_wait 1) l" "pc l = W_Parked" "\<not> dirty lone_sys K"
    using snapD [OF lone_sys_snap] by auto
  show ?thesis
    using l pthread_one_waiter [OF lone_sys_lone _ l(1,2)] by (simp add: INT_MAX_def byte_wait_def)
qed

text \<open>
  C10. On every native backend a wake that reports success reaches as many of the threads blocked on the
  proxy as it was asked for, or all of them if there are fewer; a wake-all leaves none blocked.
\<close>

theorem wake_unblocks_enough:
  assumes "ops \<in> native_proxies" and "reachable ops (\<lambda>_. True) N s" and "int N < INT_MAX"
    and "threads s t = Notifying l" and "valid_os os" and "0 \<le> nret l'"
    and "P = {u. parked_on (nitem l) (threads s u)}"
    and "n_wake ops os (card P) (shr s) l = Inr (sh, l', n)" and "S \<subseteq> P" and "card S = n"
    and "P' = {u. parked_on (nitem l) (threads (after_wake t l sh l' S s) u)}"
  shows "card P' + min (unat (nmax l)) (card P) \<le> card P \<and> (nmax l = WAKE_ALL \<longrightarrow> P' = {})"
  using assms generation_counter.wake_unblocks [OF native_counter [OF assms(1)]
      wait_backend.reachable_inv [OF native_waits [OF assms(1)] assms(2,3)] assms(3-6)] by simp

theorem wake_unblocks_enough_witness:
  "\<exists>l sh l' n. threads waking_sys 1 = Notifying l \<and> npc l = N_Wake \<and>
     n_wake futex_ops [] (card {u. parked_on (nitem l) (threads waking_sys u)}) (shr waking_sys) l = Inr (sh, l', n) \<and>
     (\<forall>S. S \<subseteq> {u. parked_on (nitem l) (threads waking_sys u)} \<and> card S = n \<longrightarrow>
        {u. parked_on (nitem l) (threads (after_wake 1 l sh l' S waking_sys) u)} = {})"
proof -
  obtain l where l: "threads waking_sys 1 = Notifying l" "npc l = N_Wake" "nmax l = WAKE_ALL"
    using waking_ready by blast
  obtain sh l' n where w: "n_wake futex_ops [] (card {u. parked_on (nitem l) (threads waking_sys u)})
      (shr waking_sys) l = Inr (sh, l', n)"
    using futex_sys.wake_runs [OF futex_sys.reachable_inv [OF waking(1)] l(1,2)]
    by (fastforce simp: INT_MAX_def)
  have ok: "int 2 < INT_MAX" "valid_os []" "0 \<le> nret l'"
    using w by (auto simp: INT_MAX_def valid_os_def os_next_def n_wake_def futex_wake_def Let_def
        split: option.splits)
  have "{u. parked_on (nitem l) (threads (after_wake 1 l sh l' S waking_sys) u)} = {}"
    if "S \<subseteq> {u. parked_on (nitem l) (threads waking_sys u)}" "card S = n" for S
    using wake_unblocks_enough [OF futex_native waking(1) ok(1) l(1) ok(2,3) refl w that refl] l(3) by blast
  then show ?thesis
    using l w by blast
qed

text \<open>
  C4. No wake is lost on the object's own address either (\<open>atomic_wait_1/2/4/8\<close>, \<open>atomic_wait_expected_32\<close>,
  \<open>atomic_notify_one_1/2/4/8\<close>, \<open>atomic_notify_all_1/2/4/8\<close>, \<open>atomic_notify_32\<close>), on every backend and for
  every width that has a native wait: in any interleaving of any number of threads and stores, a thread that is blocked in the system call and whose
  object has not changed since the last successful wake-all on it finds the object at the expected value.
\<close>

theorem native_object_no_lost_wake:
  assumes "have_wait_on_address b LENGTH('a)" and "nreachable b N (s :: 'a::len word nsys)" and "int N < INT_MAX"
    and "nthreads s t = NWaiting a l" and "nw_pc l = NW_Blocked" and "\<not> ndirty s (nw_object a)"
  shows "cells s (nw_object a) = nw_expected l"
  using address_backend.blocked_told [OF native_address [OF assms(1)] assms(2-6)] .

theorem native_object_no_lost_wake_witness:
  "nthreads nblocked 0 = NWaiting word_wait word_blocked \<and> nw_pc word_blocked = NW_Blocked \<and>
   cells nblocked 64 = nw_expected word_blocked"
proof -
  have b: "nthreads nblocked 0 = NWaiting word_wait word_blocked" "nw_pc word_blocked = NW_Blocked"
      "\<not> ndirty nblocked (nw_object word_wait)"
    by (simp_all add: nblocked_def nset_def nstart_def word_blocked_def)
  show ?thesis
    using b native_object_no_lost_wake [OF _ nblocked_reachable _ b]
    by (simp add: INT_MAX_def word_wait_def)
qed

text \<open>
  C19. A wake on the object's own address that reports success reaches as many of the threads blocked on
  it as it was asked for, or all of them if there are fewer; a wake-all leaves none blocked.
\<close>

theorem native_wake_unblocks:
  assumes "have_wait_on_address b LENGTH('a)" and "nreachable b N (s :: 'a::len word nsys)" and "int N < INT_MAX"
    and "nthreads s t = NNotifying l" and "valid_os os" and "P = {u. blocked_on (nx_object l) (nthreads s u)}"
    and "nx_wake b os (card P) l = Inr (l', n)" and "0 \<le> fst (addr_wake b os (nx_max l) (card P))"
    and "S \<subseteq> P" and "card S = n"
    and "P' = {u. blocked_on (nx_object l) (nthreads (nwake t l ok l' S s) u)}"
  shows "card P' + min (unat (nx_max l)) (card P) \<le> card P \<and> (nx_max l = WAKE_ALL \<longrightarrow> P' = {})"
  using address_backend.nwake_leaves [OF native_address [OF assms(1)] assms(2-11)] .

theorem native_wake_unblocks_witness:
  "\<exists>l l' S. nthreads nwaking 1 = NNotifying l \<and> nx_wake Linux [] 1 l = Inr (l', 1) \<and>
     blocked_on 64 (nthreads nwaking 0) \<and> {u. blocked_on 64 (nthreads (nwake 1 l True l' S nwaking) u)} = {}"
proof -
  let ?l = "nx_enter True 64 0 0 WAKE_ALL 0 :: u32 nx_local"
  let ?l' = "?l\<lparr>nx_pc := NX_Done\<rparr>"
  have t: "nthreads nwaking 1 = NNotifying ?l"
    by (simp add: nwaking_def nset_def)
  have P: "{0} = {u. blocked_on (nx_object ?l) (nthreads nwaking u)}"
    by (auto simp: nwaking_def nblocked_def nset_def nstart_def word_wait_def word_blocked_def nx_enter_def)
  have aw: "addr_wake Linux [] WAKE_ALL 1 = (1, 1)"
    by code_simp
  have w: "nx_wake Linux [] (card {0 :: nat}) ?l = Inr (?l', 1)"
      "0 \<le> fst (addr_wake Linux [] (nx_max ?l) (card {0 :: nat}))"
    using aw by (simp_all add: nx_wake_def nx_enter_def del: addr_wake.simps)
  have "{u. blocked_on (nx_object ?l) (nthreads (nwake 1 ?l True ?l' {0} nwaking) u)} = {}"
    using native_wake_unblocks [OF _ nwaking_reachable _ t _ P w subset_refl _ refl]
    by (simp add: INT_MAX_def valid_os_def nx_enter_def)
  moreover have "blocked_on 64 (nthreads nwaking 0)"
    by (simp add: nwaking_def nblocked_def nset_def word_wait_def word_blocked_def)
  ultimately show ?thesis
    using t w(1) by (intro exI [of _ ?l] exI [of _ ?l'] exI [of _ "{0}"]) (simp add: nx_enter_def)
qed

section \<open>Memory safety and reference counts\<close>

text \<open>
  C6. No execution of \<open>atomic_wait_generic\<close> and \<open>atomic_notify_generic\<close>
  dereferences a pointer that is not live, indexes outside the bucket array, overflows a signed
  integer, fails the assertion of \<open>hash_table_remove_item\<close> or aborts: on the native backends whatever the
  allocator and the operating system answer, on the pthreads proxy as long as destroying an unused mutex
  or condition variable succeeds (the code aborts otherwise); initialising them may fail. That is while
  \<open>clock_gettime\<close> succeeds. A call of it that fails, in any reachable state, aborts the process if the
  next step of the thread makes one (at the start of a timed wait, and before each of its blocking
  calls), and makes no difference to any other step.
\<close>

theorem never_faults:
  assumes "int N < INT_MAX" and "env_clock_ret e \<noteq> 0"
  shows "(ops \<in> native_proxies \<and> reachable ops (\<lambda>_. True) N s \<longrightarrow> threads s t \<noteq> Crashed f \<and>
      (\<forall>a l. threads s t = Waiting a l \<longrightarrow>
         (if reads_clock a l then wait_step ops a e (shr s) l = Inl Abort_Called
          else \<exists>r. wait_step ops a e (shr s) l = Inr r))) \<and>
    (reachable pthread_ops os_calm N s' \<longrightarrow> threads s' t \<noteq> Crashed f \<and>
      (\<forall>a l. threads s' t = Waiting a l \<longrightarrow>
         (if reads_clock a l then wait_step pthread_ops a e (shr s') l = Inl Abort_Called
          else \<exists>r. wait_step pthread_ops a e (shr s') l = Inr r)))"
  using wait_backend.reachable_no_fault [OF native_waits [of ops] _ assms(1)] pthread_sys.reachable_no_fault [OF _ assms(1)]
    wait_backend.reachable_clock_failure [OF native_waits [of ops] _ assms(1) _ assms(2)]
    pthread_sys.reachable_clock_failure [OF _ assms(1) _ assms(2)]
  by blast

theorem never_faults_witness:
  "threads parked_sys 1 \<noteq> Crashed Bad_Deref \<and> threads refused_sys 0 \<noteq> Crashed Abort_Called \<and>
   wait_step futex_ops timed_wait_args (the_env\<lparr>env_clock_ret := - 1\<rparr>) (shr (start_sys 1)) (wait_enter timed_wait_args 0)
     = Inl Abort_Called"
proof -
  have N: "int 2 < INT_MAX" and e: "env_clock_ret (the_env\<lparr>env_clock_ret := - 1\<rparr>) \<noteq> 0"
    by (simp_all add: INT_MAX_def)
  let ?s = "(start_sys 1 :: u32 sys)
    \<lparr>threads := (threads (start_sys 1 :: u32 sys))(0 := Waiting timed_wait_args (wait_enter timed_wait_args 0))\<rparr>"
  have "valid_call timed_wait_args" "threads (start_sys 1 :: u32 sys) 0 = Idle"
    using valid_K by (simp_all add: valid_call_def timed_wait_args_def byte_wait_def wait_width_def valid_ts_def start_sys_def)
  then have "sys_step futex_ops 2 (start_sys 1) ?s"
    by (intro sys_step.call_wait) simp_all
  then have "reachable futex_ops (\<lambda>_. True) 2 ?s"
    by (rule reachable.step [OF reachable.init [OF start_sys_init [where calm = "\<lambda>_. True", OF TrueI]]])
  moreover have "threads ?s 0 = Waiting timed_wait_args (wait_enter timed_wait_args 0)"
      "reads_clock timed_wait_args (wait_enter timed_wait_args 0)" "shr ?s = shr (start_sys 1)"
    by (simp_all add: reads_clock_def timed_wait_args_def wait_enter_def)
  ultimately have "wait_step futex_ops timed_wait_args (the_env\<lparr>env_clock_ret := - 1\<rparr>) (shr (start_sys 1))
      (wait_enter timed_wait_args 0) = Inl Abort_Called"
    using conjunct1 [OF never_faults [OF N e, of futex_ops ?s 0]] futex_native by simp
  then show ?thesis
    using never_faults [OF N e, of futex_ops parked_sys 1] never_faults [OF N e, of futex_ops parked_sys 0] futex_native
      parked(1) refused(1) by blast
qed

text \<open>
  C12. Mutual exclusion, on every backend (on pthreads while destroying mutexes and condition variables
  succeeds): at most one thread is between \<open>hash_table_lock\<close> and \<open>hash_table_unlock\<close>, and
  while one is there the lock flag is set.
\<close>

theorem lock_exclusive:
  assumes "int N < INT_MAX"
  shows "(ops \<in> native_proxies \<and> reachable ops (\<lambda>_. True) N s \<and> critical (threads s t) \<and> critical (threads s u)
      \<longrightarrow> t = u \<and> held (wld (shr s))) \<and>
    (reachable pthread_ops os_calm N s' \<and> critical (threads s' t) \<and> critical (threads s' u)
      \<longrightarrow> t = u \<and> held (wld (shr s')))"
  using wait_backend.reachable_exclusive [OF native_waits [of ops] _ assms] pthread_sys.reachable_exclusive [OF _ assms]
  by blast

theorem lock_exclusive_witness:
  "{u. critical (threads waking_sys u)} = {1} \<and> held (wld (shr waking_sys))"
proof -
  have c: "critical (threads waking_sys 1)"
    using waking_ready by auto
  have N: "int 2 < INT_MAX"
    by (simp add: INT_MAX_def)
  show ?thesis
    using c lock_exclusive [OF N] futex_native waking(1) by blast
qed

text \<open>
  C7. On every backend (on pthreads while destroying mutexes and condition variables succeeds) the proxy a
  registered waiter holds is the one the table finds for its object, it is
  allocated, and its use count is the number of registered waiters on that object.
\<close>

theorem use_count_is_waiters:
  assumes "int N < INT_MAX"
  shows "(ops \<in> native_proxies \<and> reachable ops (\<lambda>_. True) N s \<and> registered k (threads s t) \<longrightarrow>
      (\<exists>px. lookup (wld (shr s)) k = Some (thread_item (threads s t))
         \<and> heap (wld (shr s)) (thread_item (threads s t)) = Some px
         \<and> use_count px = int (card (users_of (threads s) k)))) \<and>
    (reachable pthread_ops os_calm N s' \<and> registered k (threads s' t) \<longrightarrow>
      (\<exists>px. lookup (wld (shr s')) k = Some (thread_item (threads s' t))
         \<and> heap (wld (shr s')) (thread_item (threads s' t)) = Some px
         \<and> use_count px = int (card (users_of (threads s') k))))"
  using wait_backend.reachable_item_live [OF native_waits [of ops] _ assms] pthread_sys.reachable_item_live [OF _ assms]
  by blast

theorem use_count_is_waiters_witness:
  "\<exists>p px q py. lookup (wld (shr parked_sys)) K = Some p \<and> heap (wld (shr parked_sys)) p = Some px
     \<and> use_count px = int (card (users_of (threads parked_sys) K))
     \<and> lookup (wld (shr pparked_sys)) K = Some q \<and> heap (wld (shr pparked_sys)) q = Some py
     \<and> use_count py = int (card (users_of (threads pparked_sys) K))"
proof -
  obtain l k where l: "threads parked_sys 0 = Waiting (byte_wait 1) l" "pc l = W_Parked" "item l \<noteq> NULL"
      "threads pparked_sys 0 = Waiting (byte_wait 1) k" "pc k = W_Parked" "item k \<noteq> NULL"
    using snapD [OF parked(2)] snapD [OF pparked(2)] by auto
  then have "registered K (threads parked_sys 0)" "registered K (threads pparked_sys 0)"
    by (simp_all add: byte_wait_def)
  moreover have "int 2 < INT_MAX"
    by (simp add: INT_MAX_def)
  ultimately show ?thesis
    using use_count_is_waiters [of 2 futex_ops parked_sys K 0 pparked_sys] futex_native parked(1) pparked(1) by blast
qed



section \<open>What a wait returns\<close>



text \<open>
  C5. A store and a notification end a wait, on every backend (on pthreads while destroying mutexes and
  condition variables succeeds). A thread is blocked in \<open>atomic_wait_generic\<close> on an object that
  has changed, another has called \<open>atomic_notify_generic\<close> for all waiters, and nobody is in the critical
  section. The notifier can run to its end by its own steps and report success; and whenever it has done
  so, however it ran, the waiter is unblocked and, taking its own steps next, has returned after eight of
  them, with result 1, the new value, and errno as it was on entry. On pthreads the last part needs
  that no other thread takes the token in between.
\<close>

theorem notify_all_releases:
  assumes "int N < INT_MAX" and "pc l = W_Parked" and "valid_env e1" and "valid_env e2"
  shows "(ops \<in> native_proxies \<and> reachable ops (\<lambda>_. True) N s \<and> threads s t = Waiting a l
        \<and> threads s u = Notifying (notify_enter (object a) WAKE_ALL e0) \<and> (\<forall>v. \<not> critical (threads s v))
        \<and> load_bytes (mem (shr s)) (object a) (bytes a) \<noteq> expected l
      \<longrightarrow> wake_all_releases ops u t a l s [e1, e2, e3, e4, e5, e6, e7, e8]) \<and>
    (reachable pthread_ops os_calm N s' \<and> threads s' t = Waiting a l
        \<and> threads s' u = Notifying (notify_enter (object a) WAKE_ALL e0) \<and> (\<forall>v. \<not> critical (threads s' v))
        \<and> load_bytes (mem (shr s')) (object a) (bytes a) \<noteq> expected l
      \<longrightarrow> wake_all_releases pthread_ops u t a l s' [e1, e2, e3, e4, e5, e6, e7, e8])"
  by (intro conjI impI; elim conjE)
    (rule waking_backend.store_notify_return [OF native_waking _ assms(1) _ assms(2) _ _ _ assms(3,4)]
       pthread_wakes.store_notify_return [OF _ assms(1) _ assms(2) _ _ _ assms(3,4)]; assumption)+

theorem notify_all_releases_witness:
  "\<exists>l s1 sh' l'. threads calling_sys 0 = Waiting (byte_wait 1) l \<and> alone futex_ops 1 calling_sys s1 \<and>
     threads s1 0 = Waiting (byte_wait 1) (l\<lparr>pc := W_Woken\<rparr>) \<and>
     wait_run futex_ops (byte_wait 1) (replicate 8 the_env) (shr s1) (l\<lparr>pc := W_Woken\<rparr>) = Inr (sh', l') \<and>
     pc l' = W_Done \<and> ret l' = 1 \<and> expected l' = [0]"
proof -
  have o: "snap 0 calling_sys = (True, byte_wait 1, W_Parked, [1], True, 1, True, 0, [0])"
      "threads calling_sys 1 = Notifying (notify_enter K WAKE_ALL 0)"
    using calling(2) by simp_all
  obtain l where l: "threads calling_sys 0 = Waiting (byte_wait 1) l" "pc l = W_Parked" "expected l = [1]"
      "load_bytes (mem (shr calling_sys)) K 1 = [0]"
    using snapD [OF o(1)] by auto
  have b: "object (byte_wait 1) = K" "bytes (byte_wait 1) = 1"
    by (simp_all add: byte_wait_def)
  have N: "int 2 < INT_MAX" and env: "valid_env the_env"
    by (simp_all add: INT_MAX_def valid_env_def valid_ts_def the_env_def)
  have free: "\<forall>u. \<not> critical (threads calling_sys u)"
    using none_critical [OF calling(1)] o(2) l(1,2) by (simp add: notify_enter_def)
  have "wake_all_releases futex_ops 1 0 (byte_wait 1) l calling_sys
      [the_env, the_env, the_env, the_env, the_env, the_env, the_env, the_env]"
    using notify_all_releases [OF N l(2) env env, of futex_ops calling_sys 0 "byte_wait 1" 1 0]
      futex_native calling(1) l(1,3,4) o(2) free b by simp
  then obtain s1 k where s1: "alone futex_ops 1 calling_sys s1" "threads s1 1 = Notifying k" "npc k = N_Done" "0 \<le> nret k"
      "threads s1 0 = Waiting (byte_wait 1) (l\<lparr>pc := W_Woken\<rparr>)"
      "returns_change futex_ops (byte_wait 1) (shr s1) (l\<lparr>pc := W_Woken\<rparr>) [0] (replicate 8 the_env)"
    using l(4) b by (auto simp: wake_all_releases_def numeral_eq_Suc)
  then show ?thesis
    using l(1) unfolding returns_change_def by blast
qed

text \<open>
  C16. A timed wait ends, on every backend (on pthreads while destroying mutexes and condition variables
  succeeds): a thread that is blocked with a time limit, is timed out by the system when its
  deadline has passed and runs while no other thread is in the critical section has returned after at
  most eight of its own steps: with 0 and \<open>ETIMEDOUT\<close> if the object still has the expected value, and with
  1, the new value and errno as it was on entry otherwise.
\<close>

theorem timed_out_wait_returns:
  assumes "int N < INT_MAX" and "pc l = W_Parked" and "duration a = Some d" and "valid_env e1"
    and "env_os e1 = ETIMEDOUT" and "valid_env e2" and "valid_env e4" and "ts_passed (env_now e4) (end_time l)"
  shows "(ops \<in> native_proxies \<and> reachable ops (\<lambda>_. True) N s \<and> threads s t = Waiting a l
        \<and> (\<forall>u. \<not> critical (threads s u))
      \<longrightarrow> ends_timed_out ops a (shr s) l [e1, e2, e3, e4, e5, e6, e7, e8]) \<and>
    (reachable pthread_ops os_calm N s' \<and> threads s' t = Waiting a l \<and> (\<forall>u. \<not> critical (threads s' u))
      \<longrightarrow> ends_timed_out pthread_ops a (shr s') l [e1, e2, e3, e4, e5, e6, e7, e8])"
proof -
  have "fst (px_resume pthread_ops ETIMEDOUT c) = Some (- ETIMEDOUT)" for c
    by (simp add: pthread_proxy_resume_def errno_defs)
  then show ?thesis
    using wait_backend.reachable_timeout [OF native_waits [of ops] _ assms(1) _ assms(2) _ assms(3-8) native_resumes]
      pthread_sys.reachable_timeout [OF _ assms(1) _ assms(2) _ assms(3-8)]
    unfolding ends_timed_out_def by blast
qed

theorem timed_out_wait_returns_witness:
  "\<exists>l sh' l'. threads timed_sys 0 = Waiting timed_wait_args l \<and>
     wait_run futex_ops timed_wait_args (late ETIMEDOUT # replicate 7 (late 0)) (shr timed_sys) l = Inr (sh', l')
     \<and> pc l' = W_Done \<and> ret l' = 0 \<and> terrno l' = ETIMEDOUT"
proof -
  have o: "snap 0 timed_sys = (True, timed_wait_args, W_Parked, [1], True, 1, False, 0, [1])"
      "end_time (wlocal_of (threads timed_sys 0)) = \<lparr>tv_sec = 0, tv_nsec = 1\<rparr>" "threads timed_sys 1 = Idle"
    using timed(2) by simp_all
  obtain l where l: "threads timed_sys 0 = Waiting timed_wait_args l" "pc l = W_Parked" "expected l = [1]"
      "load_bytes (mem (shr timed_sys)) K 1 = [1]"
    using snapD [OF o(1)] by auto
  have N: "int 2 < INT_MAX"
    by (simp add: INT_MAX_def)
  have free: "\<forall>u. \<not> critical (threads timed_sys u)"
    using none_critical [OF timed(1)] o(3) l(1,2) by simp
  have a: "duration timed_wait_args = Some \<lparr>tv_sec = 0, tv_nsec = 1\<rparr>" "object timed_wait_args = K"
      "bytes timed_wait_args = 1"
    by (simp_all add: timed_wait_args_def byte_wait_def)
  have e: "valid_env (late ETIMEDOUT)" "env_os (late ETIMEDOUT) = ETIMEDOUT" "valid_env (late 0)"
      "ts_passed (env_now (late 0)) (end_time l)"
    using o(2) l(1) by (simp_all add: late_def valid_env_def valid_ts_def ts_passed_def)
  have "ends_timed_out futex_ops timed_wait_args (shr timed_sys) l
      [late ETIMEDOUT, late 0, late 0, late 0, late 0, late 0, late 0, late 0]"
    using timed_out_wait_returns [OF N l(2) a(1) e(1,2,3,3,4), of futex_ops timed_sys 0
        "late 0" "late 0" "late 0" "late 0" "late 0"] futex_native timed(1) l(1) free by blast
  then have "\<exists>sh' l'. wait_run futex_ops timed_wait_args (late ETIMEDOUT # replicate 7 (late 0)) (shr timed_sys) l = Inr (sh', l')
      \<and> pc l' = W_Done \<and> ret l' = 0 \<and> terrno l' = ETIMEDOUT"
    using l(3,4) a(2,3) by (simp add: ends_timed_out_def numeral_eq_Suc del: wait_run.simps) blast
  then show ?thesis
    using l(1) by blast
qed

text \<open>
  C27. The time limit of \<open>atomic_wait_generic\<close> is exact: with the deadline computed from the time \<open>t0\<close>
  of the call, the test before each blocking call ends the wait with \<open>ETIMEDOUT\<close> exactly when \<open>t0\<close> plus
  the duration has passed, and otherwise hands the blocking call the time that is left, to the
  nanosecond.
\<close>

theorem deadline_exact:
  assumes "pc l = W_Clock" and "duration a = Some d" and "valid_ts d" and "valid_ts t0"
    and "ts_deadline t0 d = Inr (end_time l)" and "valid_env e"
  shows "\<exists>l'. wait_step ops a e sh l = Inr (sh, l') \<and>
    (if ns t0 + ns d \<le> ns (env_now e)
     then pc l' = W_Tail \<and> ret l' = 0 \<and> terrno l' = ETIMEDOUT \<and> errno_is_set l'
     else pc l' = W_Park \<and> (\<exists>r. remaining l' = Some r \<and> ns r = ns t0 + ns d - ns (env_now e)))"
  using assms by (rule clock_exact)

theorem deadline_exact_witness:
  "\<exists>l'. wait_step futex_ops ((byte_wait 1)\<lparr>duration := Some \<lparr>tv_sec = 1, tv_nsec = 5\<rparr>\<rparr>) the_env (shr (start_sys 1))
          ((wait_enter (byte_wait 1) 0)\<lparr>pc := W_Clock, end_time := \<lparr>tv_sec = 1, tv_nsec = 5\<rparr>\<rparr>)
        = Inr (shr (start_sys 1), l') \<and> pc l' = W_Park \<and> (\<exists>r. remaining l' = Some r \<and> ns r = 1000000005)"
  using deadline_exact
    [of "(wait_enter (byte_wait 1) 0)\<lparr>pc := W_Clock, end_time := \<lparr>tv_sec = 1, tv_nsec = 5\<rparr>\<rparr>"
        "(byte_wait 1)\<lparr>duration := Some \<lparr>tv_sec = 1, tv_nsec = 5\<rparr>\<rparr>" "\<lparr>tv_sec = 1, tv_nsec = 5\<rparr>"
        "\<lparr>tv_sec = 0, tv_nsec = 0\<rparr>" the_env futex_ops "shr (start_sys 1)"]
  by (simp add: valid_ts_def valid_env_def the_env_def ns_def ts_deadline_def c_long_def)

text \<open>
  C28. A duration so long that the deadline leaves the 64-bit range of \<open>time_t\<close> is a signed overflow,
  undefined behaviour, at the first instruction of the wait: the caller's duration is not checked.
\<close>

theorem deadline_overflow:
  assumes "duration a = Some d" and "env_clock_ret e = 0" and "0 \<le> tv_nsec (env_now e)"
    and "tv_nsec (env_now e) < 1000000000" and "0 \<le> tv_nsec d" and "tv_nsec d < 1000000000"
    and "tv_sec (env_now e) + tv_sec d \<ge> 2 ^ 63" and "pc l = W_Start"
  shows "wait_step ops a e sh l = Inl Signed_Overflow"
  using assms ts_deadline_overflow [of "env_now e" d]
  by (simp add: wait_step_def local_step_def w_start_def monotonic_now_posix_def Let_def)

theorem deadline_overflow_witness:
  "wait_step futex_ops ((byte_wait 1)\<lparr>duration := Some \<lparr>tv_sec = 2 ^ 63 - 1, tv_nsec = 0\<rparr>\<rparr>)
     (the_env\<lparr>env_now := \<lparr>tv_sec = 1, tv_nsec = 0\<rparr>\<rparr>) (shr (start_sys 1)) (wait_enter (byte_wait 1) 0)
   = Inl Signed_Overflow"
  by (rule deadline_overflow [where d = "\<lparr>tv_sec = 2 ^ 63 - 1, tv_nsec = 0\<rparr>"])
    (simp_all add: the_env_def wait_enter_def)

section \<open>The proxy table\<close>

text \<open>
  C23. \<open>hash_table_find_or_create\<close> with counting, on any table that satisfies the invariant and for
  every behaviour of the allocator: it returns without a fault, keeps the invariant and the lock, and
  either returns the null pointer and leaves map and proxies as they were, or returns the proxy of the
  key with one user more, or enters a proxy at an address that was free, initialised, with one user.
  It does not refuse if the next two allocations and the initialisation succeed and the table is below
  its limit: one growth is always enough.
\<close>

theorem table_acquire:
  assumes "world_inv w" and "valid_key k" and "counts_ok w"
  shows "\<exists>p w'. hash_table_find_or_create ops k True w = Inr (p, w') \<and> world_inv w' \<and> held w' = held w \<and>
    (p = NULL \<and> lookup w' = lookup w \<and> heap w' = heap w
     \<or> lookup w k = Some p \<and> lookup w' = lookup w \<and>
         (\<exists>px. heap w p = Some px \<and> heap w' = (heap w)(p \<mapsto> px\<lparr>use_count := use_count px + 1\<rparr>))
     \<or> lookup w k = None \<and> p \<noteq> NULL \<and> heap w p = None \<and> lookup w' = (lookup w)(k \<mapsto> p) \<and>
         (\<exists>a. init_value ops a \<and> heap w' = (heap w)(p \<mapsto> \<lparr>use_count = 1, atomic = a\<rparr>))) \<and>
    (ample 2 w \<and> init_succeeds ops w \<and> below_limit w \<longrightarrow> p \<noteq> NULL)"
proof -
  obtain p w' where r: "hash_table_find_or_create ops k True w = Inr (p, w')" "acquire_post ops w k p w'"
    using find_or_create_acquire [OF assms, of ops] by blast
  show ?thesis
    using r(2) acquire_served [OF assms _ _ _ r(1)] by (intro exI [of _ p] exI [of _ w'] conjI r(1)) (auto simp: acquire_defs)
qed

theorem table_acquire_witness:
  "\<exists>p w'. hash_table_find_or_create futex_ops K True (wld (shr (start_sys 1))) = Inr (p, w') \<and> world_inv w'
     \<and> p \<noteq> NULL \<and> lookup w' K = Some p"
proof -
  let ?w = "wld (shr (start_sys 1 :: u32 sys))"
  have "counts_ok ?w"
    by (simp add: counts_ok_def start_sys_def)
  moreover have "ample 2 ?w" "init_succeeds futex_ops ?w" "below_limit ?w" "lookup ?w = Map.empty"
    by (simp_all add: ample_def init_succeeds_def below_limit_def start_sys_def futex_init_def lookup_def
        shared_global_hash_table_def fun_eq_iff)
  ultimately show ?thesis
    using table_acquire [OF start_world_inv valid_K, of 1 futex_ops] by auto
qed

text \<open>
  C24. Round trip, on every backend (on pthreads while destroying mutexes and condition variables
  succeeds: a release aborts otherwise): releasing what was acquired gives back the map, the counts and
  the payloads one started from.
\<close>

theorem acquire_then_release:
  assumes "valid_key k"
  shows "(ops \<in> native_proxies \<and> good_world (\<lambda>_. True) w \<and> (\<forall>k p n a. view w k = Some (p, n, a) \<longrightarrow> int n < INT_MAX)
        \<and> hash_table_find_or_create ops k True w = Inr (p, w1) \<and> p \<noteq> NULL \<longrightarrow>
      (\<exists>w2. release_item ops k p w1 = Inr w2 \<and> good_world (\<lambda>_. True) w2 \<and> held w2 = held w \<and> view w2 = view w)) \<and>
    (good_world os_calm u \<and> (\<forall>k p n a. view u k = Some (p, n, a) \<longrightarrow> int n < INT_MAX)
        \<and> hash_table_find_or_create pthread_ops k True u = Inr (p, u1) \<and> p \<noteq> NULL \<longrightarrow>
      (\<exists>u2. release_item pthread_ops k p u1 = Inr u2 \<and> good_world os_calm u2 \<and> held u2 = held u \<and> view u2 = view u))"
  using proxy_backend.acquire_release_contract [OF native_refs [of ops] _ assms]
    pthread.acquire_release_contract [OF _ assms]
  by blast

theorem acquire_then_release_witness:
  "\<exists>p w1 w2. hash_table_find_or_create futex_ops K True (wld (shr (start_sys 1))) = Inr (p, w1) \<and> p \<noteq> NULL \<and>
     release_item futex_ops K p w1 = Inr w2 \<and> view w2 = Map.empty"
proof -
  obtain p w1 where a: "hash_table_find_or_create futex_ops K True (wld (shr (start_sys 1))) = Inr (p, w1)"
      "p \<noteq> NULL"
    using start_acquires by blast
  have v: "view (wld (shr (start_sys 1 :: u32 sys))) = Map.empty"
    by (simp add: fun_eq_iff start_sys_def view_def lookup_def shared_global_hash_table_def)
  show ?thesis
    using acquire_then_release [OF valid_K, of futex_ops "wld (shr (start_sys 1))" p w1] futex_native start_good [of 1] a v by auto
qed

text \<open>
  C25. Growing keeps the map: \<open>hash_table_grow\<close> returns without a fault, keeps the invariant, the map,
  the proxies and the lock. It fails only at the largest size or when \<open>calloc\<close> does, and then leaves the
  table as it was; otherwise it doubles the array, which then has no tombstones.
\<close>

theorem table_grow:
  assumes "world_inv w" and "buckets (table w) = Some bs"
  shows "\<exists>r w'. hash_table_grow w = Inr (r, w') \<and> world_inv w' \<and> lookup w' = lookup w \<and> heap w' = heap w
    \<and> held w' = held w \<and>
    (r = -1 \<and> table w' = table w \<and> (length bs = 2 ^ 20 \<or> fst (c_calloc w) = NULL)
     \<or> r = 0 \<and> (\<exists>bs'. buckets (table w') = Some bs' \<and> length bs' = 2 * length bs
           \<and> (\<forall>b\<in>set bs'. key b \<noteq> HASH_BUCKET_DELETED)))"
proof -
  have "bucket_count (table w) = HASH_BUCKETS_MAX \<Longrightarrow> length bs = 2 ^ 20"
    using assms by (rule max_length)
  then show ?thesis
    using hash_table_grow_ok [OF assms] by (fastforce simp: quiet_def no_tomb_def)
qed

theorem table_grow_witness:
  "\<exists>bs r w'. buckets (table (wld (shr parked_sys))) = Some bs \<and> hash_table_grow (wld (shr parked_sys)) = Inr (r, w')
     \<and> lookup w' = lookup (wld (shr parked_sys))"
proof -
  obtain bs where "buckets (table (wld (shr parked_sys))) = Some bs"
    using parked_view by (auto simp: view_Some lookup_def split: option.splits)
  then show ?thesis
    using table_grow [of "wld (shr parked_sys)" bs] parked_good by (fastforce simp: good_world_def refs_inv_def)
qed

text \<open>
  C26. When a table of maximal size refuses. Three quarters full it refuses every acquisition with
  \<open>ENOMEM\<close>, also of a key that has a proxy, as the load is tested before the search. Below that, if its
  slots are all live or tombstones, it refuses every new key, however few keys are live: the tombstone the
  probe remembered is not used and nothing clears it.
\<close>

theorem largest_table_refuses:
  assumes "world_inv w" and "buckets (table w) = Some bs" and "length bs = 2 ^ 20" and "valid_key k"
    and "3 * 2 ^ 18 \<le> count (table w) \<or> lookup w k = None \<and> (\<forall>i<length bs. key (bs ! i) \<noteq> NULL)"
  shows "hash_table_find_or_create ops k True w = Inr (NULL, w\<lparr>errno := ENOMEM\<rparr>)"
proof (cases "3 * 2 ^ 18 \<le> count (table w)")
  case True
  then show ?thesis
    using loaded_table_refuses [OF assms(1,2) length_max [OF assms(1-3)]] by (simp add: HASH_BUCKETS_MAX_def)
next
  case False
  then have "lookup w k = None" "\<forall>i<length bs. key (bs ! i) \<noteq> NULL" "count (table w) < 3 * 2 ^ 18"
    using assms(5) by (blast, blast, simp add: not_le)
  then show ?thesis
    using full_table_refuses [OF assms(1-3)] assms(4) by blast
qed

theorem largest_table_refuses_witness:
  "hash_table_find_or_create futex_ops K True tomb_world = Inr (NULL, tomb_world\<lparr>errno := ENOMEM\<rparr>)"
proof (rule largest_table_refuses)
  show "world_inv tomb_world"
    using tomb_world_ok by simp
  show "buckets (table tomb_world) = Some (replicate (2 ^ 20) \<lparr>proxy = NULL, key = HASH_BUCKET_DELETED\<rparr>)"
    by (simp add: tomb_world_def)
  show "3 * 2 ^ 18 \<le> count (table tomb_world) \<or> lookup tomb_world K = None \<and>
      (\<forall>i<length (replicate (2 ^ 20) \<lparr>proxy = NULL, key = HASH_BUCKET_DELETED\<rparr>).
        key (replicate (2 ^ 20) \<lparr>proxy = NULL, key = HASH_BUCKET_DELETED\<rparr> ! i) \<noteq> NULL)"
    using tomb_world_ok by (simp add: HASH_BUCKET_DELETED_def)
qed (simp_all add: tomb_world_def valid_K)

text \<open>
  C30. The white-box tests pass. The one of the table inserts the keys, finds them, removes every second
  one, finds the others and not these, inserts those again, removes all and finds none, checking the
  count each time: from the initial table, for every list of an even number of distinct keys from 1026 up
  to \<open>2 ^ 16\<close> (the test has 5000), no check fails, if the allocator has six answers per key and eleven for
  arrays; the table is empty, the lock free and no proxy allocated at the end. That is so on every native
  backend, and on pthreads if the initialisations and destructions of the proxies succeed. No check of the
  test of the pthreads proxy fails either, if the system calls it makes succeed.
\<close>

theorem whitebox_tests_pass:
  assumes "distinct keys" and "\<forall>k\<in>set keys. valid_key k" and "even (length keys)"
    and "1024 < length keys" and "length keys \<le> 2 ^ 16"
  shows "(ops \<in> native_proxies \<and> test_start keys w \<longrightarrow> table_test_clean ops keys w) \<and>
    (test_start keys w' \<and> os_succeeds (os_script w') \<longrightarrow> table_test_clean pthread_ops keys w') \<and>
    pthreads_proxy_whitebox_test p = 0"
proof -
  have "fst (px_init ops sc (px_zero ops)) = 0" if "ops \<in> native_proxies" for sc
    using that by (auto simp: native_proxies_def native_ops_defs futex_init_def)
  then show ?thesis
    using proxy_backend.test_is_clean [OF native_refs [of ops] _ assms] pthread_quiet.test_is_clean [OF _ assms]
      pthread_init_succeeds pthreads_whitebox_passes by simp
qed

theorem whitebox_tests_pass_witness:
  "table_test_clean futex_ops (spaced_words 4096 5000) test_world \<and>
   table_test_clean pthread_ops (spaced_words 4096 5000) test_world"
proof -
  have keys: "distinct (spaced_words 4096 5000)" "\<forall>k\<in>set (spaced_words 4096 5000). valid_key k"
      "length (spaced_words 4096 5000) = 5000"
    using spaced_words_ok [of 4096 5000] by simp_all
  have size: "even (length (spaced_words 4096 5000))" "1024 < length (spaced_words 4096 5000)"
      "length (spaced_words 4096 5000) \<le> 2 ^ 16"
    unfolding keys(3) by simp_all
  have "test_start (spaced_words 4096 5000) (test_world :: u32 world)"
      "test_start (spaced_words 4096 5000) (test_world :: pthreads_proxy world)"
      "os_succeeds (os_script (test_world :: pthreads_proxy world))"
    by (rule test_world_start)+
  then show ?thesis
    using whitebox_tests_pass [OF keys(1,2) size, of futex_ops test_world test_world] futex_native by simp
qed

section \<open>The native functions\<close>

text \<open>
  C13. What \<open>atomic_wait_expected_32\<close> does on the four native backends, whatever the loads, the clock and the
  system calls answer. Without a time limit it does not fault, and goes on exactly as long as every load
  sees the expected value and no system call fails hard; it returns in the first turn where that is not so
  (\<open>ends_with\<close>): at a load that sees another value it hands that value back, with errno as on entry and
  the result 1, or 0 if it never waited, after one more load in the success order if it waited and that
  order is stronger; at a hard error it returns -1 with errno set to it and the expected value. With a
  time limit, and a clock that moves during every wait, one turn per nanosecond of the duration is enough,
  and it reports a change (0 or 1, another value, errno as on entry), a timeout (0, \<open>ETIMEDOUT\<close>) or a hard
  error (-1, errno set to it).
\<close>

theorem native_wait_contract:
  assumes "ops \<in> {linux_ops load clock futex obj, freebsd_ops load clock umtx obj, macos_ops load clock ulock obj,
                windows_ops load clock win obj}"
  shows "(atomic_wait_expected_32 fuel ops v None so fo err s = Inr None
        \<and> (\<forall>i<fuel. goes_on ops fo v err (turn_start ops fo v err i s))
      \<or> (\<exists>n<fuel. \<exists>res. (\<forall>i<n. goes_on ops fo v err (turn_start ops fo v err i s))
          \<and> atomic_wait_expected_32 fuel ops v None so fo err s = Inr (Some res)
          \<and> ends_with ops so fo v err n (turn_start ops fo v err n s) res)) \<and>
    (ticking ops T B \<and> T (snd (snd (nt_clock ops s))) + ns d \<le> B \<and> valid_ts d \<and> nat (ns d) < fuel \<longrightarrow>
      (\<exists>r w e s'. atomic_wait_expected_32 fuel ops v (Some d) so fo err s = Inr (Some (r, w, e, s')) \<and>
        (r \<in> {0, 1} \<and> w \<noteq> v \<and> e = err
         \<or> r = 0 \<and> w = v \<and> e = ETIMEDOUT
         \<or> r = -1 \<and> w = v \<and> 0 < e \<and> e \<noteq> EAGAIN \<and> e \<noteq> EINTR \<and> e \<noteq> ETIMEDOUT)))"
proof -
  have b: "native_backend ops"
    using assms linux.native_backend_axioms freebsd.native_backend_axioms macos.native_backend_axioms
      win.native_backend_axioms by blast
  have "\<exists>r w e s'. atomic_wait_expected_32 fuel ops v (Some d) so fo err s = Inr (Some (r, w, e, s'))
      \<and> native_outcome v (Some d) err (r, w, e, s')"
    if "ticking ops T B" "T (snd (snd (nt_clock ops s))) + ns d \<le> B" "valid_ts d" "nat (ns d) < fuel"
    using timed_wait [OF that, of v so fo err] native_backend.expected_outcome [OF b] by blast
  then show ?thesis
    using native_backend.untimed_wait [OF b, of fuel v so fo err s] by (simp add: native_outcome_def)
qed

theorem native_wait_contract_witness:
  "\<exists>n<2. \<exists>res. atomic_wait_expected_32 2 count_ops 0 None Seq_Cst Seq_Cst 7 0 = Inr (Some res)
     \<and> ends_with count_ops Seq_Cst Seq_Cst 0 7 n (turn_start count_ops Seq_Cst 0 7 n 0) res"
proof -
  have r: "atomic_wait_expected_32 2 count_ops 0 None Seq_Cst Seq_Cst 7 0 = Inr (Some (1, 1, 7, 1))"
    by code_simp
  have "count_ops \<in> {linux_ops count_load count_clock count_futex 4096, freebsd_ops count_load count_clock undefined 4096,
      macos_ops count_load count_clock undefined 4096, windows_ops count_load count_clock undefined 4096}"
    by (simp add: count_ops_def)
  then show ?thesis
    using conjunct1 [OF native_wait_contract [where fuel = 2 and v = 0 and so = Seq_Cst and fo = Seq_Cst and err = 7 and s = 0]] r
    by (metis option.distinct(1) sum.inject(2))
qed

text \<open>
  C14. The contract of the native functions with any number of threads, in every reachable state (while
  \<open>clock_gettime\<close> succeeds, as the process aborts where it does not), on
  every backend and for every width that has a native wait: no thread has faulted; a finished \<open>atomic_wait_expected_32\<close> reports a change (0 or
  1, the value seen, errno as on entry), a timeout (0, only with a duration, \<open>ETIMEDOUT\<close>) or a hard error
  (-1, errno set to it); a finished \<open>atomic_wait_1/2/4/8\<close> leaves errno as it was.
\<close>

theorem native_threads_contract:
  assumes "have_wait_on_address b LENGTH('a)" and "nreachable b N (s :: 'a::len word nsys)" and "int N < INT_MAX"
  shows "nthreads s t \<noteq> NCrashed f \<and>
    (\<forall>a l. nthreads s t = NWaiting a l \<and> nw_pc l = NW_Done \<longrightarrow>
       (if nw_plain a then nw_errno l = nw_entry l
        else nw_ret l \<in> {0, 1} \<and> nw_expected l \<noteq> nw_expected0 a \<and> nw_errno l = nw_entry l
          \<or> nw_ret l = 0 \<and> nw_expected l = nw_expected0 a \<and> nw_duration a \<noteq> None \<and> nw_errno l = ETIMEDOUT
          \<or> nw_ret l = -1 \<and> nw_expected l = nw_expected0 a \<and> 0 < nw_errno l \<and> nw_errno l \<noteq> EAGAIN
            \<and> nw_errno l \<noteq> EINTR \<and> nw_errno l \<noteq> ETIMEDOUT))"
proof -
  have "nthread_ok (nthreads s t)"
    by (rule address_backend.nreachable_ok [OF native_address [OF assms(1)] assms(2,3)])
  then show ?thesis
    by (cases "nthreads s t") (auto simp: nw_ok_def native_outcome_def split: if_splits)
qed

theorem native_threads_contract_witness:
  "\<exists>l. nthreads nreturned 0 = NWaiting word_wait l \<and> nw_pc l = NW_Done \<and> nw_ret l = 1 \<and> nw_expected l \<noteq> 7
     \<and> nw_errno l = nw_entry l"
proof -
  obtain l where l: "nthreads nreturned 0 = NWaiting word_wait l" "nw_pc l = NW_Done" "nw_ret l = 1"
      "nw_expected l = 8"
    using nreturned_done by blast
  have N: "int 2 < INT_MAX"
    by (simp add: INT_MAX_def)
  show ?thesis
    using native_threads_contract [OF _ nreturned_reachable N, of 0] l by (auto simp: word_wait_def)
qed

text \<open>
  C18. Progress on the object's own address: a thread of a reachable state that is not blocked, and finds
  the object changed from the value it was called with whenever it looks, has returned after at most four
  of its own steps.
\<close>

theorem native_thread_returns:
  assumes "have_wait_on_address b LENGTH('a)" and "nreachable b N (s :: 'a::len word nsys)" and "int N < INT_MAX"
    and "nthreads s t = NWaiting a l" and "nw_pc l \<noteq> NW_Blocked"
    and "cells s (nw_object a) \<noteq> nw_expected0 a" and "\<forall>e\<in>set es. valid_env e" and "4 \<le> length es"
  shows "\<exists>l'. nw_run b a (map (\<lambda>e. (e, cells s (nw_object a))) es) l = Inr l' \<and> nw_pc l' = NW_Done"
proof -
  have "nw_ok a l"
    using address_backend.nreachable_ok [OF native_address [OF assms(1)] assms(2,3), of t] assms(4) by simp
  moreover have "steps_left (nw_pc l) \<le> length es"
    using assms(8) by (cases "nw_pc l") simp_all
  ultimately show ?thesis
    using address_backend.returns_alone [OF native_address [OF assms(1)] _ assms(7,6,5)] by blast
qed

theorem native_thread_returns_witness:
  "\<exists>l l'. nthreads nwoken 0 = NWaiting word_wait l \<and>
     nw_run Linux word_wait (replicate 4 (calm_env, cells nwoken 64)) l = Inr l' \<and> nw_pc l' = NW_Done"
proof -
  obtain l where l: "nthreads nwoken 0 = NWaiting word_wait l" "nw_pc l \<noteq> NW_Blocked"
      "cells nwoken (nw_object word_wait) \<noteq> nw_expected0 word_wait"
    using nwoken_ready by blast
  have N: "int 2 < INT_MAX"
    by (simp add: INT_MAX_def)
  show ?thesis
    using native_thread_returns [OF _ nwoken_reachable N l, of "replicate 4 calm_env"] l(1) calm_env_valid
    by (auto simp: word_wait_def)
qed

text \<open>
  C15. A timed \<open>atomic_wait_expected_32\<close> returns, and never times out early: if the clock moves during
  every wait, one turn of the loop per nanosecond of the duration is enough, and a timeout is
  reported only when the whole duration has passed.
\<close>

theorem timed_wait_returns:
  assumes "ticking ops T B" and "T (snd (snd (nt_clock ops s))) + ns d \<le> B" and "valid_ts d"
    and "nat (ns d) < fuel"
  shows "\<exists>r w x s'. atomic_wait_expected_32 fuel ops v (Some d) so fo err s = Inr (Some (r, w, x, s'))
    \<and> (w = v \<and> x = ETIMEDOUT \<and> r = 0 \<longrightarrow> T s + ns d \<le> T s')"
  using assms by (rule timed_wait)

theorem timed_wait_returns_witness:
  "\<exists>r w x s'. atomic_wait_expected_32 4 tick_ops 0 (Some \<lparr>tv_sec = 0, tv_nsec = 3\<rparr>) Seq_Cst Seq_Cst 0 0 =
       Inr (Some (r, w, x, s'))
    \<and> (w = 0 \<and> x = ETIMEDOUT \<and> r = 0 \<longrightarrow> tick_time 0 + 3 \<le> tick_time s')"
  using timed_wait_returns [OF tick_ops_ticking, of 0 "\<lparr>tv_sec = 0, tv_nsec = 3\<rparr>" 4 0 Seq_Cst Seq_Cst 0]
  by (simp add: ns_def valid_ts_def tick_ops_def freebsd_ops_def tick_clock_def tick_time_def)

text \<open>
  C33. \<open>atomic_notify_32\<close> with the wakes of FreeBSD, macOS and Windows: no overflow; for a maximum of
  zero it does nothing at all and returns 0; if the object differs from the expected value it returns
  0 and hands the value back; otherwise the desired value is stored and the result is 1 plus the
  count of the wake, positive, or the error of the wake, with errno set to it.
\<close>

theorem notify_contract:
  assumes "wake \<in> {freebsd_wake_by_address32 umtx obj, macos_wake_by_address32 ulock obj,
                    windows_wake_by_address win obj}"
  shows "\<exists>r v' x e s'. atomic_notify_32 wake v expd desired m err s = Inr (r, v', x, e, s') \<and>
     (if m = 0 then r = 0 \<and> v' = v \<and> x = expd \<and> e = err \<and> s' = s
      else if v \<noteq> expd then r = 0 \<and> v' = v \<and> x = v \<and> e = err \<and> s' = s
      else v' = desired \<and> x = expd \<and> s' = snd (snd (wake m err s)) \<and>
        (0 < r \<and> r = 1 + fst (wake m err s) \<and> e = err
         \<or> r < 0 \<and> r = fst (wake m err s) \<and> e = - r))"
  using assms freebsd_wake32.notify_cases macos_wake32.notify_cases win_wake.notify_cases by fast

theorem notify_contract_witness:
  "atomic_notify_32 (windows_wake_by_address (\<lambda>c s. (True, 0, s)) K) 5 5 6 1 0 () = Inr (2, 6, 5, 0, ())"
proof -
  let ?w = "windows_wake_by_address (\<lambda>c s. (True, 0, s)) K :: u32 \<Rightarrow> int \<Rightarrow> unit \<Rightarrow> int \<times> int \<times> unit"
  have "?w 1 0 () = (1, 0, ())"
    by (simp add: windows_wake_by_address_def nominal_woken_def)
  then show ?thesis
    using notify_contract [of ?w undefined K undefined "\<lambda>c s. (True, 0, s)" 5 5 6 1 0 "()"] by auto
qed

text \<open>
  C34. The Linux wait hands the kernel the object, the expected value, and for a duration the absolute
  monotonic deadline, now plus duration to the nanosecond, normalised; it returns 0 or the negated
  errno value of the call and leaves errno as it was.
\<close>

theorem linux_wait_request:
  assumes "clock s = (cr, now, s1)" and "valid_ts now" and "valid_ts d"
  shows "\<exists>t r e s'. ns t = ns now + ns d \<and> 0 \<le> tv_nsec t \<and> tv_nsec t < 1000000000 \<and>
     futex (FUTEX_WAIT_BITSET obj (sint v) (Some t)) s1 = (r, e, s') \<and>
     linux_wait_on_address32 futex clock obj v (Some d) err s =
       Inr (if int_cast r = 0 then 0 else - int e, err, s')"
proof -
  obtain t where t: "linux_abstime clock (Some d) s = Inr (Some t, s1)" "ns t = ns now + ns d" "0 \<le> tv_nsec t"
      "tv_nsec t < 1000000000"
    using linux_abstime_exact [of clock s, OF assms] by blast
  obtain r e s' where f: "futex (FUTEX_WAIT_BITSET obj (sint v) (Some t)) s1 = (r, e, s')"
    by (metis prod_cases3)
  then have "linux_wait_on_address32 futex clock obj v (Some d) err s =
      Inr (if int_cast r = 0 then 0 else - int e, err, s')"
    using t(1) by (simp add: linux_wait_on_address32_def Let_def)
  then show ?thesis
    using t f by blast
qed

theorem linux_wait_request_witness:
  "\<exists>t r e s'. ns t = 1500000000 \<and>
     count_futex (FUTEX_WAIT_BITSET K (sint (3 :: u32)) (Some t)) 0 = (r, e, s') \<and>
     linux_wait_on_address32 count_futex (\<lambda>s. (0, \<lparr>tv_sec = 0, tv_nsec = 900000000\<rparr>, s)) K 3
       (Some \<lparr>tv_sec = 0, tv_nsec = 600000000\<rparr>) 9 0 = Inr (if int_cast r = 0 then 0 else - int e, 9, s')"
proof -
  let ?now = "\<lparr>tv_sec = 0, tv_nsec = 900000000\<rparr>" and ?d = "\<lparr>tv_sec = 0, tv_nsec = 600000000\<rparr>"
  let ?clock = "\<lambda>s :: nat. (0 :: int, ?now, s)"
  have v: "?clock 0 = (0, ?now, 0)" "valid_ts ?now" "valid_ts ?d" and n: "ns ?now + ns ?d = 1500000000"
    by (simp_all add: valid_ts_def ns_def)
  show ?thesis
    using linux_wait_request [where clock = ?clock, OF v, of count_futex K 3 9] unfolding n by blast
qed

section \<open>Time limits of the platforms\<close>

text \<open>
  C35. The relative time limits. Windows: whole milliseconds, rounded up and clamped to one below
  \<open>INFINITE\<close>; a finite duration never becomes an infinite wait. macOS: whole microseconds, rounded up,
  clamped to 32 bits and at least one (zero would mean no limit). The number of units is computed in 64 bits
  without a check: up to \<open>2 ^ 64 - 1\<close> units, some 584 million years on Windows and 584 thousand on macOS,
  the limit is never short by rounding and less than one unit long, or the clamp; beyond, it is that of the
  duration modulo \<open>2 ^ 64\<close> units, and a wait of \<open>2 ^ 61\<close> seconds has the limit zero on Windows and one
  microsecond on macOS.
\<close>

theorem relative_timeouts:
  assumes "valid_ts d"
  shows "timeout_ms (Some d) \<noteq> INFINITE \<and>
    uint (timeout_ms (Some d)) = min (ceil_div (ns d) 1000000 mod 2 ^ 64) 0xFFFFFFFE \<and>
    (ns d \<le> 0xFFFFFFFE * 1000000 \<longrightarrow>
       ns d \<le> uint (timeout_ms (Some d)) * 1000000 \<and> uint (timeout_ms (Some d)) * 1000000 < ns d + 1000000) \<and>
    (0xFFFFFFFE * 1000000 < ns d \<and> ns d \<le> (2 ^ 64 - 1) * 1000000 \<longrightarrow> uint (timeout_ms (Some d)) = 0xFFFFFFFE) \<and>
    timeout_us (Some d) \<noteq> 0 \<and>
    uint (timeout_us (Some d)) = max 1 (min (ceil_div (ns d) 1000 mod 2 ^ 64) 0xFFFFFFFF) \<and>
    (0 < ns d \<and> ns d \<le> 0xFFFFFFFF * 1000 \<longrightarrow>
       ns d \<le> uint (timeout_us (Some d)) * 1000 \<and> uint (timeout_us (Some d)) * 1000 < ns d + 1000) \<and>
    (0xFFFFFFFF * 1000 < ns d \<and> ns d \<le> (2 ^ 64 - 1) * 1000 \<longrightarrow> uint (timeout_us (Some d)) = 0xFFFFFFFF)"
proof -
  note v = timeout_ms_value [OF assms] timeout_us_value [OF assms] and n = ns_nonneg [OF assms]
  have ms: "ns d \<le> (2 ^ 64 - 1) * 1000000 \<Longrightarrow> uint (timeout_ms (Some d)) = min (ceil_div (ns d) 1000000) 0xFFFFFFFE"
    using v(1) ceil_div_small [of 1000000 "ns d"] n by simp
  have us: "ns d \<le> (2 ^ 64 - 1) * 1000 \<Longrightarrow> uint (timeout_us (Some d)) = max 1 (min (ceil_div (ns d) 1000) 0xFFFFFFFF)"
    using v(2) ceil_div_small [of 1000 "ns d"] n by simp
  show ?thesis
    using v(1,2) timeout_ms_finite [of d] timeout_us_finite [of d] ms us
      ceil_div_bounds [of 1000000 "ns d"] ceil_div_bounds [of 1000 "ns d"]
    by (intro conjI impI) (auto simp: min_def max_def)
qed

theorem relative_timeouts_witness:
  "0 < uint (timeout_ms (Some \<lparr>tv_sec = 0, tv_nsec = 1\<rparr>)) * 1000000 \<and>
   uint (timeout_ms (Some \<lparr>tv_sec = 0, tv_nsec = 1\<rparr>)) * 1000000 < 1000001 \<and>
   1 \<le> uint (timeout_us (Some \<lparr>tv_sec = 0, tv_nsec = 1\<rparr>)) * 1000 \<and>
   uint (timeout_us (Some \<lparr>tv_sec = 0, tv_nsec = 1\<rparr>)) * 1000 < 1001 \<and>
   timeout_ms (Some \<lparr>tv_sec = 2 ^ 61, tv_nsec = 0\<rparr>) = 0 \<and> timeout_us (Some \<lparr>tv_sec = 2 ^ 61, tv_nsec = 0\<rparr>) = 1"
proof -
  have "uint (timeout_ms (Some \<lparr>tv_sec = 2 ^ 61, tv_nsec = 0\<rparr>)) = 0"
      "uint (timeout_us (Some \<lparr>tv_sec = 2 ^ 61, tv_nsec = 0\<rparr>)) = 1"
    using relative_timeouts [of "\<lparr>tv_sec = 2 ^ 61, tv_nsec = 0\<rparr>"] by (simp_all add: valid_ts_def ns_def ceil_div_def)
  then have "timeout_ms (Some \<lparr>tv_sec = 2 ^ 61, tv_nsec = 0\<rparr>) = 0" "timeout_us (Some \<lparr>tv_sec = 2 ^ 61, tv_nsec = 0\<rparr>) = 1"
    by (simp_all add: word_uint_eq_iff)
  then show ?thesis
    using relative_timeouts [of "\<lparr>tv_sec = 0, tv_nsec = 1\<rparr>"] by (simp add: valid_ts_def ns_def ceil_div_def)
qed

text \<open>
  C36. \<open>monotonic_now\<close> on Windows reads the performance counter as nanoseconds, rounded down, normalised
  and without overflow for any counter frequency up to 9.2 GHz, on the first call (the cached frequency
  is zero) and on later ones.
\<close>

theorem windows_clock_exact:
  assumes "0 < freq" and "freq \<le> 9223372036" and "0 \<le> cnt" and "static_freq \<in> {0, freq}"
  shows "\<exists>t. monotonic_now_windows static_freq freq cnt = Inr (t, freq)
           \<and> ns t = (cnt * 1000000000) div freq \<and> 0 \<le> tv_nsec t \<and> tv_nsec t < 1000000000"
  using assms by (rule monotonic_now_windows_exact)

theorem windows_clock_exact_witness:
  "\<exists>t. monotonic_now_windows 0 10000000 25000001 = Inr (t, 10000000) \<and> ns t = 2500000100"
  using windows_clock_exact [of 10000000 25000001 0] by auto

section \<open>The interface and the build\<close>

text \<open>
  C37. A wait and a notification of the same width always use the same mechanism: on every backend and
  for every width the macros accept, \<open>atomic_wait\<close>, \<open>atomic_notify_one\<close> and \<open>atomic_notify_all\<close> either all
  work on the object's own address or all go through the proxy table, and so do, on four-byte objects,
  \<open>atomic_wait_expected\<close> and \<open>atomic_notify\<close>.
\<close>

theorem same_mechanism:
  assumes "wait_width sz"
  shows "if have_wait_on_address b (8 * sz)
    then atomic_wait b sz obj v = Some (Wait_On_Address (8 * sz) obj (take_bit (8 * sz) v) Seq_Cst)
       \<and> atomic_notify_one b sz obj = Some (Wake_By_Address (8 * sz) obj 1)
       \<and> atomic_notify_all b sz obj = Some (Wake_By_Address (8 * sz) obj WAKE_ALL)
       \<and> (sz = 4 \<longrightarrow> atomic_wait_expected b sz obj x dur so fo = Some (Expected_Native obj x dur so fo)
            \<and> atomic_notify b sz obj m = Some (Wake_By_Address 32 obj m))
    else atomic_wait b sz obj v = Some (Wait_Generic_Call (generic_args sz obj v Seq_Cst))
       \<and> atomic_notify_one b sz obj = Some (Notify_Generic_Call obj 1)
       \<and> atomic_notify_all b sz obj = Some (Notify_Generic_Call obj WAKE_ALL)
       \<and> (sz = 4 \<longrightarrow> (\<exists>a. atomic_wait_expected b sz obj x dur so fo = Some (Expected_Generic a) \<and> object a = obj)
            \<and> atomic_notify b sz obj m = Some (Notify_Generic_Call obj m))"
proof -
  have "atomic_wait b sz obj v = atomic_wait_explicit b sz obj v Seq_Cst"
    by (simp add: atomic_wait_def atomic_wait_explicit_def)
  then show ?thesis
    using wait_dispatch [OF assms, of b obj v Seq_Cst] notify_dispatch [OF assms, of b obj] have_agree [of b]
    by (cases "sz = 4") (simp_all add: notify_width_def atomic_wait_expected_def atomic_notify_def
        atomic_native_check_def wait_expected_32_def notify_32_wake_def)
qed

theorem same_mechanism_witness:
  "atomic_wait Linux 4 K 7 = Some (Wait_On_Address 32 K 7 Seq_Cst) \<and>
   atomic_notify Linux 4 K 1 = Some (Wake_By_Address 32 K 1) \<and>
   atomic_notify_all Linux 2 K = Some (Notify_Generic_Call K WAKE_ALL)"
  using same_mechanism [of 4 Linux K 7 7 None Seq_Cst Seq_Cst 1] same_mechanism [of 2 Linux K 7]
  by (simp add: wait_width_def take_bit_eq_mod)

text \<open>
  C38. \<open>atomic_wait_explicit\<close> accepts exactly the widths 1, 2, 4 and 8, \<open>atomic_wait_expected\<close> and \<open>atomic_notify\<close>
  exactly four bytes, and a call that reaches the generic machine meets its preconditions: a width it can
  load, as many bytes of expected value, the low bytes of the value given, and no time limit or the
  caller's.
\<close>

theorem dispatch_valid:
  "(atomic_wait_explicit b sz obj v order = None \<longleftrightarrow> \<not> wait_width sz) \<and>
   (atomic_wait_expected b sz obj x dur so fo = None \<longleftrightarrow> sz \<noteq> 4) \<and> (atomic_notify b sz obj m = None \<longleftrightarrow> sz \<noteq> 4) \<and>
   (\<forall>a. atomic_wait_explicit b sz obj v order = Some (Wait_Generic_Call a) \<and> valid_key obj \<longrightarrow>
      valid_call a \<and> object a = obj \<and> bytes a = sz \<and> duration a = None \<and> success a = order \<and> failure a = order \<and>
      expected0 a = map (\<lambda>i. ucast (drop_bit (8 * i) v)) [0..<sz]) \<and>
   (\<forall>a. atomic_wait_expected b sz obj x dur so fo = Some (Expected_Generic a) \<and> valid_key obj
        \<and> (\<forall>d. dur = Some d \<longrightarrow> valid_ts d) \<longrightarrow>
      valid_call a \<and> object a = obj \<and> bytes a = 4 \<and> duration a = dur \<and> success a = so \<and> failure a = fo)"
proof -
  have "(atomic_wait_explicit b sz obj v order = None \<longleftrightarrow> \<not> wait_width sz) \<and>
    (\<forall>a. atomic_wait_explicit b sz obj v order = Some (Wait_Generic_Call a) \<and> valid_key obj \<longrightarrow>
      valid_call a \<and> object a = obj \<and> bytes a = sz \<and> duration a = None \<and> success a = order \<and> failure a = order \<and>
      expected0 a = map (\<lambda>i. ucast (drop_bit (8 * i) v)) [0..<sz])"
  proof (cases "wait_width sz")
    case True
    then show ?thesis
      using wait_dispatch [OF True, of b obj v order]
      by (auto simp: generic_args_def valid_call_def word_bytes_def split: if_splits)
  next
    case False
    then show ?thesis
      by (simp add: atomic_wait_explicit_def atomic_width_check_def wait_width_def)
  qed
  then show ?thesis
    by (auto simp: atomic_wait_expected_def atomic_notify_def atomic_native_check_def wait_expected_32_def
        notify_32_wake_def have_agree valid_call_def wait_width_def split: option.splits)
qed

theorem dispatch_valid_witness:
  "valid_call (generic_args 2 K 0x1234 Seq_Cst) \<and>
   atomic_wait_explicit Linux 2 K 0x1234 Seq_Cst = Some (Wait_Generic_Call (generic_args 2 K 0x1234 Seq_Cst)) \<and>
   (\<exists>a. atomic_wait_expected Pthreads 4 K 7 None Seq_Cst Seq_Cst = Some (Expected_Generic a) \<and> valid_call a)"
proof -
  have "atomic_wait_explicit Linux 2 K 0x1234 Seq_Cst = Some (Wait_Generic_Call (generic_args 2 K 0x1234 Seq_Cst))"
    using wait_dispatch [of 2 Linux K "0x1234" Seq_Cst] by (simp add: wait_width_def)
  moreover obtain a where "atomic_wait_expected Pthreads 4 K 7 None Seq_Cst Seq_Cst = Some (Expected_Generic a)"
    by (simp add: atomic_wait_expected_def atomic_native_check_def wait_expected_32_def)
  ultimately show ?thesis
    using dispatch_valid [of Linux 2 K "0x1234" Seq_Cst] dispatch_valid [of Pthreads 4 K _ _ 7 None Seq_Cst Seq_Cst] valid_K
    by blast
qed

text \<open>
  C39. The build is consistent on Linux, FreeBSD 12 or later, macOS and Windows (on Windows without the
  option that forces pthreads), header-only or not: the library's unit and its users' units compile, the
  header selects the backend the library was built with, and the public functions are in reach of a
  user's unit, as \<open>static inline\<close> definitions of the selected backend or as symbols the library exports.
\<close>

theorem build_consistent:
  assumes "compiler_for i p" and "i \<noteq> Id_Other" and "forced \<longrightarrow> i \<noteq> Id_Windows"
    and "user = build_defines i ho forced False p" and "lib = build_defines i ho forced True p"
  shows "compiles (Some (library_source i (def_WIN64 p) forced)) lib \<and> compiles None user
    \<and> select_backend user = library_source i (def_WIN64 p) forced
    \<and> (if ho then included None user = [select_backend user] \<and> extern_linkage user = Static_Inline
       else included None user = [] \<and> extern_linkage user = Extern
         \<and> extern_linkage lib = (if i = Id_Windows then Extern_Dllexport else Extern_Visible))"
  using build_agrees [OF assms(1-3), of ho] build_links [OF assms(1), of ho forced]
  unfolding assms(4,5) by blast

theorem build_consistent_witness:
  "compiles None (build_defines Id_Linux True False False linux_platform) \<and>
   select_backend (build_defines Id_Linux True False False linux_platform) = Linux \<and>
   compiles (Some Linux) (build_defines Id_Linux True False True linux_platform)"
  using build_consistent [of Id_Linux linux_platform False _ True, OF linux_platform_ok _ _ refl refl]
  by (simp add: library_source_def)

text \<open>
  C40. The guard of the pthreads backend is inverted: it fails on exactly the platforms its message says
  the file is for. On a platform that is none of Linux, FreeBSD, macOS and Windows, and on Windows with
  the option that forces pthreads, the library does not compile, nor does a header-only user.
\<close>

theorem pthreads_guard_inverted:
  assumes "compiler_for i p" and "i = Id_Other \<or> i = Id_Windows \<and> forced"
  shows "library_source i (def_WIN64 p) forced = Pthreads
    \<and> \<not> compiles (Some Pthreads) (build_defines i ho forced True p)
    \<and> (ho \<longrightarrow> \<not> compiles None (build_defines i ho forced False p))"
  using pthreads_never_compiles [OF assms, of ho] assms(2) by (auto simp: library_source_def)

theorem pthreads_guard_inverted_witness:
  "\<not> compiles (Some Pthreads) (build_defines Id_Other False False True (linux_platform\<lparr>def_linux := False\<rparr>))"
  using pthreads_guard_inverted [of Id_Other "linux_platform\<lparr>def_linux := False\<rparr>" False False]
  by (simp add: compiler_for_def linux_platform_def)

section \<open>Specifications and the levels of the model\<close>

text \<open>
  C2. The proxy table implements its specification, on every backend: every sequence of acquisitions,
  searches and releases in which only users of a proxy release it runs without a fault, and its results
  and the final map from objects to proxies and user counts are ones the specification \<open>spec_run\<close>
  allows. On pthreads that holds while destroying mutexes and condition variables succeeds (a release
  aborts otherwise); initialising them may fail.
\<close>

theorem table_refines:
  "(ops \<in> native_proxies \<and> good_world (\<lambda>_. True) w \<and> client_ok ops cs w \<and> room (length cs) (refs w) \<longrightarrow>
      (\<exists>rs w'. table_run ops cs w = Inr (rs, w') \<and> good_world (\<lambda>_. True) w' \<and> spec_run cs rs (refs w) (refs w'))) \<and>
   (good_world os_calm u \<and> client_ok pthread_ops cs u \<and> room (length cs) (refs u) \<longrightarrow>
      (\<exists>rs u'. table_run pthread_ops cs u = Inr (rs, u') \<and> good_world os_calm u' \<and> spec_run cs rs (refs u) (refs u')))"
  using proxy_backend.run_refines [OF native_refs [of ops]] pthread.run_refines by blast

theorem table_refines_witness:
  "\<exists>p q w'. table_run futex_ops [Take K, Seek K] (wld (shr (start_sys 1))) = Inr ([p, q], w') \<and>
     spec_run [Take K, Seek K] [p, q] Map.empty (refs w')"
proof -
  let ?w = "wld (shr (start_sys 1 :: u32 sys))"
  have e: "refs ?w = Map.empty"
    by (simp add: fun_eq_iff refs_def start_sys_def view_def lookup_def shared_global_hash_table_def)
  have c: "client_ok futex_ops [Take K, Seek K] ?w"
    by (simp add: valid_K split: sum.splits prod.splits)
  obtain rs w' where r: "table_run futex_ops [Take K, Seek K] ?w = Inr (rs, w')"
      "spec_run [Take K, Seek K] rs Map.empty (refs w')"
    using conjunct1 [OF table_refines [of futex_ops ?w "[Take K, Seek K]"]] futex_native start_good c
    by (auto simp: room_def e INT_MAX_def)
  then have "length rs = 2"
    by (auto simp: res_bind_Inr_iff split: prod.splits)
  then show ?thesis
    using r by (auto simp: numeral_2_eq_2 length_Suc_conv)
qed

text \<open>
  C8. The counters of the pthreads proxy, in every reachable state (destroying mutexes and condition
  variables succeeds, initialising them may fail): \<open>waiting\<close> is the number of threads
  inside the blocking call on that proxy, and the tokens are between zero and the number of threads of
  the process; neither leaves the range of \<open>int\<close>.
\<close>

theorem pthread_counters:
  assumes "reachable pthread_ops os_calm N s" and "int N < INT_MAX"
    and "lookup (wld (shr s)) k = Some p" and "heap (wld (shr s)) p = Some px"
  shows "waiting (atomic px) = int (card {t. sleeping k (threads s t)})
    \<and> 0 \<le> pending (atomic px) \<and> pending (atomic px) \<le> int N"
proof -
  have "view (wld (shr s)) k = Some (p, nat (use_count px), atomic px)"
    using assms(3,4) by (simp add: view_def)
  then show ?thesis
    using counts_invD [OF reachable_counts [OF assms(1,2)]]
    by (simp add: tokens_ok_def nsleep_def sleepers_def)
qed

theorem pthread_counters_witness:
  "\<exists>p px. lookup (wld (shr pparked_sys)) K = Some p \<and> heap (wld (shr pparked_sys)) p = Some px \<and>
     waiting (atomic px) = int (card {t. sleeping K (threads pparked_sys t)}) \<and> pending (atomic px) \<le> 2"
proof -
  obtain l where l: "threads pparked_sys 0 = Waiting (byte_wait 1) l" "pc l = W_Parked" "item l \<noteq> NULL"
    using snapD [OF pparked(2)] by auto
  have N: "int 2 < INT_MAX"
    by (simp add: INT_MAX_def)
  have "registered K (threads pparked_sys 0)"
    using l by (simp add: byte_wait_def)
  then obtain p px where "lookup (wld (shr pparked_sys)) K = Some p" "heap (wld (shr pparked_sys)) p = Some px"
    using pthread_sys.reachable_item_live [OF pparked(1) N] by blast
  then show ?thesis
    using pthread_counters [OF pparked(1) N] by fastforce
qed

text \<open>
  C21. What \<open>atomic_notify_generic\<close> returns on the pthreads backend, in every interleaving: 0 exactly if the
  object had no proxy; otherwise a negated error, or a count between 1 and the number of threads (1 if
  there is none). So \<open>atomic_notify_32\<close>, which adds one to it, does not overflow.
\<close>

theorem pthread_notify_result:
  assumes "reachable pthread_ops os_calm N s" and "int N < INT_MAX" and "threads s t = Notifying l"
    and "npc l = N_Done" and "m \<noteq> 0"
  shows "(nret l = 0 \<longleftrightarrow> nitem l = NULL) \<and> nret l \<le> max 1 (int N) \<and>
    atomic_notify_32 (\<lambda>m e w. (nret l, nerrno l, w)) v v desired m err w =
      Inr (if nret l < 0 then (nret l, desired, v, - nret l, w) else (1 + nret l, desired, v, nerrno l, w))"
proof -
  have ok: "result_ok N l"
    using reachable_notifier [OF assms(1,2), of t] assms(3,4) by simp
  show ?thesis
    using result_added [OF ok assms(2,5)] ok by (auto simp: result_ok_def split: if_splits)
qed

theorem pthread_notify_result_witness:
  "\<exists>l. threads pnotified_sys 1 = Notifying l \<and> nitem l \<noteq> NULL \<and> nret l \<noteq> 0 \<and> nret l \<le> 2 \<and>
     atomic_notify_32 (\<lambda>m e w. (nret l, nerrno l, w)) 5 5 6 1 0 () = Inr (2, 6, 5, nerrno l, ())"
proof -
  obtain l where l: "threads pnotified_sys 1 = Notifying l" "npc l = N_Done" "nitem l \<noteq> NULL" "nret l = 1"
    using pnotified(2) by (auto simp: notify_result_def split: thread.splits)
  have N: "int 2 < INT_MAX"
    by (simp add: INT_MAX_def)
  show ?thesis
    using pthread_notify_result [OF pnotified(1) N l(1,2), of 1 5 6 0 "()"] l by auto
qed

text \<open>
  C29. The mutex, the condition variable and its attributes in the pthreads proxy. Initialising unused
  memory uses nothing wrongly, whatever the calls answer; the result and the counts are those of the
  proxy of the threaded system; on success mutex and condition variable are ready, on failure nothing is
  left initialised (as destroying the mutex succeeds). Destroying a ready proxy leaves unused memory. A
  wait blocks until now plus the duration on the clock it reads, and that is the clock of the condition
  variable exactly if the backend uses the realtime clock or \<open>pthread_condattr_setclock\<close> succeeded, the
  result of which is ignored.
\<close>

theorem pthread_resources:
  assumes "pt_unused x" and "r_mutex_destroy c = 0" and "valid_ts (now (pt_clock clk_mono))" and "valid_ts d"
  shows "\<exists>r x' sc. pt_init clk_mono c x = Inr (r, x')
    \<and> pthread_proxy_init (init_script clk_mono c) (pt_counts x) = (r, pt_counts x', sc)
    \<and> (if r \<noteq> 0 then pt_unused x'
       else pt_mutex x' \<and> pt_attr x' = None \<and> pt_counts x' = \<lparr>pending = 0, waiting = 0\<rparr>
         \<and> (pt_cond x' = Some (pt_clock clk_mono) \<longleftrightarrow> \<not> clk_mono \<or> r_setclock c = 0)
         \<and> (\<exists>x''. pt_destroy 0 0 x' = Inr (0, x'') \<and> pt_unused x'')
         \<and> (\<exists>t. pt_abstime clk_mono now (Some d) = Inr (Some t) \<and> ns t = ns (now (pt_clock clk_mono)) + ns d))"
proof -
  obtain r x' sc where i: "pt_init clk_mono c x = Inr (r, x')"
      "r = 0 \<Longrightarrow> pt_ready (if clk_mono \<and> r_setclock c = 0 then Clock_Monotonic else Clock_Realtime) x'"
      "r = 0 \<Longrightarrow> pt_counts x' = \<lparr>pending = 0, waiting = 0\<rparr>"
      "r \<noteq> 0 \<Longrightarrow> pt_unused x'"
      "pthread_proxy_init (init_script clk_mono c) (pt_counts x) = (r, pt_counts x', sc)"
    using pt_init_outcome [OF assms(1), of clk_mono c] assms(2) by (auto simp: pt_unused_def)
  have "pt_cond x' = Some (pt_clock clk_mono) \<longleftrightarrow> \<not> clk_mono \<or> r_setclock c = 0" if "r = 0"
    using i(2) [OF that] by (auto simp: pt_ready_def pt_clock_def)
  then show ?thesis
    using i pt_destroy_unused [OF i(2)] pt_abstime_exact [where now = now, OF assms(3,4)]
    by (intro exI [of _ r] exI [of _ x'] exI [of _ sc]) (auto simp: pt_ready_def)
qed

theorem pthread_resources_witness:
  "\<exists>x'. pt_init True \<lparr>r_mutex_init = 0, r_attr_init = 0, r_setclock = 22, r_cond_init = 0, r_mutex_destroy = 0\<rparr>
       \<lparr>pt_mutex = False, pt_cond = None, pt_attr = None, pt_counts = \<lparr>pending = 5, waiting = 5\<rparr>\<rparr> = Inr (0, x')
     \<and> pt_mutex x' \<and> pt_cond x' \<noteq> Some (pt_clock True)"
proof -
  let ?c = "\<lparr>r_mutex_init = 0, r_attr_init = 0, r_setclock = 22, r_cond_init = 0, r_mutex_destroy = 0\<rparr>"
  let ?x = "\<lparr>pt_mutex = False, pt_cond = None, pt_attr = None, pt_counts = \<lparr>pending = 5, waiting = 5\<rparr>\<rparr>"
  have h: "pt_unused ?x" "r_mutex_destroy ?c = 0" "valid_ts ((\<lambda>_. zero_ts) (pt_clock True))" "valid_ts zero_ts"
    by (simp_all add: pt_unused_def valid_ts_def zero_ts_def)
  have "\<exists>s. pthread_proxy_init (init_script True ?c) \<lparr>pending = 5, waiting = 5\<rparr> = (0, \<lparr>pending = 0, waiting = 0\<rparr>, s)"
    by (simp add: pthread_proxy_init_def init_script_def init_next_def os_next_def)
  then show ?thesis
    using pthread_resources [where clk_mono = True and x = ?x and c = ?c and d = zero_ts, OF h] by (auto split: if_splits)
qed

text \<open>
  C32. The proxies the threaded system runs on are the macros over the backends' functions, on any kernel
  whose calls do what their interfaces document, in every state of it and for every number of blocked threads (for
  Linux, where the clock is read, with valid readings and durations). The \<open>..._WAIT\<close> macro over
  \<open>wait_on_address32\<close> leaves errno alone and returns what the blocking call of the proxy returns without
  blocking (the call fails, or the counter is no longer the one captured), with nobody put to sleep; and where
  the proxy blocks, it puts the thread to sleep on the counter, comparing 32 bits, and returns what the proxy
  returns when that sleep ends. The \<open>..._WAKE\<close> macro over \<open>wake_by_address32\<close>, for a maximum other than zero,
  puts the counter up by one, returns the same and unblocks the same number of threads, on the counter.
\<close>

theorem native_macros_agree:
  assumes "documented_futex futex" and "documented_umtx umtx" and "documented_ulock ulock" and "documented_win win"
    and "width_at s obj = 32" and "clock s = (cr, now, s)" and "valid_ts now" and "\<forall>t. d = Some t \<longrightarrow> valid_ts t"
    and "m \<noteq> 0"
  shows "proxy_wait_agrees futex_ops int (linux_wait_on_address32 futex clock) obj cnt d err s
    \<and> proxy_wake_agrees futex_ops int (linux_wake_by_address32 futex) obj m n err s
    \<and> proxy_wait_agrees umtx_ops int (\<lambda>obj v d e s. Inr (freebsd_wait_on_address32 umtx obj v d e s)) obj cnt d err s
    \<and> proxy_wake_agrees umtx_ops int (freebsd_wake_by_address32 umtx) obj m n err s
    \<and> proxy_wait_agrees ulock_ops int (\<lambda>obj v d e s. Inr (macos_wait_on_address32 ulock obj v d e s)) obj cnt d err s
    \<and> proxy_wake_agrees ulock_ops int (macos_wake_by_address32 ulock) obj m n err s
    \<and> proxy_wait_agrees waitaddr_ops (\<lambda>n. windows_error_to_errno (word_of_nat n))
        (\<lambda>obj v d e s. Inr (windows_wait_on_address32 win obj v d e s)) obj cnt d err s
    \<and> proxy_wake_agrees waitaddr_ops (\<lambda>n. windows_error_to_errno (word_of_nat n)) (windows_wake_by_address win) obj m n err s"
proof -
  have d: "\<And>t. d = Some t \<Longrightarrow> valid_ts t"
    using assms(8) by blast
  show ?thesis
    using linux_proxy [where clock = clock and s = s, OF assms(1,6,7) d] freebsd_proxy [OF assms(2)]
      macos_proxy [OF assms(3)] windows_proxy [OF assms(4)] assms(5,9) by simp
qed

theorem native_macros_agree_witness:
  "\<exists>s'. linux_wait_on_address32 plain_futex (\<lambda>s. (0, zero_ts, s)) K 5 None 7 parked_pair = Inr (- EINTR, 7, s')
     \<and> log s' = [Slept K 32]
   \<and> (\<exists>s''. freebsd_wake_by_address32 plain_umtx K WAKE_ALL 7 (fetch_add_counter K parked_pair) = (INT_MAX - 1, 7, s'')
        \<and> log s'' = [Unblocked K 2])"
proof -
  have h: "width_at parked_pair K = 32" "(\<lambda>s. (0 :: int, zero_ts, s)) parked_pair = (0, zero_ts, parked_pair)" "valid_ts zero_ts"
      "\<forall>t. None = Some t \<longrightarrow> valid_ts t" "WAKE_ALL \<noteq> 0"
    by (simp_all add: parked_pair_def valid_ts_def zero_ts_def)
  note agree = native_macros_agree [where d = None and clock = "\<lambda>s. (0 :: int, zero_ts, s)" and s = parked_pair and obj = K
      and m = WAKE_ALL and err = 7 and cnt = 5 and n = 1, OF plain_documented h]
  have w: "proxy_wait_agrees futex_ops int (linux_wait_on_address32 plain_futex (\<lambda>s. (0, zero_ts, s))) K 5 None 7 parked_pair"
    using agree by blast
  have k: "proxy_wake_agrees umtx_ops int (freebsd_wake_by_address32 plain_umtx) K WAKE_ALL 1 7 parked_pair"
    using agree by blast
  have c: "counter_at K parked_pair = 5" "fault_next parked_pair = 0" "sleep_ends parked_pair = 4" "log parked_pair = []"
      "blocked_at parked_pair K = 2"
    by (simp_all add: parked_pair_def counter_at_def K_def)
  have "\<exists>s'. linux_wait_on_address32 plain_futex (\<lambda>s. (0, zero_ts, s)) K 5 None 7 parked_pair = Inr (- EINTR, 7, s')
      \<and> log s' = [Slept K 32]"
    using w c by (simp add: proxy_wait_agrees_def wait_agrees_def wait_macro_def futex_park_def futex_resume_def EINTR_def)
  moreover have "\<exists>s''. freebsd_wake_by_address32 plain_umtx K WAKE_ALL 7 (fetch_add_counter K parked_pair) = (INT_MAX - 1, 7, s'')
      \<and> log s'' = [Unblocked K 2]"
    using k c by (simp add: proxy_wake_agrees_def wake_agrees_def wake_macro_def native_ops_defs umtx_wake_def os_next_def
        Let_def unblocks_def nominal_woken_def nr_wake_all INT_MAX_def split: prod.splits)
  ultimately show ?thesis
    by blast
qed

text \<open>
  C31. The operations the threads of the native system run on are the backends' functions, for every
  backend and width that has them, on any kernel whose calls do what their interfaces document, in every
  state of it, with valid clock readings and durations. \<open>wait_on_address8/16/32/64\<close> leaves errno alone and returns
  what the wait of the system returns without blocking (the call fails, or the object does not have the
  expected value), with nobody put to sleep; where that blocks, it puts the thread to sleep on the object,
  comparing all of it, and returns the error the sleep ends with. \<open>wake_by_address8/16/32/64\<close>, for a maximum other
  than zero (which is never passed to it), leaves errno alone, returns the same and unblocks the same
  number of threads, on the object.
\<close>

theorem address_ops_agree:
  assumes "documented_kernel os" and "have_wait_on_address b bits" and "width_at s obj = bits"
    and "sys_clock os s = (cr, now, s)" and "valid_ts now" and "\<forall>t. d = Some t \<longrightarrow> valid_ts t" and "m \<noteq> 0"
  shows "(\<exists>wait. wait_on_address os b bits obj = Some wait \<and>
      wait_agrees (addr_wait b (kernel_error b (fault_next s)) (take_bit bits x) (take_bit bits (memory_at s obj)))
        (- kernel_error b (sleep_ends s)) obj bits err s (wait x d err s)) \<and>
    (\<exists>wake. wake_by_address os b bits obj = Some wake \<and>
      wake_agrees (addr_wake b [kernel_error b (fault_next s)] m (blocked_at s obj)) obj err s (wake m err s))"
  using wait_on_address_agrees [OF assms(1,2,4,5), of d obj x err] assms(6)
    wake_by_address_agrees [OF assms(1) _ assms(3,7), of b err] assms(2) have_agree [of b bits] by blast

theorem address_ops_agree_witness:
  "\<exists>wake s' s''. wait_on_address plain_kernel (Windows True) 16 K =
      Some (\<lambda>v d e s. Inr (windows_wait_on_address16 plain_win K (ucast v) d e s)) \<and>
     windows_wait_on_address16 plain_win K 0x1234 None 7 narrow_pair = (0, 7, s') \<and> log s' = [Slept K 16] \<and>
     wake_by_address plain_kernel (Windows True) 16 K = Some wake \<and>
     wake 1 7 narrow_pair = (1, 7, s'') \<and> log s'' = [Unblocked K 1]"
proof -
  have h: "have_wait_on_address (Windows True) 16" "width_at narrow_pair K = 16"
      "sys_clock plain_kernel narrow_pair = (0, zero_ts, narrow_pair)" "valid_ts zero_ts"
      "\<forall>t. None = Some t \<longrightarrow> valid_ts t" "(1 :: u32) \<noteq> 0"
    by (simp_all add: narrow_pair_def parked_pair_def plain_kernel_def valid_ts_def zero_ts_def)
  have c: "kernel_error (Windows True) (fault_next narrow_pair) = 0" "kernel_error (Windows True) (sleep_ends narrow_pair) = 0"
      "take_bit 16 (memory_at narrow_pair K) = 0x1234" "log narrow_pair = []" "blocked_at narrow_pair K = 2" "sys_win plain_kernel = plain_win"
    by (simp_all add: plain_kernel_def narrow_pair_def parked_pair_def windows_error_zero take_bit_eq_mod K_def)
  have w: "wait_on_address plain_kernel (Windows True) 16 K =
      Some (\<lambda>v d e s. Inr (windows_wait_on_address16 plain_win K (ucast v) d e s))"
      "wake_by_address plain_kernel (Windows True) 16 K = Some (windows_wake_by_address plain_win K)"
    by (simp_all add: plain_kernel_def)
  have u: "(ucast (0x1234 :: u64) :: u16) = 0x1234"
    by simp
  note agree = address_ops_agree [where x = "0x1234" and err = 7, OF plain_kernel_documented h]
  have "\<exists>s'. windows_wait_on_address16 plain_win K 0x1234 None 7 narrow_pair = (0, 7, s') \<and> log s' = [Slept K 16]"
    using agree w(1) c u by (auto simp: wait_agrees_def addr_wait_def take_bit_eq_mod)
  moreover have "\<exists>s''. windows_wake_by_address plain_win K 1 7 narrow_pair = (1, 7, s'') \<and> log s'' = [Unblocked K 1]"
    using agree w(2) c by (auto simp: wake_agrees_def unblocks_def nominal_woken_def one_or_all_def split: prod.splits)
  ultimately show ?thesis
    using w by blast
qed

text \<open>
  C17. The native loops of \<open>atomic_wait_1/2/4/8\<close>, on every backend and width that has the native wait: no
  fault; the function returns at the first load that sees another value, with errno untouched, whatever
  the waits answered in between, and goes on as long as every load sees the expected one.
\<close>

theorem native_loop_returns:
  assumes "wait_on_address os b bits obj = Some wait"
  shows "native_wait_loop fuel (sys_load os bits obj) wait order v err s = Inr None
      \<and> (\<forall>i<fuel. fst (sys_load os bits obj order
            (turn_state (sys_load os bits obj) wait order v err i s)) = v)
    \<or> (\<exists>n<fuel. \<exists>w s'. (\<forall>i<n. fst (sys_load os bits obj order
            (turn_state (sys_load os bits obj) wait order v err i s)) = v)
        \<and> sys_load os bits obj order (turn_state (sys_load os bits obj) wait order v err n s) = (w, s') \<and> w \<noteq> v
        \<and> native_wait_loop fuel (sys_load os bits obj) wait order v err s = Inr (Some (err, s')))"
proof -
  let ?load = "sys_load os bits obj"
  let ?same = "\<lambda>i. fst (?load order (turn_state ?load wait order v err i s)) = v"
  note c = wait_on_address_contract [OF assms]
  show ?thesis
  proof (cases "\<forall>i<fuel. ?same i")
    case True
    then show ?thesis
      using native_wait.loop_runs [OF c True] by blast
  next
    case False
    then obtain j where j: "j < fuel" "\<not> ?same j"
      by blast
    define n where "n = (LEAST i. \<not> ?same i)"
    have n: "\<not> ?same n" "n \<le> j" "\<forall>i<n. ?same i"
      using LeastI [of "\<lambda>i. \<not> ?same i", OF j(2)] Least_le [of "\<lambda>i. \<not> ?same i", OF j(2)] not_less_Least
      unfolding n_def by blast+
    obtain w s' where l: "?load order (turn_state ?load wait order v err n s) = (w, s')"
      by (metis surj_pair)
    then show ?thesis
      using native_wait.loop_returns [OF c n(3) l] n j(1) by (intro disjI2 exI [of _ n]) auto
  qed
qed

theorem native_loop_returns_witness:
  "native_wait_loop 2 (sys_load count_kernel 32 K) (\<lambda>v. linux_wait_on_address32 count_futex count_clock K (ucast v))
     Seq_Cst 0 7 0 = Inr (Some (7, 1))"
proof -
  have w: "wait_on_address count_kernel Linux 32 K =
      Some (\<lambda>v. linux_wait_on_address32 count_futex count_clock K (ucast v))"
    by (simp add: count_kernel_def)
  have l: "sys_load count_kernel 32 K Seq_Cst i = (of_nat i, i)" for i
    by (simp add: count_kernel_def)
  let ?turn = "\<lambda>i. turn_state (sys_load count_kernel 32 K)
      (\<lambda>v. linux_wait_on_address32 count_futex count_clock K (ucast v)) Seq_Cst 0 7 i 0"
  have t: "?turn 0 = 0" "?turn (Suc 0) = 1"
    by (simp_all add: l linux_wait_on_address32_def linux_abstime_def count_futex_def int_cast_def)
  show ?thesis
    using native_loop_returns [OF w, of 2 Seq_Cst 0 7 0]
    by (auto simp: less_2_cases_iff t l simp del: turn_state.simps native_wait_loop.simps)
qed

text \<open>
  C20. The threaded system of the native functions does what \<open>atomic_wait_expected_32\<close> does: every turn of
  its loop over operations that answer from a script (the choices of the environment and the values of
  the object) is a run of the machine on choices of that script, in order, and ends the same way: at the
  top of the loop, or returned, with the same result, errno and expected value.
\<close>

theorem native_turn_agrees:
  assumes "have_wait_on_address b 32"
    and "expected_turn (script_ops b f) (nw_duration a) (nw_end l) (nw_success a) (nw_failure a)
      (nw_entry l) (nw_expected l) (nw_ret l) (nw_errno l) i = Inr t"
    and "nw_pc l = NW_Load" and "\<not> nw_plain a"
  shows "\<exists>js l'. nw_run b a (map f js) l = Inr l' \<and> sorted js \<and> set js \<subseteq> {i..} \<and> turn_matches t l' (nw_expected l)"
  using address_backend.turn_simulated [OF native_address [OF assms(1)] assms(2-4)] .

theorem native_turn_agrees_witness:
  "\<exists>(js :: nat list) l'. nw_run Linux word_wait (map (\<lambda>_. (calm_env, 8)) js) ((nw_enter word_wait 0)\<lparr>nw_pc := NW_Load\<rparr>) = Inr l'
     \<and> nw_pc l' = NW_Done \<and> nw_ret l' = 0 \<and> nw_expected l' = 8"
proof -
  let ?l = "(nw_enter word_wait 0)\<lparr>nw_pc := NW_Load\<rparr>" and ?f = "\<lambda>_ :: nat. (calm_env, 8 :: u32)"
  have turn: "expected_turn (script_ops Linux ?f) (nw_duration word_wait) (nw_end ?l) (nw_success word_wait)
      (nw_failure word_wait) (nw_entry ?l) (nw_expected ?l) (nw_ret ?l) (nw_errno ?l) 0 = Inr (Return 0 8 0 1)"
    by (simp add: expected_turn_def script_ops_def nw_enter_def word_wait_def Let_def)
  have "nw_pc ?l = NW_Load" "\<not> nw_plain word_wait"
    by (simp_all add: word_wait_def)
  then obtain js l' where "nw_run Linux word_wait (map ?f js) ?l = Inr l'"
      "turn_matches (Return 0 8 0 1) l' (nw_expected ?l)"
    using native_turn_agrees [OF _ turn] by auto
  then show ?thesis
    by auto
qed

end
